(* ===== verification/Coro_Prelude.thy ===== *)
theory Coro_Prelude
  imports Main "HOL-Library.Word"
begin

text \<open>
  Shared vocabulary of the development: results with errors, the arithmetic of the
  unsigned and signed 64-bit integers of the sources, and raw memory as a list of
  characters with guarded copies.  The components import this theory; their proofs use
  the collections \<open>sz_simps\<close> (machine arithmetic without wrap-around) and
  \<open>mem_simps\<close> (slices of memory and writes into it).
\<close>

named_theorems sz_simps \<open>size\_t arithmetic that does not wrap\<close>
named_theorems mem_simps \<open>slices of raw memory\<close>

text \<open>\<open>std::coroutine_handle<>\<close> is an address, 0 the null or no-op handle.\<close>

type_synonym handle = nat

section \<open>Results\<close>

text \<open>A computation that raises or stops is \<open>Inl\<close> of an error, a value is \<open>Inr\<close>.\<close>

definition rbind :: "'e + 'a \<Rightarrow> ('a \<Rightarrow> 'e + 'b) \<Rightarrow> 'e + 'b" where
  "rbind m f = (case m of Inl e \<Rightarrow> Inl e | Inr x \<Rightarrow> f x)"

lemma rbind_Inr [simp]: "rbind (Inr x) f = f x"
  by (simp add: rbind_def)

lemma rbind_Inl [simp]: "rbind (Inl e) f = Inl e"
  by (simp add: rbind_def)

lemma rbind_eq_Inr: "rbind m f = Inr y \<longleftrightarrow> (\<exists>x. m = Inr x \<and> f x = Inr y)"
  by (cases m) auto

section \<open>Machine integers\<close>

text \<open>
  \<open>size_t\<close> and \<open>uint64_t\<close> are kept as naturals with the wrap-around written out;
  \<open>int64_t\<close> is an integer reduced to two's complement.
\<close>

type_synonym size_t = nat

definition sz_max :: nat where
  "sz_max = 2 ^ 64 - 1"

definition sz_add :: "size_t \<Rightarrow> size_t \<Rightarrow> size_t" where
  "sz_add a b = (a + b) mod 2 ^ 64"

definition sz_sub :: "size_t \<Rightarrow> size_t \<Rightarrow> size_t" where
  "sz_sub a b = (a + 2 ^ 64 - b) mod 2 ^ 64"

definition sz_mul :: "size_t \<Rightarrow> size_t \<Rightarrow> size_t" where
  "sz_mul a b = (a * b) mod 2 ^ 64"

definition i64 :: "int \<Rightarrow> int" where
  "i64 x = (x + 2 ^ 63) mod 2 ^ 64 - 2 ^ 63"

lemma sz_add_le [sz_simps]: "a + b \<le> sz_max \<Longrightarrow> sz_add a b = a + b"
  by (simp add: sz_add_def sz_max_def)

lemma sz_sub_le [sz_simps]:
  assumes "b \<le> a" and "a \<le> sz_max"
  shows "sz_sub a b = a - b"
proof -
  have "a + 2 ^ 64 - b = (a - b) + 2 ^ 64" using assms(1) by simp
  then have "sz_sub a b = (a - b) mod 2 ^ 64" unfolding sz_sub_def by (simp only: mod_add_self2)
  then show ?thesis using assms(2) by (simp add: sz_max_def)
qed

lemma sz_mul_le [sz_simps]: "a * b \<le> sz_max \<Longrightarrow> sz_mul a b = a * b"
  by (simp add: sz_mul_def sz_max_def)

lemma sz_add_bound: "sz_add a b \<le> sz_max"
  by (simp add: sz_add_def sz_max_def)

lemma sz_sub_add_cancel:
  "a \<le> sz_max \<Longrightarrow> b \<le> sz_max \<Longrightarrow> sz_add (sz_sub a b) b = a"
proof -
  assume a: "a \<le> sz_max" and b: "b \<le> sz_max"
  have "sz_add (sz_sub a b) b = (a + 2 ^ 64 - b + b) mod 2 ^ 64"
    unfolding sz_add_def sz_sub_def by (rule mod_add_left_eq)
  also have "a + 2 ^ 64 - b + b = a + 2 ^ 64" using b by (simp add: sz_max_def)
  finally show ?thesis using a by (simp add: sz_max_def)
qed

lemma i64_id [sz_simps]: "- (2 ^ 63) \<le> x \<Longrightarrow> x < 2 ^ 63 \<Longrightarrow> i64 x = x"
  by (simp add: i64_def)

lemma i64_range: "- (2 ^ 63) \<le> i64 x \<and> i64 x < 2 ^ 63"
proof -
  have "0 \<le> (x + 2 ^ 63) mod 2 ^ 64" and "(x + 2 ^ 63) mod 2 ^ 64 < 2 ^ 64"
    by simp_all
  then show ?thesis unfolding i64_def by simp
qed

text \<open>C++ integer division and remainder truncate towards zero.\<close>

definition c_div :: "int \<Rightarrow> int \<Rightarrow> int" where
  "c_div a b = sgn a * sgn b * (\<bar>a\<bar> div \<bar>b\<bar>)"

definition c_mod :: "int \<Rightarrow> int \<Rightarrow> int" where
  "c_mod a b = a - b * c_div a b"

lemma c_div_nonneg [sz_simps]: "0 \<le> a \<Longrightarrow> 0 < b \<Longrightarrow> c_div a b = a div b"
  by (cases "a = 0") (simp_all add: c_div_def)

lemma c_mod_nonneg [sz_simps]: "0 \<le> a \<Longrightarrow> 0 < b \<Longrightarrow> c_mod a b = a mod b"
  by (simp add: c_mod_def c_div_nonneg minus_mult_div_eq_mod)

section \<open>Raw memory\<close>

text \<open>
  \<open>mslice m i n\<close> reads \<open>n\<close> cells at offset \<open>i\<close>; \<open>mem_write m i bs\<close> is what
  \<open>memcpy\<close> and \<open>memmove\<close> leave behind when the target range is inside \<open>m\<close>.
\<close>

definition mslice :: "'a list \<Rightarrow> nat \<Rightarrow> nat \<Rightarrow> 'a list" where
  "mslice m i n = take n (drop i m)"

definition mem_write :: "'a list \<Rightarrow> nat \<Rightarrow> 'a list \<Rightarrow> 'a list" where
  "mem_write m i bs = take i m @ bs @ drop (i + length bs) m"

lemma length_mslice [mem_simps]: "length (mslice m i n) = min n (length m - i)"
  by (simp add: mslice_def)

lemma mslice_zero [mem_simps]: "mslice m i 0 = []"
  by (simp add: mslice_def)

lemma length_mem_write [mem_simps]:
  "i + length bs \<le> length m \<Longrightarrow> length (mem_write m i bs) = length m"
  by (simp add: mem_write_def)

lemma mslice_mem_write_same [mem_simps]:
  "i + length bs \<le> length m \<Longrightarrow> mslice (mem_write m i bs) i (length bs) = bs"
  by (simp add: mslice_def mem_write_def)

lemma mslice_mem_write_before [mem_simps]:
  assumes "j + n \<le> i" and "i \<le> length m"
  shows "mslice (mem_write m i bs) j n = mslice m j n"
proof -
  have "mslice (mem_write m i bs) j n = take n (drop j (take i m))"
    using assms by (simp add: mslice_def mem_write_def)
  also have "\<dots> = mslice m j n"
    using assms by (simp add: mslice_def drop_take min_def)
  finally show ?thesis .
qed

lemma mslice_append_split [mem_simps]:
  "i + n \<le> length m \<Longrightarrow> mslice m i (n + k) = mslice m i n @ mslice m (i + n) k"
  by (simp add: mslice_def take_add add.commute [of n i])

lemma mslice_drop [mem_simps]:
  "k \<le> n \<Longrightarrow> mslice m (i + k) (n - k) = drop k (mslice m i n)"
  by (simp add: mslice_def drop_take add.commute)

lemma take_mslice: "k \<le> n \<Longrightarrow> take k (mslice m i n) = mslice m i k"
  by (simp add: mslice_def min_absorb1)

lemma mslice_append_left [mem_simps]:
  "i + n \<le> length m \<Longrightarrow> mslice (m @ m') i n = mslice m i n"
  by (simp add: mslice_def)

text \<open>A write directly behind a readable window extends that window.\<close>

lemma mslice_mem_write_extend:
  assumes "i \<le> j" and "j + length bs \<le> length m"
  shows "mslice (mem_write m j bs) i (j - i + length bs) = mslice m i (j - i) @ bs"
proof -
  let ?m = "mem_write m j bs"
  have len: "length ?m = length m" using assms by (simp add: mem_simps)
  have "mslice ?m i ((j - i) + length bs) = mslice ?m i (j - i) @ mslice ?m (i + (j - i)) (length bs)"
    by (rule mslice_append_split) (use assms len in simp)
  also have "mslice ?m i (j - i) = mslice m i (j - i)"
    by (rule mslice_mem_write_before) (use assms in simp_all)
  also have "mslice ?m (i + (j - i)) (length bs) = bs"
    using assms by (simp add: mem_simps)
  finally show ?thesis .
qed

text \<open>\<open>std::vector::resize\<close>: cut, or extend with value-initialised cells.\<close>

definition vec_resize :: "'a \<Rightarrow> nat \<Rightarrow> 'a list \<Rightarrow> 'a list" where
  "vec_resize z n xs = take n xs @ replicate (n - length xs) z"

lemma length_vec_resize [mem_simps]: "length (vec_resize z n xs) = n"
  by (simp add: vec_resize_def)

lemma mslice_vec_resize [mem_simps]:
  "i + k \<le> length xs \<Longrightarrow> length xs \<le> n \<Longrightarrow> mslice (vec_resize z n xs) i k = mslice xs i k"
  by (simp add: vec_resize_def mslice_append_left)

text \<open>The largest \<open>std::vector<char>\<close>: \<open>PTRDIFF_MAX\<close> elements.\<close>

definition vec_max :: nat where
  "vec_max = 2 ^ 63 - 1"

lemma vec_max_sz: "vec_max + vec_max \<le> sz_max"
  by (simp add: vec_max_def sz_max_def)

end
