(* ===== verification/Byte_Buffer.thy ===== *)
theory Byte_Buffer
  imports Coro_Prelude
begin

text \<open>
  \<open>class Buffer\<close> of \<open>include/coro_net/buffer.hpp\<close>: a vector of characters with a
  reader and a writer index, both \<open>size_t\<close>.  Pointers into the vector (\<open>peek\<close>,
  \<open>beginWrite\<close>) are offsets.  Reads and writes outside the vector, a vector that is too
  large and the failed assertion of \<open>hasWritten\<close> are errors.
\<close>

section \<open>State and operations\<close>

datatype buf_error =
    LengthError        \<comment> \<open>\<open>std::length_error\<close> of \<open>std::vector\<close>\<close>
  | OutOfBounds        \<comment> \<open>a copy that leaves the vector\<close>
  | AssertionFailed    \<comment> \<open>\<open>assert\<close> of \<open>hasWritten\<close>\<close>

record buffer =
  buf_data :: "char list"
  readerIndex :: size_t
  writerIndex :: size_t

definition kCheapPrepend :: size_t where "kCheapPrepend = 8"
definition kInitialSize :: size_t where "kInitialSize = 1024"

definition buffer_new :: "size_t \<Rightarrow> buf_error + buffer" where
  "buffer_new initialSize =
     (let n = sz_add kCheapPrepend initialSize in
      if n > vec_max then Inl LengthError
      else Inr \<lparr>buf_data = replicate n (CHR 0x00),
                readerIndex = kCheapPrepend, writerIndex = kCheapPrepend\<rparr>)"

definition readableBytes :: "buffer \<Rightarrow> size_t" where
  "readableBytes b = sz_sub (writerIndex b) (readerIndex b)"

definition writableBytes :: "buffer \<Rightarrow> size_t" where
  "writableBytes b = sz_sub (length (buf_data b)) (writerIndex b)"

definition prependableBytes :: "buffer \<Rightarrow> size_t" where
  "prependableBytes b = readerIndex b"

definition peek :: "buffer \<Rightarrow> size_t" where
  "peek b = readerIndex b"

definition retrieveAll :: "buffer \<Rightarrow> buffer" where
  "retrieveAll b = b\<lparr>readerIndex := kCheapPrepend, writerIndex := kCheapPrepend\<rparr>"

definition retrieve :: "size_t \<Rightarrow> buffer \<Rightarrow> buffer" where
  "retrieve len b =
     (if len < readableBytes b then b\<lparr>readerIndex := sz_add (readerIndex b) len\<rparr>
      else retrieveAll b)"

definition retrieveAsString :: "size_t \<Rightarrow> buffer \<Rightarrow> buf_error + (string \<times> buffer)" where
  "retrieveAsString len b =
     (if peek b + len > length (buf_data b) then Inl OutOfBounds
      else Inr (mslice (buf_data b) (peek b) len, retrieve len b))"

definition retrieveAllAsString :: "buffer \<Rightarrow> buf_error + (string \<times> buffer)" where
  "retrieveAllAsString b = retrieveAsString (readableBytes b) b"

definition makeSpace :: "size_t \<Rightarrow> buffer \<Rightarrow> buf_error + buffer" where
  "makeSpace len b =
     (if sz_add (writableBytes b) (prependableBytes b) < sz_add len kCheapPrepend
      then (let n = sz_add (writerIndex b) len in
            if n > vec_max then Inl LengthError
            else Inr (b\<lparr>buf_data := vec_resize (CHR 0x00) n (buf_data b)\<rparr>))
      else (let readable = readableBytes b in
            if kCheapPrepend + readable > length (buf_data b)
               \<or> readerIndex b + readable > length (buf_data b)
            then Inl OutOfBounds
            else Inr (b\<lparr>buf_data := mem_write (buf_data b) kCheapPrepend
                                      (mslice (buf_data b) (readerIndex b) readable),
                        readerIndex := kCheapPrepend,
                        writerIndex := sz_add kCheapPrepend readable\<rparr>)))"

definition ensureWritableBytes :: "size_t \<Rightarrow> buffer \<Rightarrow> buf_error + buffer" where
  "ensureWritableBytes len b = (if writableBytes b < len then makeSpace len b else Inr b)"

definition beginWrite :: "buffer \<Rightarrow> size_t" where
  "beginWrite b = writerIndex b"

text \<open>
  \<open>append(const char*, size_t)\<close>; the overloads for \<open>std::string\<close> and
  \<open>const void*\<close> call it with the same bytes.
\<close>

definition buffer_append :: "string \<Rightarrow> buffer \<Rightarrow> buf_error + buffer" where
  "buffer_append bs b =
     rbind (ensureWritableBytes (length bs) b) (\<lambda>b1.
       if beginWrite b1 + length bs > length (buf_data b1) then Inl OutOfBounds
       else Inr (b1\<lparr>buf_data := mem_write (buf_data b1) (beginWrite b1) bs,
                    writerIndex := sz_add (writerIndex b1) (length bs)\<rparr>))"

definition hasWritten :: "size_t \<Rightarrow> buffer \<Rightarrow> buf_error + buffer" where
  "hasWritten n b =
     (if n \<le> writableBytes b then Inr (b\<lparr>writerIndex := sz_add (writerIndex b) n\<rparr>)
      else Inl AssertionFailed)"

section \<open>Invariant and contents\<close>

definition buffer_ok :: "buffer \<Rightarrow> bool" where
  "buffer_ok b \<longleftrightarrow> kCheapPrepend \<le> readerIndex b \<and> readerIndex b \<le> writerIndex b
     \<and> writerIndex b \<le> length (buf_data b) \<and> length (buf_data b) \<le> vec_max"

definition contents :: "buffer \<Rightarrow> string" where
  "contents b = mslice (buf_data b) (readerIndex b) (writerIndex b - readerIndex b)"

lemma buffer_ok_bounds:
  assumes "buffer_ok b"
  shows "8 \<le> readerIndex b" "readerIndex b \<le> writerIndex b"
    "writerIndex b \<le> length (buf_data b)" "length (buf_data b) \<le> vec_max"
    "length (buf_data b) \<le> sz_max" "writerIndex b \<le> sz_max"
  using assms vec_max_sz by (auto simp: buffer_ok_def kCheapPrepend_def)

lemma readableBytes_ok [simp]:
  "buffer_ok b \<Longrightarrow> readableBytes b = writerIndex b - readerIndex b"
  using buffer_ok_bounds [of b] by (simp add: readableBytes_def sz_simps)

lemma writableBytes_ok [simp]:
  "buffer_ok b \<Longrightarrow> writableBytes b = length (buf_data b) - writerIndex b"
  using buffer_ok_bounds [of b] by (simp add: writableBytes_def sz_simps)

lemma length_contents:
  "buffer_ok b \<Longrightarrow> length (contents b) = writerIndex b - readerIndex b"
  using buffer_ok_bounds [of b] by (simp add: contents_def mem_simps)

lemma readableBytes_contents: "buffer_ok b \<Longrightarrow> readableBytes b = length (contents b)"
  by (simp add: length_contents)

lemma buffer_new_ok:
  assumes "8 + n \<le> vec_max"
  shows "\<exists>b. buffer_new n = Inr b \<and> buffer_ok b \<and> contents b = [] \<and> writableBytes b = n"
proof -
  have "sz_add kCheapPrepend n = 8 + n"
    using assms vec_max_sz by (simp add: kCheapPrepend_def sz_simps)
  with assms show ?thesis
    by (auto simp: buffer_new_def Let_def buffer_ok_def contents_def kCheapPrepend_def mem_simps)
qed

lemma retrieveAll_ok [simp]:
  "buffer_ok b \<Longrightarrow> buffer_ok (retrieveAll b)" "contents (retrieveAll b) = []"
  by (auto simp: buffer_ok_def retrieveAll_def contents_def kCheapPrepend_def mem_simps)

lemma retrieve_ok:
  assumes "buffer_ok b"
  shows "buffer_ok (retrieve n b)" and "contents (retrieve n b) = drop n (contents b)"
proof -
  note bnd = buffer_ok_bounds [OF assms]
  have "buffer_ok (retrieve n b) \<and> contents (retrieve n b) = drop n (contents b)"
  proof (cases "n < readableBytes b")
    case True
    then have n: "n < writerIndex b - readerIndex b" using assms by simp
    have idx: "sz_add (readerIndex b) n = readerIndex b + n"
      by (rule sz_add_le) (use n bnd in linarith)
    have r: "retrieve n b = b\<lparr>readerIndex := readerIndex b + n\<rparr>"
      using True idx by (simp add: retrieve_def)
    have "contents (retrieve n b)
        = mslice (buf_data b) (readerIndex b + n) ((writerIndex b - readerIndex b) - n)"
      using n by (simp add: r contents_def)
    also have "\<dots> = drop n (contents b)"
      unfolding contents_def by (rule mslice_drop) (use n in simp)
    finally show ?thesis using assms n by (simp add: r buffer_ok_def)
  next
    case False
    then show ?thesis
      using assms by (simp add: retrieve_def length_contents)
  qed
  then show "buffer_ok (retrieve n b)" and "contents (retrieve n b) = drop n (contents b)"
    by simp_all
qed

lemma retrieveAsString_ok:
  assumes "buffer_ok b" and "n \<le> length (contents b)"
  shows "retrieveAsString n b = Inr (take n (contents b), retrieve n b)"
proof -
  note bnd = buffer_ok_bounds [OF assms(1)]
  have n: "n \<le> writerIndex b - readerIndex b"
    using assms by (simp add: length_contents)
  then have "mslice (buf_data b) (readerIndex b) n = take n (contents b)"
    unfolding contents_def by (rule take_mslice [symmetric])
  with n bnd show ?thesis by (simp add: retrieveAsString_def peek_def)
qed

section \<open>Making room\<close>

lemma makeSpace_ok:
  assumes ok: "buffer_ok b" and room: "writerIndex b + n \<le> vec_max"
    and short: "writableBytes b < n"
  shows "\<exists>b'. makeSpace n b = Inr b' \<and> buffer_ok b' \<and> contents b' = contents b
           \<and> n \<le> writableBytes b' \<and> writerIndex b' \<le> writerIndex b"
proof -
  note bnd = buffer_ok_bounds [OF ok]
  let ?m = "buf_data b" and ?r = "readerIndex b" and ?w = "writerIndex b"
  have add1: "sz_add (writableBytes b) (prependableBytes b) = length ?m - ?w + ?r"
    using bnd ok by (simp add: prependableBytes_def sz_add_le)
  have add2: "sz_add n kCheapPrepend = n + 8"
    by (simp add: kCheapPrepend_def, rule sz_add_le) (use room vec_max_sz bnd in linarith)
  show ?thesis
  proof (cases "length ?m - ?w + ?r < n + 8")
    case True
    have add3: "sz_add ?w n = ?w + n"
      by (rule sz_add_le) (use room vec_max_sz in linarith)
    have grow: "length ?m \<le> ?w + n" using short ok by simp
    let ?b = "b\<lparr>buf_data := vec_resize (CHR 0x00) (?w + n) ?m\<rparr>"
    have ms: "makeSpace n b = Inr ?b"
      using True room by (simp add: makeSpace_def add1 add2 add3 Let_def)
    have ok': "buffer_ok ?b"
      using ok room by (simp add: buffer_ok_def mem_simps)
    have "contents ?b = contents b"
      using bnd grow by (simp add: contents_def mslice_vec_resize)
    moreover have "n \<le> writableBytes ?b"
      using ok' by (simp add: mem_simps)
    ultimately show ?thesis using ms ok' by auto
  next
    case False
    have len: "length (mslice ?m ?r (?w - ?r)) = ?w - ?r"
      using bnd by (simp add: mem_simps)
    have add3: "sz_add 8 (?w - ?r) = 8 + (?w - ?r)"
      by (rule sz_add_le) (use bnd in linarith)
    let ?b = "b\<lparr>buf_data := mem_write ?m 8 (mslice ?m ?r (?w - ?r)),
                readerIndex := 8, writerIndex := 8 + (?w - ?r)\<rparr>"
    have full: "\<not> sz_add (writableBytes b) (prependableBytes b) < sz_add n kCheapPrepend"
      using False unfolding add1 add2 .
    have inside: "\<not> (length ?m < kCheapPrepend + readableBytes b
        \<or> length ?m < ?r + readableBytes b)"
      using ok bnd by (simp add: kCheapPrepend_def)
    have ms: "makeSpace n b = Inr ?b"
      unfolding makeSpace_def Let_def if_not_P [OF full] if_not_P [OF inside]
      unfolding readableBytes_ok [OF ok] kCheapPrepend_def add3 ..
    have lm: "length (mem_write ?m 8 (mslice ?m ?r (?w - ?r))) = length ?m"
      by (rule length_mem_write) (use bnd len in linarith)
    have ok': "buffer_ok ?b"
      using ok bnd by (auto simp: buffer_ok_def kCheapPrepend_def lm)
    have "contents ?b = contents b"
      using mslice_mem_write_same [of 8 "mslice ?m ?r (?w - ?r)" ?m] bnd
      by (simp add: contents_def len)
    moreover have "n \<le> writableBytes ?b"
      using ok' False bnd by (simp add: lm)
    moreover have "8 + (?w - ?r) \<le> ?w" using bnd by linarith
    ultimately show ?thesis using ms ok' by auto
  qed
qed

lemma ensureWritableBytes_ok:
  assumes "buffer_ok b" and "writerIndex b + n \<le> vec_max"
  shows "\<exists>b'. ensureWritableBytes n b = Inr b' \<and> buffer_ok b' \<and> contents b' = contents b
           \<and> n \<le> writableBytes b' \<and> writerIndex b' \<le> writerIndex b"
proof (cases "writableBytes b < n")
  case True
  then show ?thesis
    using makeSpace_ok [OF assms True] by (simp add: ensureWritableBytes_def)
next
  case False
  then show ?thesis using assms(1) by (auto simp: ensureWritableBytes_def)
qed

text \<open>Bytes placed at \<open>beginWrite\<close> and then declared with \<open>hasWritten\<close> join the contents.\<close>

lemma write_hasWritten_ok:
  assumes ok: "buffer_ok b" and fit: "length bs \<le> writableBytes b"
  shows "\<exists>b'. hasWritten (length bs) (b\<lparr>buf_data := mem_write (buf_data b) (beginWrite b) bs\<rparr>) = Inr b'
           \<and> buffer_ok b' \<and> contents b' = contents b @ bs
           \<and> writerIndex b' = writerIndex b + length bs"
proof -
  note bnd = buffer_ok_bounds [OF ok]
  let ?m = "mem_write (buf_data b) (writerIndex b) bs"
  have fit': "writerIndex b + length bs \<le> length (buf_data b)"
    using fit ok bnd by simp
  then have lm: "length ?m = length (buf_data b)" by (simp add: mem_simps)
  have ok1: "buffer_ok (b\<lparr>buf_data := ?m\<rparr>)"
    using ok by (simp add: buffer_ok_def lm)
  have add: "sz_add (writerIndex b) (length bs) = writerIndex b + length bs"
    by (rule sz_add_le) (use fit' bnd in linarith)
  have hw: "hasWritten (length bs) (b\<lparr>buf_data := ?m\<rparr>)
      = Inr (b\<lparr>buf_data := ?m, writerIndex := writerIndex b + length bs\<rparr>)"
    using ok1 fit' by (simp add: hasWritten_def lm add)
  have "writerIndex b + length bs - readerIndex b
      = writerIndex b - readerIndex b + length bs"
    using bnd by simp
  then have "contents (b\<lparr>buf_data := ?m, writerIndex := writerIndex b + length bs\<rparr>)
      = contents b @ bs"
    using mslice_mem_write_extend [of "readerIndex b" "writerIndex b" bs "buf_data b"] bnd fit'
    by (simp add: contents_def)
  moreover have "buffer_ok (b\<lparr>buf_data := ?m, writerIndex := writerIndex b + length bs\<rparr>)"
    using ok fit' by (simp add: buffer_ok_def lm)
  ultimately show ?thesis using hw by (simp add: beginWrite_def)
qed

lemma buffer_append_ok:
  assumes ok: "buffer_ok b" and room: "writerIndex b + length bs \<le> vec_max"
  shows "\<exists>b'. buffer_append bs b = Inr b' \<and> buffer_ok b' \<and> contents b' = contents b @ bs
           \<and> writerIndex b' \<le> writerIndex b + length bs"
proof -
  obtain b1 where b1: "ensureWritableBytes (length bs) b = Inr b1" "buffer_ok b1"
      "contents b1 = contents b" "length bs \<le> writableBytes b1" "writerIndex b1 \<le> writerIndex b"
    using ensureWritableBytes_ok [OF ok room] by blast
  obtain b2 where b2: "hasWritten (length bs)
      (b1\<lparr>buf_data := mem_write (buf_data b1) (beginWrite b1) bs\<rparr>) = Inr b2"
      "buffer_ok b2" "contents b2 = contents b1 @ bs" "writerIndex b2 = writerIndex b1 + length bs"
    using write_hasWritten_ok [OF b1(2,4)] by blast
  have fit: "beginWrite b1 + length bs \<le> length (buf_data b1)"
    using b1(2,4) buffer_ok_bounds [OF b1(2)] by (simp add: beginWrite_def)
  have "buffer_append bs b = Inr b2"
    using b1(1) b2(1) fit by (auto simp: buffer_append_def hasWritten_def split: if_splits)
  with b1 b2 show ?thesis by simp
qed

lemma retrieveAllAsString_eq:
  assumes "buffer_ok b"
  shows "retrieveAllAsString b = Inr (contents b, retrieveAll b)"
proof -
  have n: "readableBytes b = length (contents b)"
    using assms by (rule readableBytes_contents)
  then have "retrieve (readableBytes b) b = retrieveAll b"
    by (simp add: retrieve_def)
  then show ?thesis
    using retrieveAsString_ok [OF assms, of "length (contents b)"] n
    by (simp add: retrieveAllAsString_def)
qed

lemma retrieveAllAsString_ok:
  assumes "buffer_ok b"
  shows "\<exists>b'. retrieveAllAsString b = Inr (contents b, b') \<and> buffer_ok b' \<and> contents b' = []
           \<and> writerIndex b' \<le> writerIndex b"
proof -
  have "writerIndex (retrieveAll b) \<le> writerIndex b"
    using buffer_ok_bounds [OF assms] by (simp add: retrieveAll_def kCheapPrepend_def)
  then show ?thesis using retrieveAllAsString_eq [OF assms] assms by simp
qed

section \<open>The byte queue interface\<close>

text \<open>
  What the connection code relies on: bytes put in come out in the same order, and
  draining returns all of them.  \<open>room b n\<close> says that \<open>n\<close> more bytes fit.
\<close>

locale byte_fifo =
  fixes inv :: "'b \<Rightarrow> bool"
    and content :: "'b \<Rightarrow> char list"
    and room :: "'b \<Rightarrow> nat \<Rightarrow> bool"
    and put :: "char list \<Rightarrow> 'b \<Rightarrow> 'e + 'b"
    and drain :: "'b \<Rightarrow> 'e + (char list \<times> 'b)"
  assumes put_law: "inv b \<Longrightarrow> room b (length bs + k) \<Longrightarrow>
      \<exists>b'. put bs b = Inr b' \<and> inv b' \<and> content b' = content b @ bs \<and> room b' k"
    and drain_law: "inv b \<Longrightarrow> \<exists>b'. drain b = Inr (content b, b') \<and> inv b' \<and> content b' = []"
begin

fun puts :: "char list list \<Rightarrow> 'b \<Rightarrow> 'e + 'b" where
  "puts [] b = Inr b"
| "puts (bs # bss) b = rbind (put bs b) (puts bss)"

lemma puts_law:
  "inv b \<Longrightarrow> room b (length (concat bss) + k) \<Longrightarrow>
     \<exists>b'. puts bss b = Inr b' \<and> inv b' \<and> content b' = content b @ concat bss \<and> room b' k"
proof (induction bss arbitrary: b)
  case Nil
  then show ?case by auto
next
  case (Cons bs bss)
  from Cons.prems have "room b (length bs + (length (concat bss) + k))"
    by (simp add: add.assoc)
  from put_law [OF Cons.prems(1) this] obtain b1 where
    "put bs b = Inr b1" "inv b1" "content b1 = content b @ bs" "room b1 (length (concat bss) + k)"
    by blast
  with Cons.IH [of b1] show ?case by auto
qed

lemma puts_drain:
  assumes "inv b" and "content b = []" and "room b (length (concat bss))"
  shows "\<exists>b'. rbind (puts bss b) drain = Inr (concat bss, b') \<and> inv b' \<and> content b' = []"
proof -
  from puts_law [of b bss 0] assms obtain b1 where
    "puts bss b = Inr b1" "inv b1" "content b1 = concat bss" by auto
  with drain_law [of b1] show ?thesis by auto
qed

end

definition buffer_room :: "buffer \<Rightarrow> nat \<Rightarrow> bool" where
  "buffer_room b n \<longleftrightarrow> writerIndex b + n \<le> vec_max"

interpretation bfifo: byte_fifo buffer_ok contents buffer_room buffer_append retrieveAllAsString
proof unfold_locales
  fix b :: buffer and bs :: string and k :: nat
  assume ok: "buffer_ok b" and "buffer_room b (length bs + k)"
  then have room: "writerIndex b + length bs + k \<le> vec_max"
    by (simp add: buffer_room_def)
  then have "writerIndex b + length bs \<le> vec_max" by simp
  from buffer_append_ok [OF ok this] obtain b' where
    b': "buffer_append bs b = Inr b'" "buffer_ok b'" "contents b' = contents b @ bs"
      "writerIndex b' \<le> writerIndex b + length bs"
    by blast
  moreover from room b'(4) have "buffer_room b' k"
    by (simp add: buffer_room_def)
  ultimately show "\<exists>b'. buffer_append bs b = Inr b' \<and> buffer_ok b'
      \<and> contents b' = contents b @ bs \<and> buffer_room b' k"
    by blast
next
  fix b :: buffer
  assume "buffer_ok b"
  then show "\<exists>b'. retrieveAllAsString b = Inr (contents b, b') \<and> buffer_ok b' \<and> contents b' = []"
    using retrieveAllAsString_ok by blast
qed

section \<open>Sequences of operations refine a queue of bytes\<close>

datatype buf_op = OpAppend string | OpEnsure nat | OpRetrieve nat

text \<open>The operations on the buffer, in the order the caller issues them.\<close>

fun run_buf_op :: "buf_op \<Rightarrow> buffer \<Rightarrow> buf_error + (string \<times> buffer)" where
  "run_buf_op (OpAppend bs) b = rbind (buffer_append bs b) (\<lambda>b'. Inr ([], b'))"
| "run_buf_op (OpEnsure n) b = rbind (ensureWritableBytes n b) (\<lambda>b'. Inr ([], b'))"
| "run_buf_op (OpRetrieve n) b = retrieveAsString n b"

fun run_buf_ops :: "buf_op list \<Rightarrow> buffer \<Rightarrow> buf_error + (string list \<times> buffer)" where
  "run_buf_ops [] b = Inr ([], b)"
| "run_buf_ops (p # ps) b =
     rbind (run_buf_op p b) (\<lambda>(s, b1). rbind (run_buf_ops ps b1) (\<lambda>(ss, b2). Inr (s # ss, b2)))"

text \<open>The specification: a queue is a list of bytes.\<close>

fun spec_buf_op :: "buf_op \<Rightarrow> string \<Rightarrow> string \<times> string" where
  "spec_buf_op (OpAppend bs) q = ([], q @ bs)"
| "spec_buf_op (OpEnsure n) q = ([], q)"
| "spec_buf_op (OpRetrieve n) q = (take n q, drop n q)"

fun spec_buf_ops :: "buf_op list \<Rightarrow> string \<Rightarrow> string list \<times> string" where
  "spec_buf_ops [] q = ([], q)"
| "spec_buf_ops (p # ps) q =
     (let (s, q1) = spec_buf_op p q; (ss, q2) = spec_buf_ops ps q1 in (s # ss, q2))"

fun buf_op_size :: "buf_op \<Rightarrow> nat" where
  "buf_op_size (OpAppend bs) = length bs"
| "buf_op_size (OpEnsure n) = n"
| "buf_op_size (OpRetrieve n) = 0"

text \<open>A caller may only retrieve bytes that are readable.\<close>

fun buf_op_valid :: "buf_op \<Rightarrow> string \<Rightarrow> bool" where
  "buf_op_valid (OpRetrieve n) q \<longleftrightarrow> n \<le> length q"
| "buf_op_valid _ q \<longleftrightarrow> True"

fun buf_ops_valid :: "buf_op list \<Rightarrow> string \<Rightarrow> bool" where
  "buf_ops_valid [] q \<longleftrightarrow> True"
| "buf_ops_valid (p # ps) q \<longleftrightarrow> buf_op_valid p q \<and> buf_ops_valid ps (snd (spec_buf_op p q))"

lemma retrieve_writerIndex_le:
  "buffer_ok b \<Longrightarrow> writerIndex (retrieve n b) \<le> writerIndex b"
  using buffer_ok_bounds [of b] by (simp add: retrieve_def retrieveAll_def kCheapPrepend_def)

lemma run_buf_op_refines:
  assumes "buffer_ok b" and "buf_op_valid p (contents b)"
    and "writerIndex b + buf_op_size p \<le> vec_max"
  shows "\<exists>s b'. run_buf_op p b = Inr (s, b') \<and> buffer_ok b'
           \<and> spec_buf_op p (contents b) = (s, contents b')
           \<and> writerIndex b' \<le> writerIndex b + buf_op_size p"
proof (cases p)
  case (OpAppend bs)
  with buffer_append_ok [OF assms(1), of bs] assms(3) show ?thesis by auto
next
  case (OpEnsure n)
  with ensureWritableBytes_ok [OF assms(1), of n] assms(3) show ?thesis by auto
next
  case (OpRetrieve n)
  with assms show ?thesis
    using retrieveAsString_ok [OF assms(1), of n] retrieve_ok [OF assms(1), of n]
      retrieve_writerIndex_le [OF assms(1), of n] by auto
qed

text \<open>
  C12: any sequence of appends, reservations and retrievals on a well-formed
  \<open>Buffer\<close> returns without error the strings that a plain queue of bytes returns, and the
  buffer then holds the bytes of that queue; retrievals ask for readable bytes only and
  all appended and reserved bytes together fit a vector.
\<close>

theorem buffer_refines_byte_queue:
  assumes "buffer_ok b" and "buf_ops_valid ps (contents b)"
    and "writerIndex b + sum_list (map buf_op_size ps) \<le> vec_max"
  shows "\<exists>ss b'. run_buf_ops ps b = Inr (ss, b') \<and> buffer_ok b'
           \<and> spec_buf_ops ps (contents b) = (ss, contents b')"
  using assms
proof (induction ps arbitrary: b)
  case Nil
  then show ?case by simp
next
  case (Cons p ps)
  have v: "buf_op_valid p (contents b)" and sz: "writerIndex b + buf_op_size p \<le> vec_max"
    using Cons.prems by simp_all
  from run_buf_op_refines [OF Cons.prems(1) v sz] obtain s b1 where
    b1: "run_buf_op p b = Inr (s, b1)" "buffer_ok b1" "spec_buf_op p (contents b) = (s, contents b1)"
      "writerIndex b1 \<le> writerIndex b + buf_op_size p" by blast
  have "\<exists>ss b'. run_buf_ops ps b1 = Inr (ss, b') \<and> buffer_ok b'
           \<and> spec_buf_ops ps (contents b1) = (ss, contents b')"
    by (rule Cons.IH) (use Cons.prems b1 in simp_all)
  with b1 show ?case by auto
qed

definition demo_buffer :: buffer where
  "demo_buffer = \<lparr>buf_data = replicate 12 (CHR 0x00), readerIndex = 8, writerIndex = 8\<rparr>"

lemma demo_buffer_ok: "buffer_ok demo_buffer \<and> contents demo_buffer = []"
  by (simp add: demo_buffer_def buffer_ok_def kCheapPrepend_def contents_def mslice_def vec_max_def)

theorem buffer_refines_byte_queue_witness:
  "\<exists>b'. run_buf_ops [OpAppend ''abcdef'', OpRetrieve 4, OpEnsure 3, OpAppend ''gh'', OpRetrieve 4]
           demo_buffer = Inr ([[], ''abcd'', [], [], ''efgh''], b') \<and> buffer_ok b' \<and> contents b' = []"
  using buffer_refines_byte_queue
    [of demo_buffer "[OpAppend ''abcdef'', OpRetrieve 4, OpEnsure 3, OpAppend ''gh'', OpRetrieve 4]"]
    demo_buffer_ok
  by (auto simp: demo_buffer_def vec_max_def)

text \<open>
  \<open>ensureWritableBytes(len)\<close> leaves room for \<open>len\<close> bytes, does not
  change the readable bytes, and keeps the invariant, whenever the bytes in front of the
  writer and the request fit a vector.
\<close>

theorem ensureWritableBytes_gives_room:
  assumes "buffer_ok b" and "writerIndex b + len \<le> vec_max"
  shows "\<exists>b'. ensureWritableBytes len b = Inr b' \<and> buffer_ok b' \<and> contents b' = contents b
           \<and> len \<le> writableBytes b'"
  using ensureWritableBytes_ok [OF assms] by blast

theorem ensureWritableBytes_gives_room_witness:
  "\<exists>b'. ensureWritableBytes 4096 demo_buffer = Inr b' \<and> buffer_ok b' \<and> contents b' = []
      \<and> 4096 \<le> writableBytes b'"
  using ensureWritableBytes_gives_room [of demo_buffer 4096] demo_buffer_ok
  by (simp add: demo_buffer_def vec_max_def)

text \<open>
  For a request within 8 of the largest \<open>size_t\<close>, the sum
  \<open>len + kCheapPrepend\<close> in \<open>makeSpace\<close> wraps around; the request then returns
  normally and leaves fewer writable bytes than were asked for.
\<close>

theorem ensureWritableBytes_wraps:
  assumes ok: "buffer_ok b" and "2 ^ 64 - 8 \<le> len" and "len \<le> sz_max"
  shows "\<exists>b'. ensureWritableBytes len b = Inr b' \<and> writableBytes b' < len"
proof -
  note bnd = buffer_ok_bounds [OF ok]
  define k where "k = len - (2 ^ 64 - 8)"
  have k: "len + 8 = k + 2 ^ 64" "k < 8"
    using assms(2,3) by (simp_all add: k_def sz_max_def)
  have "sz_add len kCheapPrepend < 8"
    unfolding sz_add_def kCheapPrepend_def k(1) using k(2) by simp
  moreover have "sz_add (writableBytes b) (prependableBytes b) \<ge> 8"
    using ok bnd by (simp add: prependableBytes_def sz_add_le)
  ultimately have full: "\<not> sz_add (writableBytes b) (prependableBytes b) < sz_add len kCheapPrepend"
    by linarith
  have inside: "\<not> (length (buf_data b) < kCheapPrepend + readableBytes b
      \<or> length (buf_data b) < readerIndex b + readableBytes b)"
    using ok bnd by (simp add: kCheapPrepend_def)
  obtain b' where b': "makeSpace len b = Inr b'"
      "length (buf_data b') = length (buf_data b)" "writerIndex b' \<le> length (buf_data b)"
  proof
    let ?b = "b\<lparr>buf_data := mem_write (buf_data b) kCheapPrepend
                (mslice (buf_data b) (readerIndex b) (readableBytes b)),
              readerIndex := kCheapPrepend,
              writerIndex := sz_add kCheapPrepend (readableBytes b)\<rparr>"
    show "makeSpace len b = Inr ?b"
      unfolding makeSpace_def Let_def if_not_P [OF full] if_not_P [OF inside] ..
    show "length (buf_data ?b) = length (buf_data b)"
      using inside by (simp, intro length_mem_write) (auto simp: length_mslice min_def)
    show "writerIndex ?b \<le> length (buf_data b)"
      using inside ok bnd by (simp add: kCheapPrepend_def sz_add_le)
  qed
  have "writableBytes b' \<le> length (buf_data b)"
    using b' bnd by (simp add: writableBytes_def sz_sub_le)
  also have "\<dots> < len" using bnd(4) assms(2) by (simp add: vec_max_def)
  finally have "writableBytes b' < len" .
  moreover have "ensureWritableBytes len b = Inr b'"
    using b'(1) ok bnd assms(2) by (simp add: ensureWritableBytes_def vec_max_def)
  ultimately show ?thesis by blast
qed

theorem ensureWritableBytes_wraps_witness:
  "\<exists>b'. ensureWritableBytes sz_max demo_buffer = Inr b' \<and> writableBytes b' < sz_max"
  using ensureWritableBytes_wraps [of demo_buffer sz_max] demo_buffer_ok
  by (simp add: sz_max_def)

end
