(* ===== verification/Circular_Buffer.thy ===== *)
theory Circular_Buffer
  imports Coro_Prelude
begin

text \<open>
  \<open>util::CircularBuffer<T>\<close> of \<open>src/util/circular_buffer.h\<close>: a vector used as a
  ring in which \<open>push_back\<close> overwrites the oldest element once the ring is full, with
  its forward iterator.  A null iterator, an index outside the vector and a remainder by
  zero (capacity 0) are errors.  The section on the ring interface states what the timing
  wheel relies on as a locale.
\<close>

section \<open>State and operations\<close>

datatype circ_error = UnderflowError | BadIndex | DivByZero | NullDeref | CircLengthError

record 'a circ =
  cbuf :: "'a list"
  capacity :: size_t
  csize :: size_t
  head :: size_t
  tail :: size_t

text \<open>
  The constructor; \<open>z\<close> is the default-constructed element and \<open>max_size\<close> the
  largest vector of this element type.
\<close>

definition circ_new :: "'a \<Rightarrow> size_t \<Rightarrow> size_t \<Rightarrow> circ_error + 'a circ" where
  "circ_new z max_size cap =
     (if cap > max_size then Inl CircLengthError
      else Inr \<lparr>cbuf = replicate cap z, capacity = cap, csize = 0, head = 0, tail = 0\<rparr>)"

definition circ_next :: "'a circ \<Rightarrow> size_t \<Rightarrow> circ_error + size_t" where
  "circ_next c index = (if capacity c = 0 then Inl DivByZero else Inr (sz_add index 1 mod capacity c))"

definition circ_prev :: "'a circ \<Rightarrow> size_t \<Rightarrow> circ_error + size_t" where
  "circ_prev c index =
     (if capacity c = 0 then Inl DivByZero
      else Inr (sz_add (sz_sub index 1) (capacity c) mod capacity c))"

definition circ_empty :: "'a circ \<Rightarrow> bool" where
  "circ_empty c \<longleftrightarrow> csize c = 0"

definition push_back :: "'a \<Rightarrow> 'a circ \<Rightarrow> circ_error + 'a circ" where
  "push_back item c =
     (if csize c = capacity c
      then if tail c < length (cbuf c)
           then rbind (circ_next c (tail c)) (\<lambda>t.
             Inr (c\<lparr>cbuf := (cbuf c)[tail c := item], tail := t, head := t\<rparr>))
           else Inl BadIndex
      else if tail c < length (cbuf c)
           then rbind (circ_next c (tail c)) (\<lambda>t.
             Inr (c\<lparr>cbuf := (cbuf c)[tail c := item], tail := t, csize := sz_add (csize c) 1\<rparr>))
           else Inl BadIndex)"

text \<open>\<open>back()\<close> returns a reference: its index, through which callers read or update.\<close>

definition back_index :: "'a circ \<Rightarrow> circ_error + size_t" where
  "back_index c =
     (if circ_empty c then Inl UnderflowError
      else rbind (circ_prev c (tail c)) (\<lambda>i. if i < length (cbuf c) then Inr i else Inl BadIndex))"

definition circ_back :: "'a circ \<Rightarrow> circ_error + 'a" where
  "circ_back c = rbind (back_index c) (\<lambda>i. Inr (cbuf c ! i))"

definition update_back :: "('a \<Rightarrow> 'a) \<Rightarrow> 'a circ \<Rightarrow> circ_error + 'a circ" where
  "update_back f c = rbind (back_index c) (\<lambda>i. Inr (c\<lparr>cbuf := (cbuf c)[i := f (cbuf c ! i)]\<rparr>))"

text \<open>Iterators: \<open>None\<close> is the end iterator (null buffer, position 0).\<close>

type_synonym circ_iter = "size_t option"

definition iter_begin :: "'a circ \<Rightarrow> circ_iter" where
  "iter_begin c = (if circ_empty c then None else Some (head c))"

definition iter_deref :: "'a circ \<Rightarrow> circ_iter \<Rightarrow> circ_error + 'a" where
  "iter_deref c it =
     (case it of None \<Rightarrow> Inl NullDeref
      | Some p \<Rightarrow> if p < length (cbuf c) then Inr (cbuf c ! p) else Inl BadIndex)"

definition iter_incr :: "'a circ \<Rightarrow> circ_iter \<Rightarrow> circ_error + circ_iter" where
  "iter_incr c it =
     (case it of None \<Rightarrow> Inl NullDeref
      | Some p \<Rightarrow> rbind (circ_next c p) (\<lambda>p'.
          Inr (if p' = tail c \<or> circ_empty c then None else Some p')))"

text \<open>A range-for loop over the ring, with fuel: \<open>None\<close> when it has not ended in time.\<close>

fun circ_walk :: "nat \<Rightarrow> 'a circ \<Rightarrow> circ_iter \<Rightarrow> (circ_error + 'a list) option" where
  "circ_walk 0 c it = (if it = None then Some (Inr []) else None)"
| "circ_walk (Suc fuel) c it =
     (if it = None then Some (Inr [])
      else case iter_deref c it of Inl e \<Rightarrow> Some (Inl e)
      | Inr x \<Rightarrow> (case iter_incr c it of Inl e \<Rightarrow> Some (Inl e)
         | Inr it' \<Rightarrow> map_option (\<lambda>r. rbind r (\<lambda>xs. Inr (x # xs))) (circ_walk fuel c it')))"

section \<open>Invariant and contents, oldest first\<close>

definition circ_ok :: "'a circ \<Rightarrow> bool" where
  "circ_ok c \<longleftrightarrow> 0 < capacity c \<and> capacity c \<le> vec_max \<and> length (cbuf c) = capacity c
     \<and> csize c \<le> capacity c \<and> head c < capacity c \<and> tail c = (head c + csize c) mod capacity c"

definition circ_list :: "'a circ \<Rightarrow> 'a list" where
  "circ_list c = map (\<lambda>k. cbuf c ! ((head c + k) mod capacity c)) [0..<csize c]"

lemma length_circ_list [simp]: "length (circ_list c) = csize c"
  by (simp add: circ_list_def)

lemma nth_circ_list:
  "k < csize c \<Longrightarrow> circ_list c ! k = cbuf c ! ((head c + k) mod capacity c)"
  by (simp add: circ_list_def)

lemma ring_mod: "(h::nat) < n \<Longrightarrow> j \<le> n \<Longrightarrow> (h + j) mod n = (if h + j < n then h + j else h + j - n)"
  by (simp add: mod_if)

lemma ring_inj:
  "(h::nat) < n \<Longrightarrow> j < n \<Longrightarrow> k < n \<Longrightarrow> (h + j) mod n = (h + k) mod n \<longleftrightarrow> j = k"
  by (auto simp: ring_mod split: if_splits)

lemma circ_ok_tail: "circ_ok c \<Longrightarrow> tail c < capacity c"
  by (simp add: circ_ok_def)

lemma circ_next_ok:
  assumes "circ_ok c" and "i < capacity c"
  shows "circ_next c i = Inr (Suc i mod capacity c)"
proof -
  have "i + 1 \<le> sz_max" using assms vec_max_sz by (simp add: circ_ok_def)
  then show ?thesis using assms by (simp add: circ_next_def sz_add_le circ_ok_def)
qed

lemma circ_prev_ok:
  assumes "circ_ok c" and "i < capacity c"
  shows "circ_prev c i = Inr ((i + capacity c - 1) mod capacity c)"
proof -
  have cap: "0 < capacity c" "capacity c \<le> vec_max" using assms by (simp_all add: circ_ok_def)
  have "sz_add (sz_sub i 1) (capacity c) = i + capacity c - 1"
  proof (cases "i = 0")
    case True
    have "sz_sub 0 1 = 2 ^ 64 - 1" by (simp add: sz_sub_def)
    then have "sz_add (sz_sub i 1) (capacity c) = (capacity c - 1 + 2 ^ 64) mod 2 ^ 64"
      using cap True by (simp add: sz_add_def)
    also have "\<dots> = (capacity c - 1) mod 2 ^ 64" by (rule mod_add_self2)
    also have "\<dots> = capacity c - 1" using cap(2) by (simp add: vec_max_def)
    finally show ?thesis using True by simp
  next
    case False
    then show ?thesis using assms cap vec_max_sz by (simp add: sz_sub_le sz_add_le)
  qed
  then show ?thesis using cap by (simp add: circ_prev_def)
qed

lemma circ_new_ok:
  "0 < cap \<Longrightarrow> cap \<le> vec_max \<Longrightarrow> cap \<le> m \<Longrightarrow>
     \<exists>c. circ_new z m cap = Inr c \<and> circ_ok c \<and> circ_list c = [] \<and> capacity c = cap"
  by (auto simp: circ_new_def circ_ok_def circ_list_def)

lemma push_back_full:
  assumes ok: "circ_ok c" and full: "csize c = capacity c"
  shows "\<exists>c'. push_back x c = Inr c' \<and> circ_ok c' \<and> circ_list c' = tl (circ_list c) @ [x]
           \<and> capacity c' = capacity c"
proof -
  let ?n = "capacity c"
  have n: "0 < ?n" "head c < ?n" "length (cbuf c) = ?n" using ok by (simp_all add: circ_ok_def)
  have t: "tail c = head c" using ok full by (simp add: circ_ok_def)
  let ?c = "c\<lparr>cbuf := (cbuf c)[tail c := x], tail := Suc (tail c) mod ?n, head := Suc (tail c) mod ?n\<rparr>"
  have pb: "push_back x c = Inr ?c"
    using full n t by (simp add: push_back_def circ_next_ok [OF ok])
  have ok': "circ_ok ?c" using ok full by (simp add: circ_ok_def)
  have "circ_list ?c = tl (circ_list c) @ [x]"
  proof (rule nth_equalityI)
    show "length (circ_list ?c) = length (tl (circ_list c) @ [x])" using full n by simp
    fix k assume k: "k < length (circ_list ?c)"
    then have kn: "k < ?n" using full by simp
    have idx: "(Suc (tail c) mod ?n + k) mod ?n = (head c + Suc k) mod ?n"
      by (simp add: t mod_add_left_eq)
    show "circ_list ?c ! k = (tl (circ_list c) @ [x]) ! k"
    proof (cases "Suc k = ?n")
      case True
      then have "\<not> k < ?n - 1" and "k - (?n - 1) = 0" by simp_all
      then show ?thesis using k n idx full True by (simp add: nth_circ_list nth_append t)
    next
      case False
      then have "(head c + Suc k) mod ?n \<noteq> head c"
        using ring_inj [OF n(2), of "Suc k" 0] kn n by simp
      moreover have "k < ?n - 1" using kn False by simp
      ultimately show ?thesis using k n idx full
        by (simp add: nth_circ_list nth_append nth_tl t)
    qed
  qed
  with pb ok' show ?thesis by simp
qed

lemma push_back_room:
  assumes ok: "circ_ok c" and room: "csize c < capacity c"
  shows "\<exists>c'. push_back x c = Inr c' \<and> circ_ok c' \<and> circ_list c' = circ_list c @ [x]
           \<and> capacity c' = capacity c"
proof -
  let ?n = "capacity c"
  have n: "0 < ?n" "head c < ?n" "length (cbuf c) = ?n" "tail c < ?n"
    "tail c = (head c + csize c) mod ?n" "?n \<le> vec_max"
    using ok by (simp_all add: circ_ok_def)
  let ?c = "c\<lparr>cbuf := (cbuf c)[tail c := x], tail := Suc (tail c) mod ?n, csize := Suc (csize c)\<rparr>"
  have "sz_add (csize c) 1 = Suc (csize c)"
    using room n(6) vec_max_sz by (simp add: sz_add_le)
  then have pb: "push_back x c = Inr ?c"
    using room n by (simp add: push_back_def circ_next_ok [OF ok])
  have ok': "circ_ok ?c" using ok room by (simp add: circ_ok_def mod_Suc_eq)
  have "circ_list ?c = circ_list c @ [x]"
  proof (rule nth_equalityI)
    show "length (circ_list ?c) = length (circ_list c @ [x])" by simp
    fix k assume k: "k < length (circ_list ?c)"
    show "circ_list ?c ! k = (circ_list c @ [x]) ! k"
    proof (cases "k = csize c")
      case True
      then show ?thesis using n by (simp add: nth_circ_list nth_append)
    next
      case False
      then have "(head c + k) mod ?n \<noteq> tail c"
        using ring_inj [OF n(2), of k "csize c"] k room n by simp
      then show ?thesis using k False by (simp add: nth_circ_list nth_append)
    qed
  qed
  with pb ok' show ?thesis by simp
qed

lemma back_index_ok:
  assumes ok: "circ_ok c" and ne: "csize c \<noteq> 0"
  shows "back_index c = Inr ((head c + (csize c - 1)) mod capacity c)"
proof -
  let ?n = "capacity c"
  have n: "0 < ?n" "csize c \<le> ?n" "length (cbuf c) = ?n" "tail c < ?n"
    "tail c = (head c + csize c) mod ?n"
    using ok by (simp_all add: circ_ok_def)
  have "(tail c + ?n - 1) mod ?n = (tail c + (?n - 1)) mod ?n" using n(1) by simp
  also have "\<dots> = (head c + csize c + (?n - 1)) mod ?n" by (simp add: n(5) mod_add_left_eq)
  also have "head c + csize c + (?n - 1) = head c + (csize c - 1) + ?n" using ne n(1) by simp
  finally have "(tail c + ?n - 1) mod ?n = (head c + (csize c - 1)) mod ?n" by simp
  then show ?thesis
    using ne n by (simp add: back_index_def circ_empty_def circ_prev_ok [OF ok])
qed

lemma circ_back_ok:
  "circ_ok c \<Longrightarrow> circ_list c \<noteq> [] \<Longrightarrow> circ_back c = Inr (last (circ_list c))"
  by (simp add: circ_back_def back_index_ok last_conv_nth nth_circ_list flip: length_0_conv)

lemma update_back_ok:
  assumes ok: "circ_ok c" and ne: "circ_list c \<noteq> []"
  shows "\<exists>c'. update_back f c = Inr c' \<and> circ_ok c' \<and> capacity c' = capacity c
           \<and> circ_list c' = butlast (circ_list c) @ [f (last (circ_list c))]"
proof -
  let ?n = "capacity c" and ?i = "(head c + (csize c - 1)) mod capacity c"
  have s: "csize c \<noteq> 0" "csize c - 1 < csize c" using ne by (auto simp flip: length_0_conv)
  have n: "0 < ?n" "head c < ?n" "length (cbuf c) = ?n" "csize c \<le> ?n"
    using ok by (simp_all add: circ_ok_def)
  let ?c = "c\<lparr>cbuf := (cbuf c)[?i := f (cbuf c ! ?i)]\<rparr>"
  have ub: "update_back f c = Inr ?c"
    by (simp add: update_back_def back_index_ok [OF ok s(1)])
  have ok': "circ_ok ?c" using ok by (simp add: circ_ok_def)
  have "circ_list ?c = butlast (circ_list c) @ [f (last (circ_list c))]"
  proof (rule nth_equalityI)
    show "length (circ_list ?c) = length (butlast (circ_list c) @ [f (last (circ_list c))])"
      using s by simp
    fix k assume k: "k < length (circ_list ?c)"
    show "circ_list ?c ! k = (butlast (circ_list c) @ [f (last (circ_list c))]) ! k"
    proof (cases "k = csize c - 1")
      case True
      then show ?thesis using ne s n
        by (simp add: nth_circ_list nth_append last_conv_nth)
    next
      case False
      then have "(head c + k) mod ?n \<noteq> ?i"
        using ring_inj [OF n(2), of k "csize c - 1"] k s n by simp
      moreover have "k < csize c - 1" using k False by simp
      ultimately show ?thesis using k by (simp add: nth_circ_list nth_append nth_butlast)
    qed
  qed
  with ub ok' show ?thesis by auto
qed

text \<open>In a full ring every cell is part of the contents, and the oldest one is at \<open>tail\<close>.\<close>

lemma full_hd: "circ_ok c \<Longrightarrow> csize c = capacity c \<Longrightarrow> hd (circ_list c) = cbuf c ! tail c"
  by (simp add: circ_ok_def circ_list_def hd_map)

lemma full_set:
  assumes ok: "circ_ok c" and full: "csize c = capacity c"
  shows "set (circ_list c) = set (cbuf c)"
proof
  let ?n = "capacity c"
  have n: "0 < ?n" "head c < ?n" "length (cbuf c) = ?n" using ok by (simp_all add: circ_ok_def)
  then show "set (circ_list c) \<subseteq> set (cbuf c)" by (auto simp: circ_list_def)
  show "set (cbuf c) \<subseteq> set (circ_list c)"
  proof
    fix x assume "x \<in> set (cbuf c)"
    then obtain i where i: "i < ?n" "x = cbuf c ! i" using n by (auto simp: in_set_conv_nth)
    define k where "k = (if head c \<le> i then i - head c else i + ?n - head c)"
    have "k < ?n" and "(head c + k) mod ?n = i" using i n by (auto simp: k_def)
    then show "x \<in> set (circ_list c)" using i full by (auto simp: circ_list_def)
  qed
qed

section \<open>The iterator visits the contents\<close>

lemma circ_walk_from:
  assumes ok: "circ_ok c"
  shows "k < csize c \<Longrightarrow> csize c - k \<le> fuel \<Longrightarrow>
     circ_walk fuel c (Some ((head c + k) mod capacity c)) = Some (Inr (drop k (circ_list c)))"
proof (induction fuel arbitrary: k)
  case 0
  then show ?case by simp
next
  case (Suc fuel)
  let ?n = "capacity c" and ?p = "(head c + k) mod capacity c"
  have n: "0 < ?n" "head c < ?n" "length (cbuf c) = ?n" "csize c \<le> ?n"
    "tail c = (head c + csize c) mod ?n" using ok by (simp_all add: circ_ok_def)
  have p: "?p < ?n" using n by simp
  have nx: "circ_next c ?p = Inr ((head c + Suc k) mod ?n)"
    using circ_next_ok [OF ok p] by (simp add: mod_Suc_eq)
  have ne: "\<not> circ_empty c" using Suc.prems by (simp add: circ_empty_def)
  have hd: "drop k (circ_list c) = cbuf c ! ?p # drop (Suc k) (circ_list c)"
    using Suc.prems by (simp add: Cons_nth_drop_Suc [symmetric] nth_circ_list)
  show ?case
  proof (cases "Suc k = csize c")
    case True
    then have "iter_incr c (Some ?p) = Inr None" using nx n by (simp add: iter_incr_def)
    with True hd p n show ?thesis by (cases fuel) (simp_all add: iter_deref_def)
  next
    case False
    then have "(head c + Suc k) mod ?n \<noteq> tail c"
    proof (cases "csize c = ?n")
      case full: True
      have "(head c + Suc k) mod ?n \<noteq> (head c + 0) mod ?n"
        using ring_inj [OF n(2), of "Suc k" 0] False Suc.prems full n(1) by simp
      then show ?thesis using full n by simp
    next
      case part: False
      then show ?thesis
        using ring_inj [OF n(2), of "Suc k" "csize c"] False Suc.prems n(4,5) by simp
    qed
    then have "iter_incr c (Some ?p) = Inr (Some ((head c + Suc k) mod ?n))"
      using nx ne by (simp add: iter_incr_def)
    moreover have "circ_walk fuel c (Some ((head c + Suc k) mod ?n)) = Some (Inr (drop (Suc k) (circ_list c)))"
      by (rule Suc.IH) (use Suc.prems False in simp_all)
    ultimately show ?thesis using hd p n by (simp add: iter_deref_def)
  qed
qed

text \<open>
  Iterating from \<open>begin()\<close> to \<open>end()\<close> ends after \<open>size()\<close> steps and
  visits exactly the stored elements, oldest first, also when the ring is full and
  \<open>head == tail\<close>.
\<close>

theorem circ_iteration:
  assumes "circ_ok c"
  shows "circ_walk (csize c) c (iter_begin c) = Some (Inr (circ_list c))"
proof (cases "csize c = 0")
  case True
  then show ?thesis by (simp add: iter_begin_def circ_empty_def circ_list_def)
next
  case False
  have "head c mod capacity c = head c" using assms by (simp add: circ_ok_def)
  with circ_walk_from [OF assms, of 0 "csize c"] False show ?thesis
    by (simp add: iter_begin_def circ_empty_def)
qed

definition demo_ring :: "nat circ" where
  "demo_ring = \<lparr>cbuf = [4, 2, 3], capacity = 3, csize = 3, head = 1, tail = 1\<rparr>"

lemma demo_ring_facts:
  "circ_ok demo_ring" "circ_list demo_ring = [2, 3, 4]" "csize demo_ring = 3" "capacity demo_ring = 3"
  by (simp_all add: demo_ring_def circ_ok_def vec_max_def circ_list_def upt_rec)

theorem circ_iteration_witness:
  "circ_walk 3 demo_ring (iter_begin demo_ring) = Some (Inr [2, 3, 4])"
  using circ_iteration [of demo_ring] by (simp add: demo_ring_facts)

text \<open>
  \<open>push_back\<close> never fails on a well-formed ring, keeps it well-formed and
  appends the element; when the ring is full it drops the oldest element and nothing else.
\<close>

theorem push_back_overwrites_oldest:
  assumes "circ_ok c"
  shows "\<exists>c'. push_back x c = Inr c' \<and> circ_ok c' \<and> capacity c' = capacity c
     \<and> circ_list c' = (if csize c = capacity c then tl (circ_list c) else circ_list c) @ [x]"
proof (cases "csize c = capacity c")
  case True
  with push_back_full [OF assms True, of x] show ?thesis by auto
next
  case False
  with assms have "csize c < capacity c" by (simp add: circ_ok_def)
  with push_back_room [OF assms this, of x] False show ?thesis by auto
qed

theorem push_back_overwrites_oldest_witness:
  "\<exists>c'. push_back 5 demo_ring = Inr c' \<and> circ_ok c' \<and> circ_list c' = [3, 4, 5]"
  using push_back_overwrites_oldest [of demo_ring 5] by (auto simp: demo_ring_facts)

section \<open>The overwriting ring as an interface\<close>

text \<open>
  What the timing wheel relies on: a push on a full ring shifts the contents by one, and
  the newest element can be updated in place.
\<close>

locale overwriting_ring =
  fixes inv :: "'r \<Rightarrow> bool"
    and items :: "'r \<Rightarrow> 'a list"
    and cap :: "'r \<Rightarrow> nat"
    and push :: "'a \<Rightarrow> 'r \<Rightarrow> 'e + 'r"
    and upd :: "('a \<Rightarrow> 'a) \<Rightarrow> 'r \<Rightarrow> 'e + 'r"
  assumes cap_pos: "inv r \<Longrightarrow> 0 < cap r"
    and items_le: "inv r \<Longrightarrow> length (items r) \<le> cap r"
    and push_law: "inv r \<Longrightarrow> \<exists>r'. push x r = Inr r' \<and> inv r' \<and> cap r' = cap r
      \<and> items r' = (if length (items r) = cap r then tl (items r) else items r) @ [x]"
    and upd_law: "inv r \<Longrightarrow> items r \<noteq> [] \<Longrightarrow> \<exists>r'. upd f r = Inr r' \<and> inv r' \<and> cap r' = cap r
      \<and> items r' = butlast (items r) @ [f (last (items r))]"
begin

definition full :: "'r \<Rightarrow> bool" where
  "full r \<longleftrightarrow> inv r \<and> length (items r) = cap r"

lemma full_push:
  assumes "full r"
  shows "\<exists>r'. push x r = Inr r' \<and> full r' \<and> cap r' = cap r \<and> items r' = tl (items r) @ [x]"
  using push_law [of r x] cap_pos [of r] assms by (auto simp: full_def)

lemma full_upd:
  assumes "full r"
  shows "\<exists>r'. upd f r = Inr r' \<and> full r' \<and> cap r' = cap r
    \<and> items r' = butlast (items r) @ [f (last (items r))]"
proof -
  from assms have "inv r" and "items r \<noteq> []"
    using cap_pos [of r] by (auto simp: full_def)
  from upd_law [OF this, of f] assms show ?thesis
    using cap_pos [of r] by (auto simp: full_def)
qed

text \<open>Pushing as often as there are free cells fills the ring.\<close>

primrec pushes :: "'a list \<Rightarrow> 'r \<Rightarrow> 'e + 'r" where
  "pushes [] r = Inr r"
| "pushes (x # xs) r = rbind (push x r) (pushes xs)"

lemma pushes_law:
  "inv r \<Longrightarrow> length (items r) + length xs \<le> cap r \<Longrightarrow>
     \<exists>r'. pushes xs r = Inr r' \<and> inv r' \<and> cap r' = cap r \<and> items r' = items r @ xs"
proof (induction xs arbitrary: r)
  case Nil
  then show ?case by simp
next
  case (Cons x xs)
  from Cons.prems have "length (items r) \<noteq> cap r" by simp
  with push_law [OF Cons.prems(1), of x] obtain r1 where
    "push x r = Inr r1" "inv r1" "cap r1 = cap r" "items r1 = items r @ [x]" by auto
  with Cons.IH [of r1] Cons.prems show ?case by auto
qed

end

interpretation cring: overwriting_ring circ_ok circ_list capacity push_back update_back
proof unfold_locales
  fix c :: "'a circ" and x :: 'a
  assume ok: "circ_ok c"
  then show "0 < capacity c" and "length (circ_list c) \<le> capacity c"
    by (simp_all add: circ_ok_def)
  show "\<exists>c'. push_back x c = Inr c' \<and> circ_ok c' \<and> capacity c' = capacity c
      \<and> circ_list c' = (if length (circ_list c) = capacity c then tl (circ_list c) else circ_list c) @ [x]"
  proof (cases "csize c = capacity c")
    case True
    then show ?thesis using push_back_full [OF ok, of x] by auto
  next
    case False
    with ok have "csize c < capacity c" by (simp add: circ_ok_def)
    then show ?thesis using push_back_room [OF ok, of x] False by auto
  qed
next
  fix c :: "'a circ" and f :: "'a \<Rightarrow> 'a"
  assume "circ_ok c" and "circ_list c \<noteq> []"
  then show "\<exists>c'. update_back f c = Inr c' \<and> circ_ok c' \<and> capacity c' = capacity c
      \<and> circ_list c' = butlast (circ_list c) @ [f (last (circ_list c))]"
    by (rule update_back_ok)
qed

end
