(* ===== verification/Idle_Wheel.thy ===== *)
theory Idle_Wheel
  imports Circular_Buffer
begin

text \<open>
  \<open>IdleEntry\<close> and \<open>IdleConnectionWheel\<close> (\<open>idle_entry.hpp\<close>,
  \<open>idle_connection_wheel.hpp\<close>, \<open>idle_connection_wheel.cc\<close>).  The buckets are a
  \<^typ>\<open>'a circ\<close> of lists without duplicates (\<open>std::unordered_set\<close> of shared
  pointers).  \<open>entries\<close> holds the live entry objects, \<open>uses\<close> the number of shared
  pointers to each (only buckets keep one), and \<open>closing\<close> the connections for which an
  entry's destructor has spawned the closing coroutine, in order.  An entry is destroyed when
  its count falls to zero.
\<close>

section \<open>State and operations\<close>

type_synonym conn_id = nat
type_synonym entry_id = nat
type_synonym bucket = "entry_id list"

record idle_entry =
  wconn :: conn_id       \<comment> \<open>\<open>weak_ptr<TcpConnection>\<close>\<close>
  has_sched :: bool      \<comment> \<open>\<open>sched != nullptr\<close>\<close>

record wheel =
  buckets :: "bucket circ"
  wheel_running :: bool
  tick_coros :: nat      \<comment> \<open>tick coroutines spawned by \<open>start\<close>\<close>
  entries :: "entry_id \<rightharpoonup> idle_entry"
  uses :: "entry_id \<Rightarrow> nat"   \<comment> \<open>\<open>use_count\<close> of the shared pointers\<close>
  closing :: "conn_id list"

definition bucket_insert :: "entry_id \<Rightarrow> bucket \<Rightarrow> bucket" where
  "bucket_insert e b = (if e \<in> set b then b else e # b)"

fun push_empty_buckets :: "nat \<Rightarrow> bucket circ \<Rightarrow> circ_error + bucket circ" where
  "push_empty_buckets 0 c = Inr c"
| "push_empty_buckets (Suc n) c = rbind (push_back [] c) (push_empty_buckets n)"

definition wheel_new :: "size_t \<Rightarrow> int \<Rightarrow> circ_error + wheel" where
  "wheel_new max_size idle =
     (let N = (if idle > 0 then nat idle else 1) in
      rbind (circ_new [] max_size N) (\<lambda>c. rbind (push_empty_buckets N c) (\<lambda>c'.
        Inr \<lparr>buckets = c', wheel_running = False, tick_coros = 0,
             entries = Map.empty, uses = (\<lambda>_. 0), closing = []\<rparr>)))"

definition wheel_start :: "wheel \<Rightarrow> wheel" where
  "wheel_start w = w\<lparr>wheel_running := True, tick_coros := Suc (tick_coros w)\<rparr>"

definition wheel_stop :: "wheel \<Rightarrow> wheel" where
  "wheel_stop w = w\<lparr>wheel_running := False\<rparr>"

text \<open>
  \<open>buckets_.back().insert(e)\<close>: the bucket keeps a copy of the pointer unless it holds one.
\<close>

definition insert_newest_bucket :: "entry_id \<Rightarrow> wheel \<Rightarrow> circ_error + wheel" where
  "insert_newest_bucket e w =
     rbind (circ_back (buckets w)) (\<lambda>b.
     rbind (update_back (bucket_insert e) (buckets w)) (\<lambda>bs.
       Inr (w\<lparr>buckets := bs, uses := (if e \<in> set b then uses w else (uses w)(e := Suc (uses w e)))\<rparr>)))"

text \<open>\<open>make_shared\<close> returns a new object, here \<open>e\<close>; the caller keeps a weak pointer only.\<close>

definition register_conn :: "conn_id \<Rightarrow> entry_id \<Rightarrow> wheel \<Rightarrow> circ_error + wheel" where
  "register_conn c e w =
     insert_newest_bucket e (w\<lparr>entries := (entries w)(e \<mapsto> \<lparr>wconn = c, has_sched = True\<rparr>)\<rparr>)"

definition refresh :: "entry_id option \<Rightarrow> wheel \<Rightarrow> circ_error + wheel" where
  "refresh eo w =
     (case eo of None \<Rightarrow> Inr w
      | Some e \<Rightarrow> insert_newest_bucket e w)"

text \<open>\<open>~IdleEntry\<close>: \<open>alive c\<close> says whether the weak pointer still locks.\<close>

definition entry_destroy :: "(conn_id \<Rightarrow> bool) \<Rightarrow> entry_id \<Rightarrow> wheel \<Rightarrow> wheel" where
  "entry_destroy alive e w =
     (case entries w e of None \<Rightarrow> w
      | Some en \<Rightarrow> w\<lparr>entries := (entries w)(e := None),
                    closing := (if alive (wconn en) \<and> has_sched en
                                then closing w @ [wconn en] else closing w)\<rparr>)"

text \<open>One shared pointer to \<open>e\<close> is dropped; the last one destroys the object.\<close>

definition entry_release :: "(conn_id \<Rightarrow> bool) \<Rightarrow> entry_id \<Rightarrow> wheel \<Rightarrow> wheel" where
  "entry_release alive e w =
     (let n = uses w e - 1; w' = w\<lparr>uses := (uses w)(e := n)\<rparr>
      in if n = 0 then entry_destroy alive e w' else w')"

text \<open>\<open>buckets_.push_back(Bucket{})\<close>: the overwritten bucket drops its pointers.\<close>

definition wheel_tick :: "(conn_id \<Rightarrow> bool) \<Rightarrow> wheel \<Rightarrow> circ_error + wheel" where
  "wheel_tick alive w =
     rbind (push_back [] (buckets w)) (\<lambda>c'.
       Inr (fold (entry_release alive) (cbuf (buckets w) ! tail (buckets w)) (w\<lparr>buckets := c'\<rparr>)))"

text \<open>
  One resumption of \<open>tick_coro\<close> after its one second timeout: the flag says whether
  the coroutine loops on.
\<close>

definition tick_coro_resume :: "(conn_id \<Rightarrow> bool) \<Rightarrow> wheel \<Rightarrow> circ_error + (bool \<times> wheel)" where
  "tick_coro_resume alive w =
     (if \<not> wheel_running w then Inr (False, w)
      else rbind (wheel_tick alive w) (\<lambda>w'. Inr (wheel_running w', w')))"

section \<open>Invariant\<close>

abbreviation bucket_list :: "wheel \<Rightarrow> bucket list" where
  "bucket_list w \<equiv> circ_list (buckets w)"

definition holders :: "entry_id \<Rightarrow> bucket list \<Rightarrow> nat" where
  "holders e bs = length (filter (\<lambda>b. e \<in> set b) bs)"

lemma holders_simps [simp]:
  "holders e [] = 0" "holders e (b # bs) = (if e \<in> set b then Suc (holders e bs) else holders e bs)"
  "holders e (bs @ cs) = holders e bs + holders e cs"
  by (simp_all add: holders_def)

lemma holders_0: "holders e bs = 0 \<longleftrightarrow> (\<forall>b \<in> set bs. e \<notin> set b)"
  by (induction bs) auto

definition wheel_ok :: "nat \<Rightarrow> wheel \<Rightarrow> bool" where
  "wheel_ok N w \<longleftrightarrow> circ_ok (buckets w) \<and> csize (buckets w) = N \<and> capacity (buckets w) = N
     \<and> dom (entries w) = (\<Union>b \<in> set (bucket_list w). set b)
     \<and> (\<forall>e. uses w e = holders e (bucket_list w))
     \<and> list_all distinct (bucket_list w)"

lemma wheel_okD:
  assumes "wheel_ok N w"
  shows "circ_ok (buckets w)" "cring.full (buckets w)" "length (bucket_list w) = N" "0 < N"
    "bucket_list w \<noteq> []"
  using assms by (auto simp: wheel_ok_def cring.full_def circ_ok_def simp flip: length_0_conv)

lemma set_bucket_insert [simp]: "set (bucket_insert e b) = insert e (set b)"
  by (auto simp: bucket_insert_def)

lemma distinct_bucket_insert [simp]: "distinct (bucket_insert e b) \<longleftrightarrow> distinct b"
  by (simp add: bucket_insert_def)

text \<open>Both registering and refreshing put an entry into the newest bucket.\<close>

lemma full_csize: "cring.full c \<Longrightarrow> circ_ok c \<and> csize c = capacity c"
  by (simp add: cring.full_def)

lemma snoc_insert:
  assumes "L \<noteq> []" and "L' = butlast L @ [bucket_insert e (last L)]"
  shows "(\<Union>b \<in> set L'. set b) = insert e (\<Union>b \<in> set L. set b)"
    and "list_all distinct L' = list_all distinct L"
    and "holders e' L' = (if e' = e \<and> e \<notin> set (last L) then Suc (holders e' L) else holders e' L)"
proof -
  obtain M b where "L = M @ [b]" using assms(1) by (cases L rule: rev_cases) auto
  then show "(\<Union>b \<in> set L'. set b) = insert e (\<Union>b \<in> set L. set b)"
    and "list_all distinct L' = list_all distinct L"
    and "holders e' L' = (if e' = e \<and> e \<notin> set (last L) then Suc (holders e' L) else holders e' L)"
    using assms(2) by auto
qed

lemma insert_newest:
  assumes ok: "wheel_ok N w" and en: "dom en = insert e (dom (entries w))"
  shows "\<exists>w'. insert_newest_bucket e (w\<lparr>entries := en\<rparr>) = Inr w' \<and> wheel_ok N w' \<and> closing w' = closing w
     \<and> entries w' = en \<and> wheel_running w' = wheel_running w
     \<and> bucket_list w' = butlast (bucket_list w) @ [bucket_insert e (last (bucket_list w))]"
proof -
  note D = wheel_okD [OF ok]
  from cring.full_upd [OF D(2), of "bucket_insert e"] obtain bs where
    bs: "update_back (bucket_insert e) (buckets w) = Inr bs" "cring.full bs"
      "capacity bs = capacity (buckets w)"
      "circ_list bs = butlast (bucket_list w) @ [bucket_insert e (last (bucket_list w))]" by blast
  have newest: "circ_back (buckets w) = Inr (last (bucket_list w))" by (rule circ_back_ok [OF D(1,5)])
  show ?thesis
    using bs(1) ok full_csize [OF bs(2)] snoc_insert [OF D(5) bs(4)] bs(3,4) en
    by (simp add: insert_newest_bucket_def newest wheel_ok_def fun_upd_apply)
qed

lemma register_conn_ok:
  assumes "wheel_ok N w"
  shows "\<exists>w'. register_conn c e w = Inr w' \<and> wheel_ok N w' \<and> closing w' = closing w
     \<and> entries w' = (entries w)(e \<mapsto> \<lparr>wconn = c, has_sched = True\<rparr>)
     \<and> bucket_list w' = butlast (bucket_list w) @ [bucket_insert e (last (bucket_list w))]"
  using insert_newest [OF assms, of "(entries w)(e \<mapsto> \<lparr>wconn = c, has_sched = True\<rparr>)" e]
  by (auto simp: register_conn_def)

lemma refresh_ok:
  assumes "wheel_ok N w" and "entries w e \<noteq> None"
  shows "\<exists>w'. refresh (Some e) w = Inr w' \<and> wheel_ok N w' \<and> closing w' = closing w
     \<and> entries w' = entries w
     \<and> bucket_list w' = butlast (bucket_list w) @ [bucket_insert e (last (bucket_list w))]"
proof -
  have "dom (entries w) = insert e (dom (entries w))" using assms(2) by auto
  from insert_newest [OF assms(1) this] show ?thesis by (auto simp: refresh_def)
qed

lemma insert_newest_running: "insert_newest_bucket e w = Inr w' \<Longrightarrow> wheel_running w' = wheel_running w"
  by (auto simp: insert_newest_bucket_def rbind_eq_Inr)

subsection \<open>Destroying entries\<close>

lemma entry_destroy_simps [simp]:
  "buckets (entry_destroy alive e w) = buckets w"
  "entries (entry_destroy alive e w) = (entries w)(e := None)"
  by (auto simp: entry_destroy_def split: option.splits)

lemma destroy_all_simps:
  "buckets (fold (entry_destroy alive) es w) = buckets w"
  "entries (fold (entry_destroy alive) es w) = (\<lambda>e. if e \<in> set es then None else entries w e)"
  by (induction es arbitrary: w) (auto simp: fun_eq_iff)

lemma closing_destroy_mono: "set (closing w) \<subseteq> set (closing (fold (entry_destroy alive) es w))"
proof (induction es arbitrary: w)
  case Nil
  then show ?case by simp
next
  case (Cons e es)
  have "set (closing w) \<subseteq> set (closing (entry_destroy alive e w))"
    by (auto simp: entry_destroy_def split: option.splits)
  with Cons.IH [of "entry_destroy alive e w"] show ?case by simp
qed

lemma closing_destroy_mem:
  "entries w e = Some en \<Longrightarrow> e \<in> set es \<Longrightarrow> alive (wconn en) \<Longrightarrow> has_sched en \<Longrightarrow>
     wconn en \<in> set (closing (fold (entry_destroy alive) es w))"
proof (induction es arbitrary: w)
  case Nil
  then show ?case by simp
next
  case (Cons e' es)
  show ?case
  proof (cases "e' = e")
    case True
    with Cons.prems have "wconn en \<in> set (closing (entry_destroy alive e' w))"
      by (simp add: entry_destroy_def)
    with closing_destroy_mono show ?thesis by auto
  next
    case False
    with Cons show ?thesis by simp
  qed
qed

text \<open>The pointers of a whole bucket: the entries held by no other bucket are destroyed.\<close>

lemma entry_destroy_uses: "entry_destroy alive e (w\<lparr>uses := u\<rparr>) = (entry_destroy alive e w)\<lparr>uses := u\<rparr>"
  by (simp add: entry_destroy_def split: option.split)

lemma destroy_all_uses:
  "fold (entry_destroy alive) es (w\<lparr>uses := u\<rparr>) = (fold (entry_destroy alive) es w)\<lparr>uses := u\<rparr>"
  by (induction es arbitrary: w) (simp_all add: entry_destroy_uses)

lemma uses_destroy [simp]: "uses (entry_destroy alive e w) = uses w"
  by (simp add: entry_destroy_def split: option.split)

lemma release_bucket:
  "distinct b \<Longrightarrow> fold (entry_release alive) b w
     = (fold (entry_destroy alive) (filter (\<lambda>e. uses w e \<le> 1) b) w)\<lparr>uses := \<lambda>e. if e \<in> set b then uses w e - 1 else uses w e\<rparr>"
proof (induction b arbitrary: w)
  case Nil
  then show ?case by simp
next
  case (Cons e b)
  let ?u = "(uses w)(e := uses w e - 1)"
  let ?v = "if uses w e \<le> 1 then entry_destroy alive e w else w"
  have r: "entry_release alive e w = ?v\<lparr>uses := ?u\<rparr>"
    by (simp add: entry_release_def Let_def entry_destroy_uses)
  have f: "filter (\<lambda>x. ?u x \<le> 1) b = filter (\<lambda>x. uses w x \<le> 1) b"
    using Cons.prems by (intro filter_cong) auto
  have u: "(\<lambda>x. if x \<in> set b then ?u x - 1 else ?u x) = (\<lambda>x. if x \<in> set (e # b) then uses w x - 1 else uses w x)"
    using Cons.prems by auto
  have uv: "uses (?v\<lparr>uses := ?u\<rparr>) = ?u" by simp
  have "fold (entry_release alive) b (?v\<lparr>uses := ?u\<rparr>)
      = (fold (entry_destroy alive) (filter (\<lambda>x. uses w x \<le> 1) b) ?v)\<lparr>uses := \<lambda>x. if x \<in> set (e # b) then uses w x - 1 else uses w x\<rparr>"
    using Cons.IH [of "?v\<lparr>uses := ?u\<rparr>"] Cons.prems unfolding uv f u destroy_all_uses by simp
  then show ?case unfolding fold_Cons comp_apply r by simp
qed

text \<open>The overwritten bucket is the oldest one.\<close>

definition dying :: "wheel \<Rightarrow> entry_id list" where
  "dying w = filter (\<lambda>e. uses w e \<le> 1) (hd (bucket_list w))"

lemma wheel_tick_eq:
  assumes ok: "wheel_ok N w"
  obtains c' where "push_back [] (buckets w) = Inr c'" "circ_ok c'" "csize c' = N" "capacity c' = N"
    "circ_list c' = tl (bucket_list w) @ [[]]" "distinct (dying w)"
    "wheel_tick alive w = Inr ((fold (entry_destroy alive) (dying w) (w\<lparr>buckets := c'\<rparr>))
       \<lparr>uses := \<lambda>e. if e \<in> set (hd (bucket_list w)) then uses w e - 1 else uses w e\<rparr>)"
proof -
  note D = wheel_okD [OF ok]
  from cring.full_push [OF D(2), of "[]"] obtain c' where
    c': "push_back [] (buckets w) = Inr c'" "circ_ok c'" "csize c' = N" "capacity c' = N"
      "circ_list c' = tl (bucket_list w) @ [[]]"
    using ok by (auto simp: wheel_ok_def cring.full_def)
  have old: "cbuf (buckets w) ! tail (buckets w) = hd (bucket_list w)"
    using full_hd [OF D(1)] ok by (simp add: wheel_ok_def)
  have dist: "distinct (hd (bucket_list w))" using ok D(5) by (auto simp: wheel_ok_def list_all_iff)
  show thesis
    by (rule that [OF c']) (use dist in \<open>simp_all add: dying_def wheel_tick_def c'(1) old release_bucket cong: if_cong\<close>)
qed

lemma wheel_tick_ok:
  assumes ok: "wheel_ok N w"
  shows "\<exists>w'. wheel_tick alive w = Inr w' \<and> wheel_ok N w'
     \<and> bucket_list w' = tl (bucket_list w) @ [[]]
     \<and> (\<forall>e. entries w' e = (if \<exists>b \<in> set (tl (bucket_list w)). e \<in> set b then entries w e else None))
     \<and> set (closing w) \<subseteq> set (closing w')
     \<and> (\<forall>e en. entries w e = Some en \<longrightarrow> entries w' e = None \<longrightarrow> alive (wconn en) \<longrightarrow> has_sched en
          \<longrightarrow> wconn en \<in> set (closing w'))"
proof -
  note D = wheel_okD [OF ok]
  let ?L = "bucket_list w"
  let ?u = "\<lambda>e. if e \<in> set (hd ?L) then uses w e - 1 else uses w e"
  obtain c' where c': "push_back [] (buckets w) = Inr c'" "circ_ok c'" "csize c' = N" "capacity c' = N"
      "circ_list c' = tl ?L @ [[]]"
    and tick: "wheel_tick alive w = Inr ((fold (entry_destroy alive) (dying w) (w\<lparr>buckets := c'\<rparr>))\<lparr>uses := ?u\<rparr>)"
    by (rule wheel_tick_eq [OF ok])
  define dead where "dead = dying w"
  let ?w' = "(fold (entry_destroy alive) dead (w\<lparr>buckets := c'\<rparr>))\<lparr>uses := ?u\<rparr>"
  have cnt: "uses w e = (if e \<in> set (hd ?L) then Suc (holders e (tl ?L)) else holders e (tl ?L))" for e
    using ok D(5) by (cases ?L) (simp_all add: wheel_ok_def)
  have set_dead: "set dead = {e \<in> set (hd ?L). \<not> (\<exists>b \<in> set (tl ?L). e \<in> set b)}"
    by (auto simp: dead_def dying_def cnt holders_0)
  have L: "set ?L = insert (hd ?L) (set (tl ?L))" using D(5) by (cases ?L) auto
  have dom: "dom (entries w) = set (hd ?L) \<union> (\<Union>b \<in> set (tl ?L). set b)"
    using ok L by (simp add: wheel_ok_def)
  have ent: "entries ?w' e = (if \<exists>b \<in> set (tl ?L). e \<in> set b then entries w e else None)" for e
  proof (cases "e \<in> set dead")
    case True
    then show ?thesis using set_dead by (auto simp: destroy_all_simps)
  next
    case False
    then have "entries w e = None \<or> (\<exists>b \<in> set (tl ?L). e \<in> set b)"
      using set_dead dom by (cases "entries w e") auto
    with False show ?thesis by (auto simp: destroy_all_simps)
  qed
  have "dom (entries ?w') = (\<Union>b \<in> set (tl ?L). set b)"
    using ent dom by (auto simp: dom_def split: if_splits)
  moreover have "list_all distinct (tl ?L)" using ok L by (simp add: wheel_ok_def list_all_iff)
  ultimately have "wheel_ok N ?w'" using c' by (simp add: wheel_ok_def destroy_all_simps cnt)
  moreover have "wconn en \<in> set (closing ?w')"
    if "entries w e = Some en" "entries ?w' e = None" "alive (wconn en)" "has_sched en" for e en
  proof (simp, rule closing_destroy_mem)
    have "\<not> (\<exists>b \<in> set (tl ?L). e \<in> set b)" using that ent [of e] by (auto split: if_splits)
    moreover have "e \<in> dom (entries w)" using that by auto
    ultimately show "e \<in> set dead" using set_dead dom by auto
  qed (use that in simp_all)
  ultimately show ?thesis
    using tick ent c' closing_destroy_mono [of "w\<lparr>buckets := c'\<rparr>" alive dead]
    by (auto simp: destroy_all_simps dead_def)
qed

lemma destroy_closing:
  "distinct es \<Longrightarrow> closing (fold (entry_destroy alive) es w) = closing w
     @ map (\<lambda>e. wconn (the (entries w e))) (filter (\<lambda>e. \<exists>en. entries w e = Some en \<and> alive (wconn en) \<and> has_sched en) es)"
proof (induction es arbitrary: w)
  case Nil
  then show ?case by simp
next
  case (Cons e es)
  have "map (\<lambda>e'. wconn (the (entries (entry_destroy alive e w) e')))
        (filter (\<lambda>e'. \<exists>en. entries (entry_destroy alive e w) e' = Some en \<and> alive (wconn en) \<and> has_sched en) es)
      = map (\<lambda>e'. wconn (the (entries w e'))) (filter (\<lambda>e'. \<exists>en. entries w e' = Some en \<and> alive (wconn en) \<and> has_sched en) es)"
    using Cons.prems by (intro arg_cong2 [where f = map] filter_cong map_cong refl) (auto simp: fun_eq_iff)
  then show ?case using Cons.IH [of "entry_destroy alive e w"] Cons.prems
    by (auto simp: entry_destroy_def split: option.splits)
qed

lemma destroy_all_running: "wheel_running (fold (entry_destroy alive) es w) = wheel_running w"
  by (induction es arbitrary: w) (simp_all add: entry_destroy_def split: option.split)

lemma wheel_tick_closing:
  assumes ok: "wheel_ok N w" and tick: "wheel_tick alive w = Inr w'"
  obtains dead where "distinct dead" "\<And>e. entries w' e = (if e \<in> set dead then None else entries w e)"
    "closing w' = closing w @ map (\<lambda>e. wconn (the (entries w e))) (filter (\<lambda>e. \<exists>en. entries w e = Some en \<and> alive (wconn en) \<and> has_sched en) dead)"
    "wheel_running w' = wheel_running w"
proof -
  obtain c' where d: "distinct (dying w)" and t: "wheel_tick alive w = Inr ((fold (entry_destroy alive) (dying w) (w\<lparr>buckets := c'\<rparr>))
       \<lparr>uses := \<lambda>e. if e \<in> set (hd (bucket_list w)) then uses w e - 1 else uses w e\<rparr>)"
    by (rule wheel_tick_eq [OF ok])
  then have w': "w' = (fold (entry_destroy alive) (dying w) (w\<lparr>buckets := c'\<rparr>))
       \<lparr>uses := \<lambda>e. if e \<in> set (hd (bucket_list w)) then uses w e - 1 else uses w e\<rparr>" using tick by simp
  show thesis by (rule that [OF d]) (simp_all add: w' destroy_all_simps destroy_all_running destroy_closing [OF d])
qed

lemma push_empty_buckets_ok:
  "circ_ok c \<Longrightarrow> csize c + n \<le> capacity c \<Longrightarrow>
     \<exists>c'. push_empty_buckets n c = Inr c' \<and> circ_ok c' \<and> capacity c' = capacity c
        \<and> circ_list c' = circ_list c @ replicate n []"
proof (induction n arbitrary: c)
  case 0
  then show ?case by simp
next
  case (Suc n)
  then obtain c1 where c1: "push_back [] c = Inr c1" "circ_ok c1" "capacity c1 = capacity c"
      "circ_list c1 = circ_list c @ [[]]"
    using push_back_room [of c "[]"] by auto
  then have "csize c1 = Suc (csize c)"
    by (metis length_append_singleton length_circ_list)
  with Suc.IH [of c1] Suc.prems c1 show ?case by (auto simp: replicate_append_same)
qed

lemma wheel_new_ok:
  assumes "N = (if idle > 0 then nat idle else 1)" and "N \<le> vec_max" and "N \<le> m"
  shows "\<exists>w. wheel_new m idle = Inr w \<and> wheel_ok N w \<and> closing w = [] \<and> entries w = Map.empty"
proof -
  have "0 < N" using assms(1) by auto
  from circ_new_ok [OF this assms(2,3), of "[] :: bucket"] obtain c where
    c: "circ_new ([] :: bucket) m N = Inr c" "circ_ok c" "circ_list c = []" "capacity c = N" by blast
  have "csize c = 0" using c(3) length_circ_list by (metis list.size(3))
  with push_empty_buckets_ok [OF c(2), of N] c obtain c' where
    c': "push_empty_buckets N c = Inr c'" "circ_ok c'" "capacity c' = N"
      "circ_list c' = replicate N []" by auto
  have "csize c' = N" using c'(4) length_circ_list by (metis length_replicate)
  with c c' show ?thesis
    unfolding wheel_new_def Let_def assms(1) [symmetric]
    by (auto simp: wheel_ok_def list_all_iff holders_0)
qed

section \<open>Histories of a wheel\<close>

text \<open>
  Everything that happens to a wheel on its worker thread: ticks, new connections, and
  the refresh of \<open>TcpConnection::recv\<close>, which first locks its weak pointer.
\<close>

definition refresh_weak :: "entry_id \<Rightarrow> wheel \<Rightarrow> circ_error + wheel" where
  "refresh_weak e w = (if entries w e = None then Inr w else refresh (Some e) w)"

datatype wheel_event =
    Tick "conn_id \<Rightarrow> bool"
  | Register conn_id entry_id
  | Refresh entry_id

fun wheel_step :: "wheel_event \<Rightarrow> wheel \<Rightarrow> circ_error + wheel" where
  "wheel_step (Tick alive) w = wheel_tick alive w"
| "wheel_step (Register c e) w = register_conn c e w"
| "wheel_step (Refresh e) w = refresh_weak e w"

fun wheel_run :: "wheel_event list \<Rightarrow> wheel \<Rightarrow> circ_error + wheel" where
  "wheel_run [] w = Inr w"
| "wheel_run (v # vs) w = rbind (wheel_step v w) (wheel_run vs)"

fun touches :: "entry_id \<Rightarrow> wheel_event \<Rightarrow> bool" where
  "touches e (Tick alive) = False"
| "touches e (Register c e') = (e = e')"
| "touches e (Refresh e') = (e = e')"

fun is_tick :: "wheel_event \<Rightarrow> bool" where
  "is_tick (Tick alive) = True"
| "is_tick _ = False"

lemma wheel_step_ok:
  assumes "wheel_ok N w"
  shows "\<exists>w'. wheel_step v w = Inr w' \<and> wheel_ok N w'"
proof (cases v)
  case (Tick alive)
  then show ?thesis using wheel_tick_ok [OF assms, of alive] by auto
next
  case (Register c e)
  then show ?thesis using register_conn_ok [OF assms, of c e] by auto
next
  case (Refresh e)
  then show ?thesis using refresh_ok [OF assms, of e] assms by (auto simp: refresh_weak_def)
qed

lemma wheel_run_keeps_ok:
  assumes "wheel_ok N w"
  shows "\<exists>w'. wheel_run vs w = Inr w' \<and> wheel_ok N w'"
  using assms
proof (induction vs arbitrary: w)
  case Nil
  then show ?case by simp
next
  case (Cons v vs)
  obtain w1 where "wheel_step v w = Inr w1" "wheel_ok N w1"
    using wheel_step_ok [OF Cons.prems] by blast
  with Cons.IH [of w1] show ?case by simp
qed

definition demo_wheel :: wheel where
  "demo_wheel = \<lparr>buckets = \<lparr>cbuf = [[], [], [7]], capacity = 3, csize = 3, head = 0, tail = 0\<rparr>,
     wheel_running = True, tick_coros = 1,
     entries = [7 \<mapsto> \<lparr>wconn = 40, has_sched = True\<rparr>], uses = (\<lambda>e. if e = 7 then 1 else 0), closing = []\<rparr>"

lemma demo_wheel_ok: "wheel_ok 3 demo_wheel"
  by (simp add: demo_wheel_def wheel_ok_def circ_ok_def vec_max_def circ_list_def upt_rec)

section \<open>Eviction after exactly N ticks\<close>

text \<open>\<open>aged k e w\<close>: the newest bucket that refers to \<open>e\<close> has seen \<open>k\<close> ticks.\<close>

definition aged :: "nat \<Rightarrow> nat \<Rightarrow> entry_id \<Rightarrow> wheel \<Rightarrow> bool" where
  "aged N k e w \<longleftrightarrow> k < N \<and> e \<in> set (bucket_list w ! (N - 1 - k))
     \<and> (\<forall>j. N - 1 - k < j \<longrightarrow> j < N \<longrightarrow> e \<notin> set (bucket_list w ! j))"

lemma aged_newest:
  "wheel_ok N w \<Longrightarrow> e \<in> set (last (bucket_list w)) \<Longrightarrow> aged N 0 e w"
  using wheel_okD [of N w] by (auto simp: aged_def last_conv_nth)

lemma aged_other:
  assumes "aged N k e w" and "L' = butlast (bucket_list w) @ [bucket_insert e' (last (bucket_list w))]"
    and "e' \<noteq> e" and "length (bucket_list w) = N" and "bucket_list w' = L'"
  shows "aged N k e w'"
proof -
  have ne: "bucket_list w \<noteq> []"
    using assms(1,4) unfolding aged_def by (metis list.size(3) not_less0)
  have same: "e \<in> set (L' ! j) \<longleftrightarrow> e \<in> set (bucket_list w ! j)" if "j < N" for j
  proof (cases "j < N - 1")
    case True
    then show ?thesis using assms(2,4) by (simp add: nth_append nth_butlast)
  next
    case False
    with that have "j = N - 1" by simp
    then show ?thesis using assms(2,3,4) ne by (auto simp: nth_append last_conv_nth)
  qed
  have "0 < N" using assms(1) by (simp add: aged_def)
  then show ?thesis using assms(1,5) same by (simp add: aged_def)
qed

lemma aged_live:
  assumes "wheel_ok N w" and "aged N k e w"
  shows "entries w e \<noteq> None"
proof -
  have "bucket_list w ! (N - 1 - k) \<in> set (bucket_list w)"
    using assms wheel_okD [OF assms(1)] by (intro nth_mem) (simp add: aged_def)
  then have "e \<in> dom (entries w)" using assms by (auto simp: wheel_ok_def aged_def)
  then show ?thesis by auto
qed

lemma aged_step:
  assumes ok: "wheel_ok N w" and ag: "aged N k e w" and nt: "\<not> touches e v"
    and k: "k + (if is_tick v then 1 else 0) < N"
  shows "\<exists>w'. wheel_step v w = Inr w' \<and> wheel_ok N w'
     \<and> aged N (k + (if is_tick v then 1 else 0)) e w' \<and> entries w' e = entries w e"
proof (cases v)
  case (Tick alive)
  then have kN: "Suc k < N" using k by simp
  from wheel_tick_ok [OF ok, of alive] obtain w' where
    w': "wheel_tick alive w = Inr w'" "wheel_ok N w'" "bucket_list w' = tl (bucket_list w) @ [[]]"
      "\<And>e. entries w' e = (if \<exists>b \<in> set (tl (bucket_list w)). e \<in> set b then entries w e else None)"
    by blast
  have len: "length (bucket_list w) = N" by (rule wheel_okD(3) [OF ok])
  have sh: "bucket_list w' ! j = (if Suc j < N then bucket_list w ! Suc j else [])" if "j < N" for j
    using that len by (auto simp: w'(3) nth_append nth_tl less_diff_conv not_less le_Suc_eq)
  have "aged N (Suc k) e w'"
    using ag kN sh by (auto simp: aged_def Suc_diff_Suc split: if_splits)
  moreover have "e \<in> set (tl (bucket_list w) ! (N - 1 - Suc k))"
    using ag kN len by (simp add: aged_def nth_tl Suc_diff_Suc)
  then have "\<exists>b \<in> set (tl (bucket_list w)). e \<in> set b"
    using kN len by (intro bexI [OF _ nth_mem]) auto
  then have "entries w' e = entries w e" using w'(4) by simp
  ultimately show ?thesis using Tick w' by auto
next
  case (Register c e')
  then show ?thesis
    using register_conn_ok [OF ok, of c e'] aged_other [OF ag refl, of e'] nt wheel_okD(3) [OF ok]
    by fastforce
next
  case (Refresh e')
  show ?thesis
  proof (cases "entries w e' = None")
    case True
    then show ?thesis using Refresh ok ag by (simp add: refresh_weak_def)
  next
    case False
    then show ?thesis
      using Refresh refresh_ok [OF ok False] aged_other [OF ag refl, of e'] nt wheel_okD(3) [OF ok]
      by (fastforce simp: refresh_weak_def)
  qed
qed

lemma aged_run:
  "wheel_ok N w \<Longrightarrow> aged N k e w \<Longrightarrow> list_all (\<lambda>v. \<not> touches e v) vs \<Longrightarrow>
   k + length (filter is_tick vs) < N \<Longrightarrow>
     \<exists>w'. wheel_run vs w = Inr w' \<and> wheel_ok N w' \<and> aged N (k + length (filter is_tick vs)) e w'
        \<and> entries w' e = entries w e"
proof (induction vs arbitrary: w k)
  case Nil
  then show ?case by simp
next
  case (Cons v vs)
  have "k + (if is_tick v then 1 else 0) < N" using Cons.prems(4) by (auto split: if_splits)
  from aged_step [OF Cons.prems(1,2) _ this] Cons.prems(3) obtain w1 where
    "wheel_step v w = Inr w1" "wheel_ok N w1" "aged N (k + (if is_tick v then 1 else 0)) e w1"
    "entries w1 e = entries w e" by auto
  with Cons.IH [of w1 "k + (if is_tick v then 1 else 0)"] Cons.prems show ?case by auto
qed

lemma aged_evict:
  assumes ok: "wheel_ok N w" and ag: "aged N (N - 1) e w" and en: "entries w e = Some en"
  shows "\<exists>w'. wheel_tick alive w = Inr w' \<and> entries w' e = None
     \<and> (alive (wconn en) \<and> has_sched en \<longrightarrow> wconn en \<in> set (closing w'))"
proof -
  have "e \<notin> set b" if "b \<in> set (tl (bucket_list w))" for b
  proof -
    from that obtain j where "j < length (tl (bucket_list w))" "b = tl (bucket_list w) ! j"
      by (auto simp: in_set_conv_nth)
    with ag wheel_okD(3) [OF ok] show ?thesis by (auto simp: aged_def nth_tl)
  qed
  with wheel_tick_ok [OF ok, of alive] en show ?thesis by fastforce
qed

text \<open>
  an entry that has just been put into the newest bucket (registered or
  refreshed) and is not refreshed afterwards stays alive through the next N - 1 ticks,
  whatever other connections do in between, and the N-th tick destroys it and spawns the
  closing coroutine of its connection if that connection is still alive.
\<close>

theorem idle_entry_evicted_after_N_ticks:
  assumes "wheel_ok N w" and "e \<in> set (last (bucket_list w))" and "entries w e = Some en"
    and "list_all (\<lambda>v. \<not> touches e v) vs" and "length (filter is_tick vs) = N - 1"
  shows "\<exists>w1 w2. wheel_run vs w = Inr w1 \<and> entries w1 e = Some en
     \<and> wheel_run [Tick alive] w1 = Inr w2 \<and> entries w2 e = None
     \<and> (alive (wconn en) \<and> has_sched en \<longrightarrow> wconn en \<in> set (closing w2))"
proof -
  have "0 < N" by (rule wheel_okD(4) [OF assms(1)])
  with aged_run [OF assms(1) aged_newest [OF assms(1,2)] assms(4)] assms(3,5) obtain w1 where
    w1: "wheel_run vs w = Inr w1" "wheel_ok N w1" "aged N (N - 1) e w1" "entries w1 e = Some en"
    by auto
  from aged_evict [OF w1(2,3,4), of alive] w1 show ?thesis by auto
qed

theorem idle_entry_evicted_after_N_ticks_witness:
  "\<exists>w1 w2. wheel_run [Tick (\<lambda>_. True), Register 41 8, Tick (\<lambda>_. True)] demo_wheel = Inr w1
     \<and> entries w1 7 = Some \<lparr>wconn = 40, has_sched = True\<rparr>
     \<and> wheel_run [Tick (\<lambda>_. True)] w1 = Inr w2 \<and> entries w2 7 = None \<and> 40 \<in> set (closing w2)"
  using idle_entry_evicted_after_N_ticks [OF demo_wheel_ok, of 7 "\<lparr>wconn = 40, has_sched = True\<rparr>"
      "[Tick (\<lambda>_. True), Register 41 8, Tick (\<lambda>_. True)]" "\<lambda>_. True"]
  by (simp add: demo_wheel_def circ_list_def upt_rec)

section \<open>The wheel as a table of ages\<close>

text \<open>
  What the wheel is for, without buckets: each live entry has an age, the number of ticks since it
  was registered or last renewed.  A tick ages every entry and evicts those that reach \<open>N\<close>; the set
  holds the connections for which an eviction asked for a close.
\<close>

type_synonym idle_table = "(entry_id \<rightharpoonup> nat \<times> conn_id) \<times> conn_id set"

fun idle_event :: "nat \<Rightarrow> wheel_event \<Rightarrow> idle_table \<Rightarrow> idle_table" where
  "idle_event N (Tick alive) (S, C) =
     ((\<lambda>e. case S e of None \<Rightarrow> None | Some (k, c) \<Rightarrow> if Suc k < N then Some (Suc k, c) else None),
      C \<union> {c. alive c \<and> (\<exists>e k. S e = Some (k, c) \<and> N \<le> Suc k)})"
| "idle_event N (Register c e) (S, C) = (S(e \<mapsto> (0, c)), C)"
| "idle_event N (Refresh e) (S, C) =
     (case S e of None \<Rightarrow> (S, C) | Some (k, c) \<Rightarrow> (S(e \<mapsto> (0, c)), C))"

definition idle_ages :: "nat \<Rightarrow> wheel_event list \<Rightarrow> idle_table" where
  "idle_ages N vs = fold (idle_event N) vs (Map.empty, {})"

definition shows_ages :: "nat \<Rightarrow> idle_table \<Rightarrow> wheel \<Rightarrow> bool" where
  "shows_ages N T w \<longleftrightarrow> wheel_ok N w \<and> set (closing w) = snd T
     \<and> (\<forall>e. case fst T e of None \<Rightarrow> entries w e = None
          | Some (k, c) \<Rightarrow> entries w e = Some \<lparr>wconn = c, has_sched = True\<rparr> \<and> aged N k e w)"

lemma shows_agesD:
  assumes "shows_ages N (S, C) w"
  shows "wheel_ok N w" "set (closing w) = C" "S e = None \<Longrightarrow> entries w e = None"
    "S e = Some (k, c) \<Longrightarrow> entries w e = Some \<lparr>wconn = c, has_sched = True\<rparr> \<and> aged N k e w"
    "entries w e = Some en \<Longrightarrow> \<exists>k. S e = Some (k, wconn en) \<and> has_sched en \<and> aged N k e w"
proof -
  have A: "case S e of None \<Rightarrow> entries w e = None
    | Some (k, c) \<Rightarrow> entries w e = Some \<lparr>wconn = c, has_sched = True\<rparr> \<and> aged N k e w"
    using assms by (simp add: shows_ages_def)
  show "wheel_ok N w" "set (closing w) = C" using assms by (simp_all add: shows_ages_def)
  show "S e = None \<Longrightarrow> entries w e = None"
    "S e = Some (k, c) \<Longrightarrow> entries w e = Some \<lparr>wconn = c, has_sched = True\<rparr> \<and> aged N k e w"
    "entries w e = Some en \<Longrightarrow> \<exists>k. S e = Some (k, wconn en) \<and> has_sched en \<and> aged N k e w"
    using A by (auto split: option.splits)
qed

lemma shows_agesI:
  assumes "wheel_ok N w" and "set (closing w) = C" and "\<And>e. S e = None \<Longrightarrow> entries w e = None"
    and "\<And>e k c. S e = Some (k, c) \<Longrightarrow> entries w e = Some \<lparr>wconn = c, has_sched = True\<rparr> \<and> aged N k e w"
  shows "shows_ages N (S, C) w"
  unfolding shows_ages_def using assms by (auto split: option.split)

text \<open>Putting an entry into the newest bucket gives it age zero and leaves the others alone.\<close>

lemma shows_ages_insert:
  assumes R: "shows_ages N (S, C) w" and w': "wheel_ok N w'" "closing w' = closing w"
    "entries w' = (entries w)(e \<mapsto> \<lparr>wconn = c, has_sched = True\<rparr>)"
    "bucket_list w' = butlast (bucket_list w) @ [bucket_insert e (last (bucket_list w))]"
  shows "shows_ages N (S(e \<mapsto> (0, c)), C) w'"
proof (rule shows_agesI)
  note D = shows_agesD [OF R]
  fix e' k c' assume "(S(e \<mapsto> (0, c))) e' = Some (k, c')"
  then show "entries w' e' = Some \<lparr>wconn = c', has_sched = True\<rparr> \<and> aged N k e' w'"
    using aged_newest [OF w'(1), of e] aged_other [OF _ w'(4), of N k e' w'] D(4) [of e' k c'] wheel_okD(3) [OF D(1)] w'(3,4)
    by (cases "e' = e") auto
qed (use shows_agesD [OF R] w' in \<open>auto split: if_splits\<close>)

lemma shows_ages_tick:
  assumes R: "shows_ages N (S, C) w"
  shows "\<exists>w'. wheel_tick alive w = Inr w' \<and> shows_ages N (idle_event N (Tick alive) (S, C)) w'"
proof -
  note D = shows_agesD [OF R]
  obtain w' where w': "wheel_tick alive w = Inr w'" "wheel_ok N w'" using wheel_tick_ok [OF D(1), of alive] by blast
  have live: "entries w' e = entries w e \<and> aged N (Suc k) e w'" if "S e = Some (k, c)" "Suc k < N" for e k c
    using aged_step [OF D(1) conjunct2 [OF D(4) [OF that(1)]], of "Tick alive"] that w'(1) by simp
  have gone: "entries w' e = None" if "S e = Some (k, c)" "\<not> Suc k < N" for e k c
  proof -
    have en: "entries w e = Some \<lparr>wconn = c, has_sched = True\<rparr>" and ag: "aged N k e w" using D(4) [OF that(1)] by simp_all
    then have "k = N - 1" using that(2) by (auto simp: aged_def)
    with aged_evict [OF D(1) _ en, of alive] ag w'(1) show ?thesis by auto
  qed
  obtain dead where dead: "\<And>e. entries w' e = (if e \<in> set dead then None else entries w e)"
    "closing w' = closing w @ map (\<lambda>e. wconn (the (entries w e))) (filter (\<lambda>e. \<exists>en. entries w e = Some en \<and> alive (wconn en) \<and> has_sched en) dead)"
    by (rule wheel_tick_closing [OF D(1) w'(1)]) blast
  have none: "entries w' e = None" if "S e = None" for e using dead(1) [of e] D(3) [OF that] by simp
  have kill: "e \<in> set dead \<longleftrightarrow> N \<le> Suc k" if e: "S e = Some (k, c)" for e k c
    using live [OF e] gone [OF e] dead(1) [of e] D(4) [OF e] by (cases "Suc k < N") (auto split: if_splits)
  have "c \<in> (\<lambda>e. wconn (the (entries w e))) ` {e \<in> set dead. \<exists>en. entries w e = Some en \<and> alive (wconn en) \<and> has_sched en}
      \<longleftrightarrow> alive c \<and> (\<exists>e k. S e = Some (k, c) \<and> N \<le> Suc k)" (is "c \<in> ?l \<longleftrightarrow> ?r") for c
  proof
    assume "c \<in> ?l"
    then obtain e en where "e \<in> set dead" "entries w e = Some en" "alive (wconn en)" "c = wconn en" by auto
    with D(5) [of e en] kill [of e] show ?r by blast
  next
    assume ?r
    then obtain e k where "alive c" "S e = Some (k, c)" "N \<le> Suc k" by blast
    with D(4) [of e k c] kill [of e k c] show "c \<in> ?l" by (intro image_eqI [of _ _ e]) auto
  qed
  then have cl: "set (closing w') = C \<union> {c. alive c \<and> (\<exists>e k. S e = Some (k, c) \<and> N \<le> Suc k)}"
    unfolding dead(2) using D(2) by (simp add: set_eq_iff)
  have "shows_ages N (idle_event N (Tick alive) (S, C)) w'"
    unfolding idle_event.simps
  proof (rule shows_agesI [OF w'(2) cl])
    fix e assume "(case S e of None \<Rightarrow> None | Some (k, c) \<Rightarrow> if Suc k < N then Some (Suc k, c) else None) = None"
    then show "entries w' e = None" using none [of e] gone [of e] by (auto split: option.splits prod.splits if_splits)
  next
    fix e k c assume "(case S e of None \<Rightarrow> None | Some (k, c) \<Rightarrow> if Suc k < N then Some (Suc k, c) else None) = Some (k, c)"
    then obtain j where "S e = Some (j, c)" "Suc j < N" "k = Suc j" by (auto split: option.splits prod.splits if_splits)
    then show "entries w' e = Some \<lparr>wconn = c, has_sched = True\<rparr> \<and> aged N k e w'" using live D(4) by metis
  qed
  then show ?thesis using w'(1) by blast
qed

lemma shows_ages_step:
  assumes R: "shows_ages N T w"
  shows "\<exists>w'. wheel_step v w = Inr w' \<and> shows_ages N (idle_event N v T) w'"
proof -
  obtain S C where T: "T = (S, C)" by fastforce
  note R = R [unfolded T] and D = shows_agesD [OF R [unfolded T]]
  show ?thesis
  proof (cases v)
    case (Tick alive)
    then show ?thesis using shows_ages_tick [OF R] by (simp add: T)
  next
    case (Register c e)
    then show ?thesis using register_conn_ok [OF D(1), of c e] shows_ages_insert [OF R] by (fastforce simp: T)
  next
    case (Refresh e)
    show ?thesis
    proof (cases "S e")
      case None
      then show ?thesis using Refresh D(3) R by (simp add: refresh_weak_def T)
    next
      case (Some x)
      then obtain k c where x: "S e = Some (k, c)" by (cases x) auto
      note en = D(4) [OF x]
      obtain w' where w': "refresh (Some e) w = Inr w'" "wheel_ok N w'" "closing w' = closing w" "entries w' = entries w"
        "bucket_list w' = butlast (bucket_list w) @ [bucket_insert e (last (bucket_list w))]"
        using refresh_ok [OF D(1), of e] en by auto
      have "entries w' = (entries w)(e \<mapsto> \<lparr>wconn = c, has_sched = True\<rparr>)" using w'(4) en by auto
      from shows_ages_insert [OF R w'(2,3) this w'(5)] w'(1) show ?thesis
        using Refresh en x by (simp add: refresh_weak_def T)
    qed
  qed
qed

lemma shows_ages_run:
  "shows_ages N T w \<Longrightarrow> \<exists>w'. wheel_run vs w = Inr w' \<and> shows_ages N (fold (idle_event N) vs T) w'"
proof (induction vs arbitrary: w T)
  case (Cons v vs)
  from shows_ages_step [OF Cons.prems, of v] Cons.IH show ?case by fastforce
qed simp

text \<open>
  C13: The wheel keeps the ages.  A wheel as the constructor builds it for \<open>idle\<close> seconds and \<open>start\<close>
  starts it runs through any sequence of registrations, renewals and ticks without an error; at every
  point its live entries, with their connections, are exactly those that were registered or renewed
  fewer than \<open>N\<close> ticks ago, the ring holds \<open>N\<close> buckets, every pointer count is the number of buckets
  that hold the entry, and the connections asked to close are those still alive when their entry
  reached the age of \<open>N\<close> ticks.
\<close>

theorem wheel_keeps_ages:
  assumes "N = (if idle > 0 then nat idle else 1)" and "N \<le> vec_max" and "N \<le> m"
  shows "\<exists>w0 w. wheel_new m idle = Inr w0 \<and> wheel_run vs (wheel_start w0) = Inr w
    \<and> (\<forall>e. entries w e = map_option (\<lambda>(k, c). \<lparr>wconn = c, has_sched = True\<rparr>) (fst (idle_ages N vs) e))
    \<and> set (closing w) = snd (idle_ages N vs)
    \<and> length (bucket_list w) = N \<and> (\<forall>e. uses w e = holders e (bucket_list w))"
proof -
  obtain w0 where w0: "wheel_new m idle = Inr w0" "wheel_ok N w0" "closing w0 = []" "entries w0 = Map.empty"
    using wheel_new_ok [OF assms] by blast
  have "shows_ages N (Map.empty, {}) (wheel_start w0)"
    by (rule shows_agesI) (use w0 in \<open>simp_all add: wheel_start_def wheel_ok_def\<close>)
  from shows_ages_run [OF this, of vs] obtain w where
    w: "wheel_run vs (wheel_start w0) = Inr w" "shows_ages N (idle_ages N vs) w" by (auto simp: idle_ages_def)
  obtain S C where SC: "idle_ages N vs = (S, C)" by fastforce
  note D = shows_agesD [OF w(2) [unfolded SC]]
  have "entries w e = map_option (\<lambda>(k, c). \<lparr>wconn = c, has_sched = True\<rparr>) (S e)" for e
    using D(3) [of e] D(4) [of e] by (cases "S e") auto
  then show ?thesis using w0(1) w(1) D(1,2) wheel_okD(3) [OF D(1)] by (auto simp: SC wheel_ok_def)
qed

theorem wheel_keeps_ages_witness:
  "\<exists>w0 w. wheel_new 100 2 = Inr w0
     \<and> wheel_run [Register 40 7, Tick (\<lambda>_. True), Register 41 8, Refresh 8, Tick (\<lambda>_. True)] (wheel_start w0) = Inr w
     \<and> entries w 7 = None \<and> entries w 8 = Some \<lparr>wconn = 41, has_sched = True\<rparr> \<and> set (closing w) = {40}"
  using wheel_keeps_ages [of 2 2 100 "[Register 40 7, Tick (\<lambda>_. True), Register 41 8, Refresh 8, Tick (\<lambda>_. True)]"]
  by (auto simp: idle_ages_def vec_max_def split: if_splits)

end
