(* ===== verification/Timer_Queue.thy ===== *)
theory Timer_Queue
  imports Coro_Prelude "HOL-Library.Product_Lexorder"
begin

text \<open>
  \<open>Timer\<close>, \<open>TimerId\<close> and \<open>TimerQueue\<close> (\<open>timer/timer.hpp\<close>,
  \<open>timer/timer_id.hpp\<close>, \<open>timer/timer_queue.hpp\<close>, \<open>src/timer/timer_queue.cc\<close>).
  Timer objects live in an explicit heap, so that reading or deleting a freed object is an
  error of the model.  The memory allocator, the steady clock and the code of the callbacks are
  parameters (\<open>env\<close>): a callback may call back into the queue while \<open>handle_expired\<close> runs it,
  and it may do something else every time it runs, so \<open>does env cb n\<close> gives the queue operations of
  \<open>cb\<close> when it is the \<open>n\<close>-th callback of the queue to run.  The list \<open>fired\<close> records which
  timers' callbacks have run.
\<close>

section \<open>State\<close>

type_synonym addr = nat      \<comment> \<open>\<open>Timer*\<close>, 0 is \<open>nullptr\<close>\<close>
type_synonym seqno = nat     \<comment> \<open>\<open>TimerSequence\<close>, 64 bits\<close>
type_synonym callback = nat  \<comment> \<open>a \<open>std::function<void()>\<close>\<close>
type_synonym time = int      \<comment> \<open>nanoseconds of the steady clock, 64 bits signed\<close>

record timer_id =
  tid_timer :: addr
  tid_seq :: seqno

definition tid_valid :: "timer_id \<Rightarrow> bool" where
  "tid_valid i \<longleftrightarrow> tid_timer i \<noteq> 0"

text \<open>What a run of a callback does: queue operations in order; \<open>CbThrow\<close> leaves it by an exception.\<close>

datatype cb_action =
    CbAdd callback time
  | CbAddPeriodic callback time
  | CbCancel timer_id
  | CbThrow

record timer =
  callback :: callback
  expiration :: time
  interval :: time
  repeats :: bool
  tsequence :: seqno

definition timer_new :: "callback \<Rightarrow> time \<Rightarrow> time \<Rightarrow> seqno \<Rightarrow> timer" where
  "timer_new cb when iv seq =
     \<lparr>callback = cb, expiration = when, interval = iv, repeats = (iv > 0), tsequence = seq\<rparr>"

definition timer_restart :: "time \<Rightarrow> timer \<Rightarrow> timer" where
  "timer_restart now t = t\<lparr>expiration := i64 (now + interval t)\<rparr>"

record timer_queue =
  heap :: "addr \<rightharpoonup> timer"
  timers :: "(time \<times> addr) list"       \<comment> \<open>\<open>std::set<Entry>\<close>, in order\<close>
  active :: "seqno \<rightharpoonup> addr"
  next_seq :: seqno
  calling_expired :: bool
  canceling_seqs :: "seqno list"
  tv_sec :: int                          \<comment> \<open>last specification given to \<open>timerfd_settime\<close>\<close>
  tv_nsec :: int
  set_at :: time                         \<comment> \<open>clock reading it was computed from\<close>
  clk :: nat                             \<comment> \<open>number of clock readings so far\<close>
  fired :: "seqno list"

record env =
  clock :: "nat \<Rightarrow> time"
  alloc :: "(addr \<rightharpoonup> timer) \<Rightarrow> addr"
  does :: "callback \<Rightarrow> nat \<Rightarrow> cb_action list"

datatype tq_error = UseAfterFree

definition tq_init :: timer_queue where
  "tq_init = \<lparr>heap = Map.empty, timers = [], active = Map.empty, next_seq = 1,
     calling_expired = False, canceling_seqs = [], tv_sec = 0, tv_nsec = 0, set_at = 0,
     clk = 0, fired = []\<rparr>"

section \<open>Operations\<close>

definition reset_timerfd :: "env \<Rightarrow> time \<Rightarrow> timer_queue \<Rightarrow> timer_queue" where
  "reset_timerfd env when q =
     (let now = clock env (clk q);
          delta = i64 (when - now);
          ns = (if delta \<le> 0 then 1 else delta)
      in q\<lparr>clk := Suc (clk q), set_at := now,
           tv_sec := c_div ns 1000000000, tv_nsec := c_mod ns 1000000000\<rparr>)"

definition disarm_timerfd :: "timer_queue \<Rightarrow> timer_queue" where
  "disarm_timerfd q = q\<lparr>tv_sec := 0, tv_nsec := 0\<rparr>"

text \<open>\<open>std::set::insert\<close> is \<^const>\<open>insort_insert\<close>, \<open>erase\<close> is \<^const>\<open>remove1\<close>.\<close>

definition tq_insert :: "env \<Rightarrow> callback \<Rightarrow> time \<Rightarrow> time \<Rightarrow> timer_queue \<Rightarrow> timer_id \<times> timer_queue" where
  "tq_insert env cb delay iv q =
     (let when = i64 (clock env (clk q) + delay);
          seq = next_seq q;
          a = alloc env (heap q);
          top = (timers q = [] \<or> when < fst (hd (timers q)));
          q1 = q\<lparr>clk := Suc (clk q), next_seq := sz_add seq 1,
                 heap := (heap q)(a \<mapsto> timer_new cb when iv seq),
                 timers := insort_insert (when, a) (timers q),
                 active := (active q)(seq \<mapsto> a)\<rparr>
      in (\<lparr>tid_timer = a, tid_seq = seq\<rparr>, if top then reset_timerfd env when q1 else q1))"

definition tq_add :: "env \<Rightarrow> callback \<Rightarrow> time \<Rightarrow> timer_queue \<Rightarrow> timer_id \<times> timer_queue" where
  "tq_add env cb delay q = tq_insert env cb delay 0 q"

definition tq_add_periodic :: "env \<Rightarrow> callback \<Rightarrow> time \<Rightarrow> timer_queue \<Rightarrow> timer_id \<times> timer_queue" where
  "tq_add_periodic env cb iv q = tq_insert env cb iv iv q"

text \<open>\<open>cancel\<close> from the point where the timer has been found in \<open>active_\<close>.\<close>

definition cancel_found :: "env \<Rightarrow> seqno \<Rightarrow> addr \<Rightarrow> timer \<Rightarrow> timer_queue \<Rightarrow> timer_queue" where
  "cancel_found env s a t q =
     (let was_top = (timers q \<noteq> [] \<and> snd (hd (timers q)) = a);
          q1 = q\<lparr>timers := remove1 (expiration t, a) (timers q), active := (active q)(s := None)\<rparr>;
          q2 = (if calling_expired q1 then q1\<lparr>canceling_seqs := canceling_seqs q1 @ [s]\<rparr> else q1);
          q3 = q2\<lparr>heap := (heap q2)(a := None)\<rparr>
      in if was_top
         then if timers q3 = [] then disarm_timerfd q3
              else reset_timerfd env (fst (hd (timers q3))) q3
         else q3)"

definition tq_cancel :: "env \<Rightarrow> timer_id \<Rightarrow> timer_queue \<Rightarrow> tq_error + timer_queue" where
  "tq_cancel env i q =
     (if \<not> tid_valid i then Inr q
      else case active q (tid_seq i) of
        None \<Rightarrow> Inr (if calling_expired q
                     then q\<lparr>canceling_seqs := canceling_seqs q @ [tid_seq i]\<rparr> else q)
      | Some a \<Rightarrow>
          (case heap q a of
             None \<Rightarrow> Inl UseAfterFree
           | Some t \<Rightarrow> Inr (cancel_found env (tid_seq i) a t q)))"

text \<open>Running a callback; the exception of \<open>CbThrow\<close> is caught by \<open>handle_expired\<close>.\<close>

fun run_callback :: "env \<Rightarrow> cb_action list \<Rightarrow> timer_queue \<Rightarrow> tq_error + timer_queue" where
  "run_callback env [] q = Inr q"
| "run_callback env (CbAdd cb d # as) q = run_callback env as (snd (tq_add env cb d q))"
| "run_callback env (CbAddPeriodic cb d # as) q = run_callback env as (snd (tq_add_periodic env cb d q))"
| "run_callback env (CbCancel i # as) q = rbind (tq_cancel env i q) (run_callback env as)"
| "run_callback env (CbThrow # as) q = Inr q"

text \<open>The first loop of \<open>handle_expired\<close>: it erases due timers from the set and from \<open>active_\<close>.\<close>

fun pop_expired :: "time \<Rightarrow> (addr \<rightharpoonup> timer) \<Rightarrow> (time \<times> addr) list \<Rightarrow> (seqno \<rightharpoonup> addr) \<Rightarrow>
    tq_error + (addr list \<times> (time \<times> addr) list \<times> (seqno \<rightharpoonup> addr))" where
  "pop_expired now h [] act = Inr ([], [], act)"
| "pop_expired now h ((when, a) # ts) act =
     (if when > now then Inr ([], (when, a) # ts, act)
      else case h a of None \<Rightarrow> Inl UseAfterFree
      | Some t \<Rightarrow> rbind (pop_expired now h ts (act(tsequence t := None)))
          (\<lambda>(ex, ts', act'). Inr (a # ex, ts', act')))"

text \<open>The second loop: \<open>t->run()\<close> for every expired timer.\<close>

fun run_expired :: "env \<Rightarrow> addr list \<Rightarrow> timer_queue \<Rightarrow> tq_error + timer_queue" where
  "run_expired env [] q = Inr q"
| "run_expired env (a # as) q =
     (case heap q a of None \<Rightarrow> Inl UseAfterFree
      | Some t \<Rightarrow> rbind (run_callback env (does env (callback t) (length (fired q))) (q\<lparr>fired := fired q @ [tsequence t]\<rparr>))
          (run_expired env as))"

text \<open>The third loop: repeat timers that were not cancelled go back, the others are deleted.\<close>

fun reinsert_expired :: "time \<Rightarrow> addr list \<Rightarrow> timer_queue \<Rightarrow> tq_error + timer_queue" where
  "reinsert_expired now [] q = Inr q"
| "reinsert_expired now (a # as) q =
     (case heap q a of None \<Rightarrow> Inl UseAfterFree
      | Some t \<Rightarrow>
          if repeats t \<and> tsequence t \<notin> set (canceling_seqs q)
          then (let t' = timer_restart now t in
                reinsert_expired now as
                  (q\<lparr>heap := (heap q)(a \<mapsto> t'),
                     timers := insort_insert (expiration t', a) (timers q),
                     active := (active q)(tsequence t' \<mapsto> a)\<rparr>))
          else reinsert_expired now as (q\<lparr>heap := (heap q)(a := None)\<rparr>))"

definition handle_expired :: "env \<Rightarrow> timer_queue \<Rightarrow> tq_error + timer_queue" where
  "handle_expired env q =
     (let now = clock env (clk q) in
      rbind (pop_expired now (heap q) (timers q) (active q)) (\<lambda>(ex, ts, act).
      rbind (run_expired env ex (q\<lparr>clk := Suc (clk q), timers := ts, active := act,
                                   calling_expired := True\<rparr>)) (\<lambda>q1.
      rbind (reinsert_expired now ex (q1\<lparr>calling_expired := False\<rparr>)) (\<lambda>q2.
      let q3 = q2\<lparr>canceling_seqs := []\<rparr> in
      Inr (if timers q3 = [] then disarm_timerfd q3
           else reset_timerfd env (fst (hd (timers q3))) q3)))))"

text \<open>The destructor deletes every timer of the set.\<close>

fun delete_all :: "(time \<times> addr) list \<Rightarrow> (addr \<rightharpoonup> timer) \<Rightarrow> tq_error + (addr \<rightharpoonup> timer)" where
  "delete_all [] h = Inr h"
| "delete_all ((w, a) # ts) h = (if h a = None then Inl UseAfterFree else delete_all ts (h(a := None)))"

definition tq_destroy :: "timer_queue \<Rightarrow> tq_error + (addr \<rightharpoonup> timer)" where
  "tq_destroy q = delete_all (timers q) (heap q)"

section \<open>Invariant\<close>

text \<open>
  \<open>F\<close> lists the timers in flight: expired, taken out of the set and of \<open>active_\<close>,
  but not yet deleted.  All other live timers are in the set under their expiration time
  and in \<open>active_\<close> under their sequence number, and sequence numbers are unique.
\<close>

definition tq_inv :: "addr list \<Rightarrow> timer_queue \<Rightarrow> bool" where
  "tq_inv F q \<longleftrightarrow>
     sorted (timers q) \<and> distinct (timers q)
   \<and> (\<forall>w a. (w, a) \<in> set (timers q) \<longleftrightarrow> (\<exists>t. heap q a = Some t \<and> expiration t = w \<and> a \<notin> set F))
   \<and> (\<forall>s a. active q s = Some a \<longleftrightarrow> (\<exists>t. heap q a = Some t \<and> tsequence t = s \<and> a \<notin> set F))
   \<and> distinct F \<and> set F \<subseteq> dom (heap q)
   \<and> heap q 0 = None \<and> finite (dom (heap q))
   \<and> (\<forall>a t. heap q a = Some t \<longrightarrow> tsequence t < next_seq q)
   \<and> (\<forall>a b t u. heap q a = Some t \<longrightarrow> heap q b = Some u \<longrightarrow> tsequence t = tsequence u \<longrightarrow> a = b)"

definition env_ok :: "env \<Rightarrow> bool" where
  "env_ok env \<longleftrightarrow> (\<forall>h. finite (dom h) \<longrightarrow> h (alloc env h) = None \<and> alloc env h \<noteq> 0)"

lemma tq_invD:
  assumes "tq_inv F q"
  shows "sorted (timers q)" "distinct (timers q)"
    "\<And>w a. (w, a) \<in> set (timers q) \<longleftrightarrow> (\<exists>t. heap q a = Some t \<and> expiration t = w \<and> a \<notin> set F)"
    "\<And>s a. active q s = Some a \<longleftrightarrow> (\<exists>t. heap q a = Some t \<and> tsequence t = s \<and> a \<notin> set F)"
    "distinct F" "set F \<subseteq> dom (heap q)" "heap q 0 = None" "finite (dom (heap q))"
    "\<And>a t. heap q a = Some t \<Longrightarrow> tsequence t < next_seq q"
    "\<And>a b t u. heap q a = Some t \<Longrightarrow> heap q b = Some u \<Longrightarrow> tsequence t = tsequence u \<Longrightarrow> a = b"
  using assms unfolding tq_inv_def by blast+

lemma tq_invI:
  assumes "sorted (timers q)" "distinct (timers q)"
    "\<And>w a. (w, a) \<in> set (timers q) \<longleftrightarrow> (\<exists>t. heap q a = Some t \<and> expiration t = w \<and> a \<notin> set F)"
    "\<And>s a. active q s = Some a \<longleftrightarrow> (\<exists>t. heap q a = Some t \<and> tsequence t = s \<and> a \<notin> set F)"
    "distinct F" "set F \<subseteq> dom (heap q)" "heap q 0 = None" "finite (dom (heap q))"
    "\<And>a t. heap q a = Some t \<Longrightarrow> tsequence t < next_seq q"
    "\<And>a b t u. heap q a = Some t \<Longrightarrow> heap q b = Some u \<Longrightarrow> tsequence t = tsequence u \<Longrightarrow> a = b"
  shows "tq_inv F q"
  unfolding tq_inv_def using assms by (intro conjI allI impI) blast+

lemma tq_inv_init: "tq_inv [] tq_init"
  by (simp add: tq_inv_def tq_init_def)

text \<open>The invariant does not depend on the clock, the timerfd and the bookkeeping of a batch.\<close>

lemma tq_inv_frame:
  "heap q' = heap q \<Longrightarrow> timers q' = timers q \<Longrightarrow> active q' = active q \<Longrightarrow>
   next_seq q' = next_seq q \<Longrightarrow> tq_inv F q \<Longrightarrow> tq_inv F q'"
  by (simp add: tq_inv_def)

lemma reset_timerfd_simps [simp]:
  "heap (reset_timerfd env w q) = heap q" "timers (reset_timerfd env w q) = timers q"
  "active (reset_timerfd env w q) = active q" "next_seq (reset_timerfd env w q) = next_seq q"
  "calling_expired (reset_timerfd env w q) = calling_expired q"
  "canceling_seqs (reset_timerfd env w q) = canceling_seqs q"
  "fired (reset_timerfd env w q) = fired q"
  by (simp_all add: reset_timerfd_def Let_def)

lemma disarm_timerfd_simps [simp]:
  "heap (disarm_timerfd q) = heap q" "timers (disarm_timerfd q) = timers q"
  "active (disarm_timerfd q) = active q" "next_seq (disarm_timerfd q) = next_seq q"
  "calling_expired (disarm_timerfd q) = calling_expired q"
  "canceling_seqs (disarm_timerfd q) = canceling_seqs q"
  "fired (disarm_timerfd q) = fired q"
  by (simp_all add: disarm_timerfd_def)

subsection \<open>Adding\<close>

lemma tq_insert_simps:
  assumes "tq_insert env cb d iv q = (i, q')"
  shows "heap q' = (heap q)(alloc env (heap q) \<mapsto> timer_new cb (i64 (clock env (clk q) + d)) iv (next_seq q))"
    "timers q' = insort_insert (i64 (clock env (clk q) + d), alloc env (heap q)) (timers q)"
    "active q' = (active q)(next_seq q \<mapsto> alloc env (heap q))"
    "next_seq q' = sz_add (next_seq q) 1"
    "calling_expired q' = calling_expired q" "canceling_seqs q' = canceling_seqs q"
    "fired q' = fired q"
    "i = \<lparr>tid_timer = alloc env (heap q), tid_seq = next_seq q\<rparr>"
  using assms by (auto simp: tq_insert_def Let_def split: if_splits)

lemma tq_insert_inv:
  assumes env: "env_ok env" and inv: "tq_inv F q" and seq: "next_seq q < sz_max"
    and ins: "tq_insert env cb d iv q = (i, q')"
  shows "tq_inv F q'" and "next_seq q' = Suc (next_seq q)"
    and "\<And>b t. heap q b = Some t \<Longrightarrow> heap q' b = Some t"
proof -
  note S = tq_insert_simps [OF ins] and I = tq_invD [OF inv]
  let ?a = "alloc env (heap q)"
  have a: "heap q ?a = None" "?a \<noteq> 0" using env I(8) by (auto simp: env_ok_def)
  then have aF: "?a \<notin> set F" using I(6) by auto
  show n: "next_seq q' = Suc (next_seq q)" using seq by (simp add: S sz_add_le)
  show "heap q' b = Some t" if "heap q b = Some t" for b t using that a by (auto simp: S)
  have tl: "(w, b) \<in> set (timers q') \<longleftrightarrow> (\<exists>t. heap q' b = Some t \<and> expiration t = w \<and> b \<notin> set F)"
    for w b
    using I(3) [of w b] a aF by (auto simp: S set_insort_insert timer_new_def)
  have act: "active q' s = Some b \<longleftrightarrow> (\<exists>t. heap q' b = Some t \<and> tsequence t = s \<and> b \<notin> set F)" for s b
    using I(4) [of s b] I(9) [of b] a aF by (auto simp: S timer_new_def)
  have lt: "tsequence t < next_seq q'" if "heap q' b = Some t" for b t
    using that I(9) [of b t] by (auto simp: n S timer_new_def split: if_splits)
  have inj: "b = c" if "heap q' b = Some t" "heap q' c = Some u" "tsequence t = tsequence u" for b c t u
    using that I(9) I(10) [of b t c u] by (fastforce simp: S timer_new_def split: if_splits)
  show "tq_inv F q'"
  proof (rule tq_invI [OF _ _ tl act I(5) _ _ _ lt inj])
    show "sorted (timers q')" "distinct (timers q')"
      using I(1,2) by (simp_all add: S sorted_insort_insert distinct_insort_insert)
    show "set F \<subseteq> dom (heap q')" using I(6) by (auto simp: S)
    show "heap q' 0 = None" "finite (dom (heap q'))" using I(7,8) a by (simp_all add: S)
  qed
qed

subsection \<open>Cancelling\<close>

lemma cancel_found_simps [simp]:
  "heap (cancel_found env s a t q) = (heap q)(a := None)"
  "timers (cancel_found env s a t q) = remove1 (expiration t, a) (timers q)"
  "active (cancel_found env s a t q) = (active q)(s := None)"
  "next_seq (cancel_found env s a t q) = next_seq q"
  "fired (cancel_found env s a t q) = fired q"
  "calling_expired (cancel_found env s a t q) = calling_expired q"
  "canceling_seqs (cancel_found env s a t q)
     = canceling_seqs q @ (if calling_expired q then [s] else [])"
  by (auto simp: cancel_found_def Let_def)

lemma cancel_found_inv:
  assumes inv: "tq_inv F q" and a: "heap q a = Some t" "tsequence t = s" "a \<notin> set F"
  shows "tq_inv F (cancel_found env s a t q)"
proof -
  note I = tq_invD [OF inv]
  have uniq: "(w, a) \<in> set (timers q) \<Longrightarrow> w = expiration t" for w using I(3) [of w a] a by auto
  have useq: "heap q b = Some u \<Longrightarrow> tsequence u = s \<Longrightarrow> b = a" for b u
    using I(10) [of b u a t] a by auto
  show ?thesis
  proof (rule tq_invI, simp_all only: cancel_found_simps)
    show "sorted (remove1 (expiration t, a) (timers q))" "distinct (remove1 (expiration t, a) (timers q))"
      using I(1,2) by (simp_all add: sorted_remove1)
    show "(w, b) \<in> set (remove1 (expiration t, a) (timers q))
        \<longleftrightarrow> (\<exists>u. ((heap q)(a := None)) b = Some u \<and> expiration u = w \<and> b \<notin> set F)" for w b
    proof (cases "b = a")
      case True
      then show ?thesis using I(2) uniq [of w] by (auto simp: set_remove1_eq)
    next
      case False
      then show ?thesis using I(2) I(3) [of w b] by (simp add: set_remove1_eq)
    qed
    show "((active q)(s := None)) s' = Some b
        \<longleftrightarrow> (\<exists>u. ((heap q)(a := None)) b = Some u \<and> tsequence u = s' \<and> b \<notin> set F)" for s' b
    proof (cases "s' = s")
      case True
      then show ?thesis using useq [of b] by auto
    next
      case False
      then have "b = a \<Longrightarrow> active q s' \<noteq> Some b" using I(4) [of s' b] a by auto
      then show ?thesis using False I(4) [of s' b] by auto
    qed
    show "distinct F" by (rule I(5))
    show "set F \<subseteq> dom ((heap q)(a := None))" using I(6) a by auto
    show "((heap q)(a := None)) 0 = None" "finite (dom ((heap q)(a := None)))" using I(7,8) by auto
    show "tsequence u < next_seq q" if "((heap q)(a := None)) b = Some u" for b u
      using that I(9) [of b u] by (auto split: if_splits)
    show "b = c" if "((heap q)(a := None)) b = Some u" "((heap q)(a := None)) c = Some v"
      "tsequence u = tsequence v" for b c u v
      using that I(10) [of b u c v] by (auto split: if_splits)
  qed
qed

lemma tq_cancel_inv:
  assumes inv: "tq_inv F q"
  shows "\<exists>q'. tq_cancel env i q = Inr q' \<and> tq_inv F q' \<and> next_seq q' = next_seq q
     \<and> fired q' = fired q \<and> calling_expired q' = calling_expired q
     \<and> (\<forall>a \<in> set F. heap q' a = heap q a) \<and> (\<forall>a t. heap q' a = Some t \<longrightarrow> heap q a = Some t)"
proof (cases "tid_valid i \<and> active q (tid_seq i) \<noteq> None")
  case True
  then obtain a where a: "active q (tid_seq i) = Some a" by auto
  then obtain t where t: "heap q a = Some t" "tsequence t = tid_seq i" "a \<notin> set F"
    using tq_invD(4) [OF inv] by blast
  have "tq_cancel env i q = Inr (cancel_found env (tid_seq i) a t q)"
    using True a t by (simp add: tq_cancel_def)
  then show ?thesis
    using cancel_found_inv [OF inv t] t by (auto split: if_splits)
next
  case False
  then have "tq_cancel env i q = Inr q
      \<or> tq_cancel env i q = Inr (q\<lparr>canceling_seqs := canceling_seqs q @ [tid_seq i]\<rparr>)"
    by (auto simp: tq_cancel_def)
  moreover have "tq_inv F (q\<lparr>canceling_seqs := canceling_seqs q @ [tid_seq i]\<rparr>)"
    by (rule tq_inv_frame [OF _ _ _ _ inv]) simp_all
  ultimately show ?thesis using inv by auto
qed

subsection \<open>Callbacks\<close>

text \<open>The actions a callback reaches before it throws, its additions and its cancellations.\<close>

fun is_add :: "cb_action \<Rightarrow> bool" where
  "is_add (CbAdd cb d) = True"
| "is_add (CbAddPeriodic cb d) = True"
| "is_add _ = False"

definition executed :: "cb_action list \<Rightarrow> cb_action list" where
  "executed as = takeWhile (\<lambda>x. x \<noteq> CbThrow) as"

definition cb_adds :: "cb_action list \<Rightarrow> nat" where
  "cb_adds as = length (filter is_add as)"

definition cb_cancels :: "cb_action list \<Rightarrow> seqno set" where
  "cb_cancels as = {tid_seq i | i. CbCancel i \<in> set (executed as) \<and> tid_valid i}"

lemma cb_cancels_simps [simp]:
  "cb_cancels [] = {}"
  "cb_cancels (CbAdd cb d # as) = cb_cancels as"
  "cb_cancels (CbAddPeriodic cb d # as) = cb_cancels as"
  "cb_cancels (CbCancel i # as) = (if tid_valid i then {tid_seq i} else {}) \<union> cb_cancels as"
  "cb_cancels (CbThrow # as) = {}"
  by (auto simp: cb_cancels_def executed_def)

lemma cb_adds_simps [simp]:
  "cb_adds [] = 0"
  "cb_adds (CbAdd cb d # as) = Suc (cb_adds as)"
  "cb_adds (CbAddPeriodic cb d # as) = Suc (cb_adds as)"
  "cb_adds (CbCancel i # as) = cb_adds as"
  "cb_adds (CbThrow # as) = cb_adds as"
  by (simp_all add: cb_adds_def)

text \<open>What running user code inside a batch leaves of the queue: the frame of one callback.\<close>

definition cb_frame :: "addr list \<Rightarrow> nat \<Rightarrow> seqno set \<Rightarrow> timer_queue \<Rightarrow> timer_queue \<Rightarrow> bool" where
  "cb_frame F n C q q' \<longleftrightarrow>
     tq_inv F q' \<and> next_seq q \<le> next_seq q' \<and> next_seq q' \<le> next_seq q + n
   \<and> fired q' = fired q \<and> calling_expired q'
   \<and> set (canceling_seqs q') = set (canceling_seqs q) \<union> C
   \<and> (\<forall>a \<in> set F. heap q' a = heap q a)
   \<and> (\<forall>a t. heap q' a = Some t \<longrightarrow> heap q a = Some t \<or> next_seq q \<le> tsequence t)
   \<and> (\<forall>a t. heap q' a = Some t \<longrightarrow> a \<notin> set F \<longrightarrow> tsequence t \<in> C \<longrightarrow> next_seq q \<le> tsequence t)"

lemma cb_frame_trans:
  assumes "cb_frame F n C q q1" and "cb_frame F m D q1 q2"
  shows "cb_frame F (n + m) (C \<union> D) q q2"
proof -
  have "next_seq q \<le> tsequence t" if "heap q2 a = Some t" "a \<notin> set F" "tsequence t \<in> C \<union> D" for a t
    using assms that unfolding cb_frame_def by (meson UnE le_trans)
  moreover have "heap q a = Some t \<or> next_seq q \<le> tsequence t" if "heap q2 a = Some t" for a t
    using assms that unfolding cb_frame_def by (meson le_trans)
  ultimately show ?thesis using assms unfolding cb_frame_def by (simp add: Un_assoc)
qed

lemma cb_frameD:
  assumes "cb_frame F n C q q'"
  shows "tq_inv F q'" "calling_expired q'" "next_seq q' \<le> next_seq q + n" "next_seq q \<le> next_seq q'"
    "fired q' = fired q" "set (canceling_seqs q') = set (canceling_seqs q) \<union> C"
    "\<And>a. a \<in> set F \<Longrightarrow> heap q' a = heap q a"
    "\<And>a t. heap q' a = Some t \<Longrightarrow> heap q a = Some t \<or> next_seq q \<le> tsequence t"
    "\<And>a t. heap q' a = Some t \<Longrightarrow> a \<notin> set F \<Longrightarrow> tsequence t \<in> C \<Longrightarrow> next_seq q \<le> tsequence t"
  using assms unfolding cb_frame_def by blast+

lemma cb_frame_insert:
  assumes "env_ok env" and "tq_inv F q" and "next_seq q < sz_max" and "calling_expired q"
    and "tq_insert env cb d iv q = (i, q')"
  shows "cb_frame F 1 {} q q'"
proof -
  note S = tq_insert_simps [OF assms(5)] and V = tq_insert_inv [OF assms(1-3,5)]
  have "heap q' a = heap q a" if "a \<in> set F" for a
    using that V(3) tq_invD(6) [OF assms(2)] by fastforce
  moreover have "heap q a = Some t \<or> next_seq q \<le> tsequence t" if "heap q' a = Some t" for a t
    using that by (auto simp: S timer_new_def split: if_splits)
  ultimately show ?thesis using V assms(4) by (simp add: cb_frame_def S(5-7))
qed

lemma cb_frame_cancel:
  assumes inv: "tq_inv F q" and c: "calling_expired q"
  shows "\<exists>q'. tq_cancel env i q = Inr q'
           \<and> cb_frame F 0 (if tid_valid i then {tid_seq i} else {}) q q'"
proof -
  obtain q' where q': "tq_cancel env i q = Inr q'" "tq_inv F q'" "next_seq q' = next_seq q"
      "fired q' = fired q" "calling_expired q' = calling_expired q"
      "\<forall>a \<in> set F. heap q' a = heap q a" "\<forall>a t. heap q' a = Some t \<longrightarrow> heap q a = Some t"
    using tq_cancel_inv [OF inv, of env i] by blast
  have "set (canceling_seqs q') = set (canceling_seqs q) \<union> (if tid_valid i then {tid_seq i} else {})"
    using q'(1) c by (auto simp: tq_cancel_def split: option.splits if_splits)
  moreover have "tsequence t \<noteq> tid_seq i" if "tid_valid i" "heap q' a = Some t" "a \<notin> set F" for a t
  proof
    assume "tsequence t = tid_seq i"
    then have "active q' (tid_seq i) = Some a" using tq_invD(4) [OF q'(2)] that by auto
    then show False using q'(1) that(1) by (auto simp: tq_cancel_def split: option.splits if_splits)
  qed
  ultimately have "cb_frame F 0 (if tid_valid i then {tid_seq i} else {}) q q'"
    unfolding cb_frame_def using q'(2-5) c
    by (intro conjI q'(6) allI impI disjI1) (auto simp: q'(7) split: if_splits)
  with q'(1) show ?thesis by blast
qed

lemma run_callback_frame:
  "env_ok env \<Longrightarrow> tq_inv F q \<Longrightarrow> calling_expired q \<Longrightarrow> next_seq q + cb_adds as \<le> sz_max \<Longrightarrow>
     \<exists>q'. run_callback env as q = Inr q' \<and> cb_frame F (cb_adds as) (cb_cancels as) q q'"
proof (induction env as q rule: run_callback.induct)
  case (1 env q)
  then show ?case by (simp add: cb_frame_def)
next
  case (2 env cb d as q)
  obtain i q1 where q1: "tq_insert env cb d 0 q = (i, q1)" by fastforce
  have f1: "cb_frame F 1 {} q q1"
    by (rule cb_frame_insert [OF 2(2,3) _ 2(4) q1]) (use 2(5) in simp)
  have s: "snd (tq_add env cb d q) = q1" using q1 by (simp add: tq_add_def)
  have "\<exists>q'. run_callback env as q1 = Inr q' \<and> cb_frame F (cb_adds as) (cb_cancels as) q1 q'"
    by (rule 2(1) [unfolded s]) (use 2(2,5) cb_frameD [OF f1] in simp_all)
  then show ?case using cb_frame_trans [OF f1] s by auto
next
  case (3 env cb d as q)
  obtain i q1 where q1: "tq_insert env cb d d q = (i, q1)" by fastforce
  have f1: "cb_frame F 1 {} q q1"
    by (rule cb_frame_insert [OF 3(2,3) _ 3(4) q1]) (use 3(5) in simp)
  have s: "snd (tq_add_periodic env cb d q) = q1" using q1 by (simp add: tq_add_periodic_def)
  have "\<exists>q'. run_callback env as q1 = Inr q' \<and> cb_frame F (cb_adds as) (cb_cancels as) q1 q'"
    by (rule 3(1) [unfolded s]) (use 3(2,5) cb_frameD [OF f1] in simp_all)
  then show ?case using cb_frame_trans [OF f1] s by auto
next
  case (4 env i as q)
  obtain q1 where q1: "tq_cancel env i q = Inr q1"
      and f1: "cb_frame F 0 (if tid_valid i then {tid_seq i} else {}) q q1"
    using cb_frame_cancel [OF 4(3,4)] by blast
  have "\<exists>q'. run_callback env as q1 = Inr q' \<and> cb_frame F (cb_adds as) (cb_cancels as) q1 q'"
    by (rule 4(1)) (use 4(2,5) cb_frameD [OF f1] in simp_all)
  then show ?case using cb_frame_trans [OF f1] q1 by auto
next
  case (5 env as q)
  then show ?case by (auto simp: cb_frame_def)
qed

subsection \<open>The three loops of a batch\<close>

definition due :: "time \<Rightarrow> timer_queue \<Rightarrow> addr list" where
  "due now q = map snd (takeWhile (\<lambda>(w, a). w \<le> now) (timers q))"

definition timer_at :: "timer_queue \<Rightarrow> addr \<Rightarrow> timer" where
  "timer_at q a = the (heap q a)"

text \<open>What the callbacks of a batch do, the first of them being the \<open>n\<close>-th to run.\<close>

fun batch_runs :: "env \<Rightarrow> timer_queue \<Rightarrow> nat \<Rightarrow> addr list \<Rightarrow> cb_action list list" where
  "batch_runs env q n [] = []"
| "batch_runs env q n (a # as) = does env (callback (timer_at q a)) n # batch_runs env q (Suc n) as"

definition batch_adds :: "env \<Rightarrow> timer_queue \<Rightarrow> addr list \<Rightarrow> nat" where
  "batch_adds env q F = sum_list (map cb_adds (batch_runs env q (length (fired q)) F))"

definition batch_cancels :: "env \<Rightarrow> timer_queue \<Rightarrow> addr list \<Rightarrow> seqno set" where
  "batch_cancels env q F = (\<Union>as \<in> set (batch_runs env q (length (fired q)) F). cb_cancels as)"

lemma pop_expired_eq:
  "(\<And>w a. (w, a) \<in> set ts \<Longrightarrow> h a \<noteq> None) \<Longrightarrow>
   pop_expired now h ts act
     = Inr (map snd (takeWhile (\<lambda>(w, a). w \<le> now) ts), dropWhile (\<lambda>(w, a). w \<le> now) ts,
            \<lambda>s. if s \<in> (\<lambda>(w, a). tsequence (the (h a))) ` set (takeWhile (\<lambda>(w, a). w \<le> now) ts)
                then None else act s)"
proof (induction now h ts act rule: pop_expired.induct)
  case (1 now h act)
  then show ?case by simp
next
  case (2 now h w a ts act)
  obtain t where t: "h a = Some t" using "2.prems" [of w a] by auto
  show ?case
  proof (cases "w > now")
    case True
    then show ?thesis by simp
  next
    case False
    have "pop_expired now h ts (act(tsequence t := None))
       = Inr (map snd (takeWhile (\<lambda>(w, a). w \<le> now) ts), dropWhile (\<lambda>(w, a). w \<le> now) ts,
            \<lambda>s. if s \<in> (\<lambda>(w, a). tsequence (the (h a))) ` set (takeWhile (\<lambda>(w, a). w \<le> now) ts)
                then None else (act(tsequence t := None)) s)"
      by (rule "2.IH" [OF False t]) (use "2.prems" in auto)
    with False t show ?thesis by (auto simp: fun_eq_iff)
  qed
qed

lemma popped_inv:
  assumes inv: "tq_inv [] q"
  shows "\<exists>act. pop_expired now (heap q) (timers q) (active q)
      = Inr (due now q, dropWhile (\<lambda>(w, a). w \<le> now) (timers q), act)
    \<and> tq_inv (due now q) (q\<lparr>clk := k, timers := dropWhile (\<lambda>(w, a). w \<le> now) (timers q),
        active := act, calling_expired := b\<rparr>)"
proof -
  note I = tq_invD [OF inv]
  let ?P = "\<lambda>(w, a). w \<le> now" and ?q = "\<lambda>act. q\<lparr>clk := k, timers := dropWhile (\<lambda>(w, a). w \<le> now) (timers q),
        active := act, calling_expired := b\<rparr>"
  have tm: "(w, a) \<in> set (timers q) \<longleftrightarrow> (\<exists>t. heap q a = Some t \<and> expiration t = w)" for w a
    using I(3) by simp
  define act where "act = (\<lambda>s. if s \<in> (\<lambda>(w, a). tsequence (the (heap q a))) ` set (takeWhile ?P (timers q))
                then None else active q s)"
  have split: "timers q = takeWhile ?P (timers q) @ dropWhile ?P (timers q)" by simp
  have sub: "(w, a) \<in> set (takeWhile ?P (timers q)) \<Longrightarrow> (w, a) \<in> set (timers q)" for w a
    by (metis set_takeWhileD)
  have due_iff: "a \<in> set (due now q) \<longleftrightarrow> (\<exists>t. heap q a = Some t \<and> (expiration t, a) \<in> set (takeWhile ?P (timers q)))" for a
  proof -
    have "a \<in> set (due now q) \<longleftrightarrow> (\<exists>w. (w, a) \<in> set (takeWhile ?P (timers q)))"
      by (force simp: due_def)
    then show ?thesis using sub tm by metis
  qed
  have drop_iff: "(w, a) \<in> set (dropWhile ?P (timers q)) \<longleftrightarrow>
      (\<exists>t. heap q a = Some t \<and> expiration t = w \<and> a \<notin> set (due now q))" for w a
  proof -
    have "(w, a) \<in> set (timers q) \<longleftrightarrow> (w, a) \<in> set (takeWhile ?P (timers q)) \<or> (w, a) \<in> set (dropWhile ?P (timers q))"
      by (metis Un_iff set_append split)
    moreover have "\<not> ((w, a) \<in> set (takeWhile ?P (timers q)) \<and> (w, a) \<in> set (dropWhile ?P (timers q)))"
      using I(2) by (metis disjoint_iff distinct_append split)
    ultimately show ?thesis using tm [of w a] due_iff [of a] by auto
  qed
  have act_iff: "act s = Some a \<longleftrightarrow> (\<exists>t. heap q a = Some t \<and> tsequence t = s \<and> a \<notin> set (due now q))" for s a
  proof -
    have "s \<in> (\<lambda>(w, a). tsequence (the (heap q a))) ` set (takeWhile ?P (timers q))
        \<longleftrightarrow> (\<exists>b u. heap q b = Some u \<and> tsequence u = s \<and> b \<in> set (due now q))"
      (is "?L = ?R")
    proof
      assume ?L
      then obtain w b where "(w, b) \<in> set (takeWhile ?P (timers q))" "s = tsequence (the (heap q b))" by auto
      then show ?R using sub tm due_iff by fastforce
    next
      assume ?R
      then obtain b u where "heap q b = Some u" "tsequence u = s"
        "(expiration u, b) \<in> set (takeWhile ?P (timers q))" using due_iff by auto
      then show ?L by (intro image_eqI [of _ _ "(expiration u, b)"]) auto
    qed
    then have none: "act s = (if ?R then None else active q s)" by (simp only: act_def)
    show ?thesis
    proof (cases ?R)
      case True
      then obtain b u where b: "heap q b = Some u" "tsequence u = s" "b \<in> set (due now q)" by blast
      have "a \<in> set (due now q)" if "heap q a = Some t" "tsequence t = s" for t
        using I(10) [OF that(1) b(1)] that(2) b(2,3) by simp
      with none True show ?thesis by auto
    next
      case False
      with none I(4) [of s a] show ?thesis by auto
    qed
  qed
  have dist: "distinct (due now q)"
    unfolding due_def
  proof (subst distinct_map, intro conjI inj_onI)
    show "distinct (takeWhile ?P (timers q))" using I(2) by (rule distinct_takeWhile)
    fix x y assume "x \<in> set (takeWhile ?P (timers q))" "y \<in> set (takeWhile ?P (timers q))" "snd x = snd y"
    then show "x = y" using tm set_takeWhileD by (metis option.inject prod.collapse)
  qed
  have "tq_inv (due now q) (?q act)"
  proof (rule tq_invI)
    show "sorted (timers (?q act))" "distinct (timers (?q act))"
      using I(1,2) by (simp_all add: sorted_dropWhile)
    show "(w, a) \<in> set (timers (?q act))
        \<longleftrightarrow> (\<exists>t. heap (?q act) a = Some t \<and> expiration t = w \<and> a \<notin> set (due now q))" for w a
      using drop_iff [of w a] by simp
    show "active (?q act) s = Some a
        \<longleftrightarrow> (\<exists>t. heap (?q act) a = Some t \<and> tsequence t = s \<and> a \<notin> set (due now q))" for s a
      using act_iff [of s a] by simp
    show "set (due now q) \<subseteq> dom (heap (?q act))" using due_iff by auto
  qed (use I(7-10) dist in simp_all)
  moreover have "pop_expired now (heap q) (timers q) (active q) = Inr (due now q, dropWhile ?P (timers q), act)"
    unfolding act_def due_def by (rule pop_expired_eq) (use tm in auto)
  ultimately show ?thesis by blast
qed


lemma cb_frame_fired:
  "cb_frame F n C q q' \<Longrightarrow> cb_frame F n C (q\<lparr>fired := fired q @ xs\<rparr>) (q'\<lparr>fired := fired q' @ xs\<rparr>)"
  unfolding cb_frame_def by (auto simp: tq_inv_def)

lemma batch_runs_cong:
  "(\<And>a. a \<in> set as \<Longrightarrow> heap q' a = heap q a) \<Longrightarrow> batch_runs env q' n as = batch_runs env q n as"
  by (induction as arbitrary: n) (simp_all add: timer_at_def)

lemma batch_cong:
  assumes "\<And>a. a \<in> set as \<Longrightarrow> heap q' a = heap q a" and "fired q' = fired q"
  shows "batch_adds env q' as = batch_adds env q as" "batch_cancels env q' as = batch_cancels env q as"
    "map (\<lambda>a. tsequence (timer_at q' a)) as = map (\<lambda>a. tsequence (timer_at q a)) as"
  using assms batch_runs_cong [OF assms(1), of as env] by (auto simp: batch_adds_def batch_cancels_def timer_at_def cong: map_cong)

lemma batch_Cons:
  assumes "heap q a = Some t" and "\<And>b. b \<in> set as \<Longrightarrow> heap q1 b = heap q b" and "length (fired q1) = Suc (length (fired q))"
  shows "batch_adds env q (a # as) = cb_adds (does env (callback t) (length (fired q))) + batch_adds env q1 as"
    "batch_cancels env q (a # as) = cb_cancels (does env (callback t) (length (fired q))) \<union> batch_cancels env q1 as"
  using assms(1,3) batch_runs_cong [OF assms(2)] by (simp_all add: batch_adds_def batch_cancels_def timer_at_def)

lemma batch_adds_prefix:
  "heap q a = Some t \<Longrightarrow> cb_adds (does env (callback t) (length (fired q))) \<le> batch_adds env q (a # as)"
  by (simp add: batch_adds_def timer_at_def)

lemma run_expired_frame:
  "env_ok env \<Longrightarrow> tq_inv F q \<Longrightarrow> calling_expired q \<Longrightarrow> set as \<subseteq> set F \<Longrightarrow>
   next_seq q + batch_adds env q as \<le> sz_max \<Longrightarrow>
     \<exists>q'. run_expired env as q = Inr q' \<and>
       cb_frame F (batch_adds env q as) (batch_cancels env q as)
         (q\<lparr>fired := fired q @ map (\<lambda>a. tsequence (timer_at q a)) as\<rparr>) q'"
proof (induction as arbitrary: q)
  case Nil
  then show ?case by (simp add: cb_frame_def batch_adds_def batch_cancels_def)
next
  case (Cons a as)
  obtain t where t: "heap q a = Some t" using tq_invD(6) [OF Cons.prems(2)] Cons.prems(4) by auto
  let ?q0 = "q\<lparr>fired := fired q @ [tsequence t]\<rparr>" and ?s = "map (\<lambda>a. tsequence (timer_at q a)) as"
  let ?does = "does env (callback t) (length (fired q))"
  have "tq_inv F ?q0" by (rule tq_inv_frame [OF _ _ _ _ Cons.prems(2)]) simp_all
  then obtain q1 where q1: "run_callback env ?does ?q0 = Inr q1"
      and f1: "cb_frame F (cb_adds ?does) (cb_cancels ?does) ?q0 q1"
    using run_callback_frame [OF Cons.prems(1), of F ?q0 ?does] Cons.prems(3,5) batch_adds_prefix [OF t, of env as] by auto
  note D = cb_frameD [OF f1]
  have h: "heap q1 b = heap q b" if "b \<in> set as" for b using D(7) [of b] that Cons.prems(4) by auto
  have "length (fired q1) = Suc (length (fired q))" using D(5) by simp
  note ba = batch_Cons [where as = as and env = env, OF t h this]
  have ts: "map (\<lambda>a. tsequence (timer_at q1 a)) as = ?s" using h by (auto simp: timer_at_def)
  obtain q' where q': "run_expired env as q1 = Inr q'"
      and f2: "cb_frame F (batch_adds env q1 as) (batch_cancels env q1 as) (q1\<lparr>fired := fired q1 @ ?s\<rparr>) q'"
    using Cons.IH [OF Cons.prems(1) D(1,2)] Cons.prems(4,5) D(3) ba by (auto simp: ts)
  have "cb_frame F (batch_adds env q (a # as)) (batch_cancels env q (a # as)) (?q0\<lparr>fired := fired ?q0 @ ?s\<rparr>) q'"
    using cb_frame_trans [OF cb_frame_fired [OF f1] f2] by (simp only: ba)
  moreover have "?q0\<lparr>fired := fired ?q0 @ ?s\<rparr>
      = q\<lparr>fired := fired q @ map (\<lambda>a. tsequence (timer_at q a)) (a # as)\<rparr>"
    using t by (simp add: timer_at_def)
  ultimately show ?case using t q1 q' by auto
qed

text \<open>What the third loop makes of a timer in flight.\<close>

definition rearmed :: "time \<Rightarrow> seqno set \<Rightarrow> timer \<Rightarrow> timer option" where
  "rearmed now C t = (if repeats t \<and> tsequence t \<notin> C then Some (timer_restart now t) else None)"

lemma reinsert_step_inv:
  assumes inv: "tq_inv (a # F) q" and t: "heap q a = Some t"
  shows "tq_inv F (q\<lparr>heap := (heap q)(a \<mapsto> timer_restart now t),
      timers := insort_insert (expiration (timer_restart now t), a) (timers q),
      active := (active q)(tsequence (timer_restart now t) \<mapsto> a)\<rparr>)" (is "tq_inv F ?q")
    and "tq_inv F (q\<lparr>heap := (heap q)(a := None)\<rparr>)"
proof -
  note I = tq_invD [OF inv]
  let ?t = "timer_restart now t"
  have seq: "tsequence ?t = tsequence t" by (simp add: timer_restart_def)
  have aF: "a \<notin> set F" "distinct F" using I(5) by auto
  have na: "(w, a) \<notin> set (timers q)" for w using I(3) [of w a] by auto
  have ns: "active q s \<noteq> Some a" for s using I(4) [of s a] by auto
  have us: "b = a" if "heap q b = Some u" "tsequence u = tsequence t" for b u
    using I(10) [OF that(1) t that(2)] .
  have nt: "active q (tsequence t) = None"
    using I(4) [of "tsequence t"] us by (metis list.set_intros(1) not_None_eq)
  show "tq_inv F ?q"
  proof (rule tq_invI)
    show "sorted (timers ?q)" "distinct (timers ?q)"
      using I(1,2) by (simp_all add: sorted_insort_insert distinct_insort_insert)
    show "(w, b) \<in> set (timers ?q) \<longleftrightarrow> (\<exists>t. heap ?q b = Some t \<and> expiration t = w \<and> b \<notin> set F)" for w b
      using I(3) [of w b] na [of w] aF by (auto simp: set_insort_insert)
    show "active ?q s = Some b \<longleftrightarrow> (\<exists>t. heap ?q b = Some t \<and> tsequence t = s \<and> b \<notin> set F)" for s b
      using I(4) [of s b] ns [of s] us [of b] aF by (auto simp: seq)
    show "distinct F" by (rule aF)
    show "set F \<subseteq> dom (heap ?q)" using I(6) by auto
    have "a \<noteq> 0" using I(7) t by (metis option.distinct(1))
    then show "heap ?q 0 = None" "finite (dom (heap ?q))" using I(7,8) by auto
    show "tsequence u < next_seq ?q" if "heap ?q b = Some u" for b u
      using that I(9) [of b u] I(9) [OF t] by (auto simp: seq split: if_splits)
    show "b = c" if "heap ?q b = Some u" "heap ?q c = Some v" "tsequence u = tsequence v" for b c u v
      using that I(10) [of b u c v] us [of b u] us [of c v] by (auto simp: seq split: if_splits)
  qed
  show "tq_inv F (q\<lparr>heap := (heap q)(a := None)\<rparr>)" (is "tq_inv F ?d")
  proof (rule tq_invI)
    show "sorted (timers ?d)" "distinct (timers ?d)" using I(1,2) by simp_all
    show "(w, b) \<in> set (timers ?d) \<longleftrightarrow> (\<exists>t. heap ?d b = Some t \<and> expiration t = w \<and> b \<notin> set F)" for w b
      using I(3) [of w b] by auto
    show "active ?d s = Some b \<longleftrightarrow> (\<exists>t. heap ?d b = Some t \<and> tsequence t = s \<and> b \<notin> set F)" for s b
      using I(4) [of s b] by auto
    show "distinct F" by (rule aF)
    show "set F \<subseteq> dom (heap ?d)" using I(6) aF by auto
    show "heap ?d 0 = None" "finite (dom (heap ?d))" using I(7,8) by auto
    show "tsequence u < next_seq ?d" if "heap ?d b = Some u" for b u
      using that I(9) [of b u] by (auto split: if_splits)
    show "b = c" if "heap ?d b = Some u" "heap ?d c = Some v" "tsequence u = tsequence v" for b c u v
      using that I(10) [of b u c v] by (auto split: if_splits)
  qed
qed

lemma reinsert_expired_inv:
  "tq_inv as q \<Longrightarrow>
     \<exists>q'. reinsert_expired now as q = Inr q' \<and> tq_inv [] q'
       \<and> fired q' = fired q \<and> next_seq q' = next_seq q \<and> calling_expired q' = calling_expired q
       \<and> (\<forall>b. heap q' b = (if b \<in> set as then rearmed now (set (canceling_seqs q)) (timer_at q b)
                            else heap q b))"
proof (induction as arbitrary: q)
  case Nil
  then show ?case by simp
next
  case (Cons a as)
  obtain t where t: "heap q a = Some t" using tq_invD(6) [OF Cons.prems] by auto
  have a: "a \<notin> set as" using tq_invD(5) [OF Cons.prems] by simp
  note S = reinsert_step_inv(1) [OF Cons.prems t, of now] reinsert_step_inv(2) [OF Cons.prems t]
  show ?case
  proof (cases "repeats t \<and> tsequence t \<notin> set (canceling_seqs q)")
    case True
    then show ?thesis using Cons.IH [OF S(1)] t a by (auto simp: Let_def timer_at_def rearmed_def)
  next
    case False
    then have "reinsert_expired now (a # as) q = reinsert_expired now as (q\<lparr>heap := (heap q)(a := None)\<rparr>)"
      using t by auto
    with False show ?thesis using Cons.IH [OF S(2)] t a by (auto simp: timer_at_def rearmed_def)
  qed
qed


section \<open>The timer descriptor\<close>

text \<open>
  The specification last written to the descriptor: disarmed when no timer is queued,
  otherwise the distance from the clock reading to the earliest expiration, at least one
  nanosecond.
\<close>

definition tq_armed :: "timer_queue \<Rightarrow> bool" where
  "tq_armed q \<longleftrightarrow>
     (if timers q = [] then tv_sec q = 0 \<and> tv_nsec q = 0
      else let ns = max 1 (i64 (fst (hd (timers q)) - set_at q))
           in tv_sec q = ns div 1000000000 \<and> tv_nsec q = ns mod 1000000000)"

lemma reset_timerfd_armed:
  assumes "timers q \<noteq> []"
  shows "tq_armed (reset_timerfd env (fst (hd (timers q))) q)"
proof -
  let ?ns = "max 1 (i64 (fst (hd (timers q)) - clock env (clk q)))"
  have "(if d \<le> 0 then 1 else d) = max 1 d" for d :: int by simp
  then have "tv_sec (reset_timerfd env (fst (hd (timers q))) q) = c_div ?ns 1000000000
      \<and> tv_nsec (reset_timerfd env (fst (hd (timers q))) q) = c_mod ?ns 1000000000
      \<and> set_at (reset_timerfd env (fst (hd (timers q))) q) = clock env (clk q)"
    unfolding reset_timerfd_def Let_def by simp
  then show ?thesis using assms by (simp add: tq_armed_def Let_def c_div_nonneg c_mod_nonneg)
qed

lemma settle_timerfd_armed:
  "tq_armed (if timers q = [] then disarm_timerfd q else reset_timerfd env (fst (hd (timers q))) q)"
  by (simp add: reset_timerfd_armed) (simp add: tq_armed_def disarm_timerfd_def)

lemma tq_armed_cong:
  "timers q' = [] \<longleftrightarrow> timers q = [] \<Longrightarrow> (timers q \<noteq> [] \<Longrightarrow> fst (hd (timers q')) = fst (hd (timers q))) \<Longrightarrow>
   tv_sec q' = tv_sec q \<Longrightarrow> tv_nsec q' = tv_nsec q \<Longrightarrow> set_at q' = set_at q \<Longrightarrow> tq_armed q \<Longrightarrow> tq_armed q'"
  by (simp add: tq_armed_def Let_def split: if_splits)

lemma fst_hd_insort_insert:
  assumes "sorted xs"
  shows "xs = [] \<or> w < fst (hd xs) \<Longrightarrow> fst (hd (insort_insert (w, a) xs)) = w"
    and "\<not> (xs = [] \<or> w < fst (hd xs)) \<Longrightarrow> fst (hd (insort_insert (w, a) xs)) = fst (hd xs)"
proof -
  assume top: "xs = [] \<or> w < fst (hd xs)"
  show "fst (hd (insort_insert (w, a) xs)) = w"
  proof (cases xs)
    case Nil
    then show ?thesis by (simp add: insort_insert_key_def)
  next
    case (Cons x ys)
    then have "(w, a) < x" using top by (cases x) simp
    moreover from this have "(w, a) \<notin> set xs" using assms Cons by auto
    ultimately show ?thesis using Cons less_imp_le [of "(w, a)" x] by (simp add: insort_insert_key_def)
  qed
next
  assume "\<not> (xs = [] \<or> w < fst (hd xs))"
  then show "fst (hd (insort_insert (w, a) xs)) = fst (hd xs)"
    by (cases xs) (auto simp: insort_insert_key_def)
qed

lemma tq_insert_armed:
  assumes "sorted (timers q)" and "tq_armed q" and "tq_insert env cb d iv q = (i, q')"
  shows "tq_armed q'"
proof -
  let ?w = "i64 (clock env (clk q) + d)" and ?a = "alloc env (heap q)"
  let ?q = "q\<lparr>clk := Suc (clk q), next_seq := sz_add (next_seq q) 1,
                 heap := (heap q)(?a \<mapsto> timer_new cb ?w iv (next_seq q)),
                 timers := insort_insert (?w, ?a) (timers q),
                 active := (active q)(next_seq q \<mapsto> ?a)\<rparr>"
  let ?top = "timers q = [] \<or> ?w < fst (hd (timers q))"
  have q': "q' = (if ?top then reset_timerfd env ?w ?q else ?q)"
    using assms(3) unfolding tq_insert_def Let_def prod.inject by (elim conjE) (rule sym)
  have ne: "timers ?q \<noteq> []" by (auto simp: insort_insert_key_def insort_not_Nil)
  show ?thesis
  proof (cases ?top)
    case True
    then have "fst (hd (timers ?q)) = ?w" using fst_hd_insort_insert(1) [OF assms(1)] by simp
    with True show ?thesis using reset_timerfd_armed [OF ne, of env] q' by simp
  next
    case False
    then have "q' = ?q" using q' by (simp only: if_False)
    moreover have "tq_armed ?q"
      by (rule tq_armed_cong [OF _ _ _ _ _ assms(2)])
        (use False ne fst_hd_insort_insert(2) [OF assms(1) False, of ?a] in simp_all)
    ultimately show ?thesis by simp
  qed
qed

lemma cancel_found_armed:
  assumes "tq_armed q"
  shows "tq_armed (cancel_found env s a t q)"
proof -
  let ?q = "q\<lparr>timers := remove1 (expiration t, a) (timers q), active := (active q)(s := None),
      canceling_seqs := canceling_seqs q @ (if calling_expired q then [s] else []),
      heap := (heap q)(a := None)\<rparr>"
  let ?top = "timers q \<noteq> [] \<and> snd (hd (timers q)) = a"
  have eq: "cancel_found env s a t q =
      (if ?top then if timers ?q = [] then disarm_timerfd ?q else reset_timerfd env (fst (hd (timers ?q))) ?q
       else ?q)"
    by (simp add: cancel_found_def Let_def)
  show ?thesis
  proof (cases ?top)
    case True
    then show ?thesis unfolding eq using settle_timerfd_armed [of ?q env] by (simp only: if_True simp_thms)
  next
    case False
    have "tq_armed ?q"
      by (rule tq_armed_cong [OF _ _ _ _ _ assms]) (use False in \<open>cases "timers q"; auto\<close>)+
    with False show ?thesis unfolding eq by (simp only: if_False)
  qed
qed

lemma tq_cancel_armed:
  "tq_armed q \<Longrightarrow> tq_cancel env i q = Inr q' \<Longrightarrow> tq_armed q'"
  by (auto simp: tq_cancel_def cancel_found_armed split: if_splits option.splits)
    (simp add: tq_armed_def)

section \<open>A whole batch\<close>

lemma handle_expired_spec:
  assumes env: "env_ok env" and inv: "tq_inv [] q" and c: "canceling_seqs q = []"
    and now: "now = clock env (clk q)" and F: "F = due now q"
    and cap: "next_seq q + batch_adds env q F \<le> sz_max"
  shows "\<exists>q'. handle_expired env q = Inr q' \<and> tq_inv [] q' \<and> \<not> calling_expired q'
     \<and> canceling_seqs q' = [] \<and> tq_armed q' \<and> next_seq q \<le> next_seq q'
     \<and> fired q' = fired q @ map (\<lambda>a. tsequence (timer_at q a)) F
     \<and> (\<forall>a \<in> set F. heap q' a = rearmed now (batch_cancels env q F) (timer_at q a))
     \<and> (\<forall>a t. heap q' a = Some t \<longrightarrow> a \<notin> set F \<longrightarrow> heap q a = Some t \<or> next_seq q \<le> tsequence t)
     \<and> (\<forall>a t. heap q' a = Some t \<longrightarrow> a \<notin> set F \<longrightarrow> tsequence t \<in> batch_cancels env q F \<longrightarrow> next_seq q \<le> tsequence t)"
proof -
  obtain act where pop: "pop_expired now (heap q) (timers q) (active q)
        = Inr (F, dropWhile (\<lambda>(w, a). w \<le> now) (timers q), act)"
      and inv1: "tq_inv F (q\<lparr>clk := Suc (clk q), timers := dropWhile (\<lambda>(w, a). w \<le> now) (timers q),
        active := act, calling_expired := True\<rparr>)" (is "tq_inv F ?q1")
    using popped_inv [OF inv, where now = now and k = "Suc (clk q)" and b = True] F by blast
  have b: "batch_adds env ?q1 F = batch_adds env q F" "batch_cancels env ?q1 F = batch_cancels env q F"
    "map (\<lambda>a. tsequence (timer_at ?q1 a)) F = map (\<lambda>a. tsequence (timer_at q a)) F"
    by (rule batch_cong; simp)+
  obtain q2 where run: "run_expired env F ?q1 = Inr q2"
      and f: "cb_frame F (batch_adds env q F) (batch_cancels env q F)
         (?q1\<lparr>fired := fired q @ map (\<lambda>a. tsequence (timer_at q a)) F\<rparr>) q2"
    using run_expired_frame [OF env inv1 _ subset_refl, unfolded b] cap by auto
  note D = cb_frameD [OF f]
  have inv2: "tq_inv F (q2\<lparr>calling_expired := False\<rparr>)" by (rule tq_inv_frame [OF _ _ _ _ D(1)]) simp_all
  obtain q3 where re: "reinsert_expired now F (q2\<lparr>calling_expired := False\<rparr>) = Inr q3"
      and inv3: "tq_inv [] q3" and r: "fired q3 = fired q2" "next_seq q3 = next_seq q2" "\<not> calling_expired q3"
      and h: "\<And>b. heap q3 b = (if b \<in> set F then rearmed now (set (canceling_seqs q2)) (timer_at q2 b)
                            else heap q2 b)"
    using reinsert_expired_inv [OF inv2, of now] by (auto simp: timer_at_def)
  let ?q4 = "q3\<lparr>canceling_seqs := []\<rparr>"
  let ?q5 = "if timers ?q4 = [] then disarm_timerfd ?q4 else reset_timerfd env (fst (hd (timers ?q4))) ?q4"
  have res: "handle_expired env q = Inr ?q5"
    unfolding handle_expired_def Let_def now [symmetric] pop rbind_Inr prod.case run re ..
  have heq: "heap ?q5 = heap q3" by simp
  have "tq_inv [] ?q5" by (rule tq_inv_frame [OF _ _ _ _ inv3]) simp_all
  moreover have "heap ?q5 a = rearmed now (batch_cancels env q F) (timer_at q a)" if "a \<in> set F" for a
    unfolding heq using that h [of a] D(6) D(7) [of a] c by (simp add: timer_at_def)
  moreover have "heap q a = Some t \<or> next_seq q \<le> tsequence t" if "heap ?q5 a = Some t" "a \<notin> set F" for a t
    using that h [of a] D(8) [of a t] unfolding heq by simp
  moreover have "next_seq q \<le> tsequence t" if "heap ?q5 a = Some t" "a \<notin> set F" "tsequence t \<in> batch_cancels env q F" for a t
    using that h [of a] D(9) [of a t] unfolding heq by simp
  moreover have "tq_armed ?q5" by (rule settle_timerfd_armed)
  moreover have "fired ?q5 = fired q @ map (\<lambda>a. tsequence (timer_at q a)) F" "next_seq q \<le> next_seq ?q5"
    "\<not> calling_expired ?q5" "canceling_seqs ?q5 = []"
    using r D(4,5) by simp_all
  ultimately show ?thesis using res by blast
qed


section \<open>Reachable states\<close>

text \<open>
  One operation of the owner thread.  Adding assumes that the 64-bit sequence counter has
  numbers left, for a batch also for the timers its callbacks add.
\<close>

inductive tq_step :: "env \<Rightarrow> timer_queue \<Rightarrow> timer_queue \<Rightarrow> bool" for env where
  step_add: "next_seq q < sz_max \<Longrightarrow> tq_add env cb d q = (i, q') \<Longrightarrow> tq_step env q q'"
| step_periodic: "next_seq q < sz_max \<Longrightarrow> tq_add_periodic env cb iv q = (i, q') \<Longrightarrow> tq_step env q q'"
| step_cancel: "tq_cancel env i q = Inr q' \<Longrightarrow> tq_step env q q'"
| step_expired: "next_seq q + batch_adds env q (due (clock env (clk q)) q) \<le> sz_max \<Longrightarrow>
    handle_expired env q = Inr q' \<Longrightarrow> tq_step env q q'"

definition tq_reach :: "env \<Rightarrow> timer_queue \<Rightarrow> bool" where
  "tq_reach env q \<longleftrightarrow> (tq_step env)\<^sup>*\<^sup>* tq_init q"

definition live_seqs :: "timer_queue \<Rightarrow> seqno set" where
  "live_seqs q = {tsequence t | a t. heap q a = Some t}"

definition tq_ok :: "timer_queue \<Rightarrow> bool" where
  "tq_ok q \<longleftrightarrow> tq_inv [] q \<and> \<not> calling_expired q \<and> canceling_seqs q = [] \<and> tq_armed q"

text \<open>What every step does to the set of live sequence numbers and to the history.\<close>

definition seq_frame :: "timer_queue \<Rightarrow> timer_queue \<Rightarrow> bool" where
  "seq_frame q q' \<longleftrightarrow> next_seq q \<le> next_seq q'
     \<and> (\<forall>s \<in> live_seqs q'. s \<in> live_seqs q \<or> next_seq q \<le> s)
     \<and> (\<exists>xs. fired q' = fired q @ xs \<and> set xs \<subseteq> live_seqs q)"

lemma active_none_iff:
  assumes "tq_inv [] q"
  shows "active q s = None \<longleftrightarrow> s \<notin> live_seqs q"
proof -
  have "(\<exists>a. active q s = Some a) \<longleftrightarrow> s \<in> live_seqs q"
    using tq_invD(4) [OF assms] by (auto simp: live_seqs_def)
  then show ?thesis by auto
qed

lemma insert_step_ok:
  assumes "env_ok env" and ok: "tq_ok q" and "next_seq q < sz_max" and "tq_insert env cb d iv q = (i, q')"
  shows "tq_ok q' \<and> seq_frame q q'"
proof -
  have inv: "tq_inv [] q" and armed: "tq_armed q" using ok by (simp_all add: tq_ok_def)
  note V = tq_insert_inv [OF assms(1) inv assms(3,4)] and S = tq_insert_simps [OF assms(4)]
  have "tq_armed q'" by (rule tq_insert_armed [OF tq_invD(1) [OF inv] armed assms(4)])
  moreover have "s \<in> live_seqs q \<or> next_seq q \<le> s" if "s \<in> live_seqs q'" for s
    using that by (auto simp: live_seqs_def S(1) timer_new_def split: if_splits)
  ultimately show ?thesis using V(1,2) ok by (auto simp: tq_ok_def seq_frame_def S(5-7))
qed

lemma cancel_step_ok:
  assumes ok: "tq_ok q"
  shows "\<exists>q'. tq_cancel env i q = Inr q' \<and> tq_ok q' \<and> seq_frame q q'
     \<and> (tid_valid i \<longrightarrow> tid_seq i \<notin> live_seqs q')"
proof -
  have inv: "tq_inv [] q" using ok by (simp add: tq_ok_def)
  obtain q' where q': "tq_cancel env i q = Inr q'" "tq_inv [] q'" "next_seq q' = next_seq q"
      "fired q' = fired q" "calling_expired q' = calling_expired q"
      "\<forall>a t. heap q' a = Some t \<longrightarrow> heap q a = Some t"
    using tq_cancel_inv [OF inv, of env i] by blast
  have cs: "canceling_seqs q' = []" and act: "tid_valid i \<longrightarrow> active q' (tid_seq i) = None"
    using q'(1) ok by (auto simp: tq_cancel_def tq_ok_def split: if_splits option.splits)
  have "tq_armed q'" using tq_cancel_armed [OF _ q'(1)] ok by (simp add: tq_ok_def)
  moreover have "live_seqs q' \<subseteq> live_seqs q" using q'(6) unfolding live_seqs_def by blast
  moreover have "tid_valid i \<longrightarrow> tid_seq i \<notin> live_seqs q'"
    using act active_none_iff [OF q'(2)] by simp
  ultimately show ?thesis using q'(1-5) cs ok by (auto simp: tq_ok_def seq_frame_def)
qed

lemma due_live:
  assumes "tq_inv [] q" and "a \<in> set (due now q)"
  shows "\<exists>t. heap q a = Some t \<and> timer_at q a = t \<and> expiration t \<le> now"
proof -
  obtain w where "(w, a) \<in> set (takeWhile (\<lambda>(w, a). w \<le> now) (timers q))"
    using assms(2) by (auto simp: due_def)
  then have "(w, a) \<in> set (timers q)" "w \<le> now" by (auto dest: set_takeWhileD)
  then show ?thesis using tq_invD(3) [OF assms(1), of w a] by (auto simp: timer_at_def)
qed

lemma expired_step_ok:
  assumes env: "env_ok env" and ok: "tq_ok q"
    and cap: "next_seq q + batch_adds env q (due (clock env (clk q)) q) \<le> sz_max"
  shows "\<exists>q'. handle_expired env q = Inr q' \<and> tq_ok q' \<and> seq_frame q q'"
proof -
  let ?now = "clock env (clk q)"
  let ?F = "due ?now q"
  have inv: "tq_inv [] q" and c: "canceling_seqs q = []" using ok by (simp_all add: tq_ok_def)
  obtain q' where q': "handle_expired env q = Inr q'" "tq_inv [] q'" "\<not> calling_expired q'"
      "canceling_seqs q' = []" "tq_armed q'" "next_seq q \<le> next_seq q'"
      "fired q' = fired q @ map (\<lambda>a. tsequence (timer_at q a)) ?F"
      "\<And>a. a \<in> set ?F \<Longrightarrow> heap q' a = rearmed ?now (batch_cancels env q ?F) (timer_at q a)"
      "\<And>a t. heap q' a = Some t \<Longrightarrow> a \<notin> set ?F \<Longrightarrow> heap q a = Some t \<or> next_seq q \<le> tsequence t"
    using handle_expired_spec [OF env inv c refl refl cap] by blast
  have live: "tsequence (timer_at q a) \<in> live_seqs q" if "a \<in> set ?F" for a
    using due_live [OF inv that] by (auto simp: live_seqs_def)
  have "tsequence t \<in> live_seqs q \<or> next_seq q \<le> tsequence t" if "heap q' a = Some t" for a t
  proof (cases "a \<in> set ?F")
    case True
    then have "tsequence t = tsequence (timer_at q a)"
      using q'(8) [of a] that by (auto simp: rearmed_def timer_restart_def split: if_splits)
    then show ?thesis using live [OF True] by simp
  next
    case False
    then show ?thesis using q'(9) [OF that] by (auto simp: live_seqs_def)
  qed
  then have "\<forall>s \<in> live_seqs q'. s \<in> live_seqs q \<or> next_seq q \<le> s" by (auto simp: live_seqs_def [of q'])
  then have "seq_frame q q'" using q'(6,7) live unfolding seq_frame_def by auto
  then show ?thesis using q'(1-5) by (auto simp: tq_ok_def)
qed

lemma count_list_distinct: "distinct xs \<Longrightarrow> count_list xs x = (if x \<in> set xs then 1 else 0)"
  by (induction xs) auto

text \<open>A number that a callback of the batch cancelled is out of use after the batch, and ran at most in it.\<close>

lemma expired_cancels:
  assumes env: "env_ok env" and ok: "tq_ok q" and F: "F = due (clock env (clk q)) q"
    and cap: "next_seq q + batch_adds env q F \<le> sz_max"
    and c: "s \<in> batch_cancels env q F" "s < next_seq q" and q': "handle_expired env q = Inr q'"
  shows "s \<notin> live_seqs q'"
    and "count_list (fired q') s = count_list (fired q) s + (if \<exists>a \<in> set F. tsequence (timer_at q a) = s then 1 else 0)"
proof -
  have inv: "tq_inv [] q" "canceling_seqs q = []" using ok by (simp_all add: tq_ok_def)
  have S: "fired q' = fired q @ map (\<lambda>a. tsequence (timer_at q a)) F"
      "\<And>a. a \<in> set F \<Longrightarrow> heap q' a = rearmed (clock env (clk q)) (batch_cancels env q F) (timer_at q a)"
      "\<And>a t. heap q' a = Some t \<Longrightarrow> a \<notin> set F \<Longrightarrow> tsequence t \<in> batch_cancels env q F \<Longrightarrow> next_seq q \<le> tsequence t"
    using handle_expired_spec [OF env inv refl F cap] q' by auto
  show "s \<notin> live_seqs q'"
  proof
    assume "s \<in> live_seqs q'"
    then obtain a t where a: "heap q' a = Some t" "tsequence t = s" by (auto simp: live_seqs_def)
    show False
    proof (cases "a \<in> set F")
      case True
      then show False using S(2) [OF True] a c(1) by (auto simp: rearmed_def timer_restart_def split: if_splits)
    next
      case False
      then show False using S(3) [OF a(1) False] a(2) c by simp
    qed
  qed
  have "inj_on (\<lambda>a. tsequence (timer_at q a)) (set F)"
  proof (rule inj_onI)
    fix a b assume "a \<in> set F" "b \<in> set F" "tsequence (timer_at q a) = tsequence (timer_at q b)"
    then show "a = b" using due_live [OF inv(1)] tq_invD(10) [OF inv(1)] unfolding F by metis
  qed
  moreover have "distinct F" using tq_invD(5) popped_inv [OF inv(1)] unfolding F by blast
  ultimately have d: "distinct (map (\<lambda>a. tsequence (timer_at q a)) F)" by (simp add: distinct_map)
  show "count_list (fired q') s = count_list (fired q) s + (if \<exists>a \<in> set F. tsequence (timer_at q a) = s then 1 else 0)"
    using d by (auto simp: S(1) count_list_distinct image_iff)
qed

lemma tq_step_ok:
  assumes "env_ok env" and "tq_step env q q'" and "tq_ok q"
  shows "tq_ok q' \<and> seq_frame q q'"
  using assms(2)
proof cases
  case (step_add cb d i)
  then show ?thesis using insert_step_ok assms(1,3) by (auto simp: tq_add_def)
next
  case (step_periodic cb iv i)
  then show ?thesis using insert_step_ok assms(1,3) by (auto simp: tq_add_periodic_def)
next
  case (step_cancel i)
  then show ?thesis using cancel_step_ok [OF assms(3), of env i] by auto
next
  case step_expired
  then show ?thesis using expired_step_ok [OF assms(1,3)] by auto
qed

lemma tq_init_ok: "tq_ok tq_init"
  by (simp add: tq_ok_def tq_inv_init) (simp add: tq_init_def tq_armed_def)

lemma tq_steps_ok: "(tq_step env)\<^sup>*\<^sup>* q q' \<Longrightarrow> env_ok env \<Longrightarrow> tq_ok q \<Longrightarrow> tq_ok q'"
  by (induction rule: rtranclp_induct) (auto dest: tq_step_ok)

lemma tq_reach_ok: "env_ok env \<Longrightarrow> tq_reach env q \<Longrightarrow> tq_ok q"
  unfolding tq_reach_def using tq_steps_ok tq_init_ok by blast


text \<open>A number that is out of use stays out of use and its callback does not run again.\<close>

lemma dead_seq_stays_dead:
  assumes "(tq_step env)\<^sup>*\<^sup>* q q'" and "env_ok env" and "tq_ok q"
    and "s < next_seq q" and "s \<notin> live_seqs q"
  shows "s < next_seq q' \<and> s \<notin> live_seqs q' \<and> count_list (fired q') s = count_list (fired q) s"
  using assms(1)
proof (induction rule: rtranclp_induct)
  case base
  then show ?case using assms(4,5) by simp
next
  case (step q1 q2)
  have ok: "tq_ok q1" using tq_steps_ok [OF step.hyps(1) assms(2,3)] .
  have fr: "seq_frame q1 q2" using tq_step_ok [OF assms(2) step.hyps(2) ok] by blast
  then obtain xs where "fired q2 = fired q1 @ xs" "set xs \<subseteq> live_seqs q1"
    unfolding seq_frame_def by blast
  then show ?case using fr step.IH unfolding seq_frame_def
    by (auto simp: count_list_0_iff)
qed

lemma live_iff_queued:
  "tq_inv [] q \<Longrightarrow> a \<in> dom (heap q) \<longleftrightarrow> (\<exists>w. (w, a) \<in> set (timers q))"
  by (auto simp: tq_invD(3))

lemma delete_all_empties:
  "distinct (map snd ts) \<Longrightarrow> dom h = snd ` set ts \<Longrightarrow> delete_all ts h = Inr Map.empty"
proof (induction ts h rule: delete_all.induct)
  case (1 h)
  then show ?case by simp
next
  case (2 w a ts h)
  have d: "distinct (map snd ts)" "a \<notin> snd ` set ts" using 2(2) by auto
  have "a \<in> dom h" unfolding 2(3) by simp
  then have a: "h a \<noteq> None" by auto
  have "dom (h(a := None)) = snd ` set ts" using 2(3) d(2) by simp
  then have "delete_all ts (h(a := None)) = Inr Map.empty" by (rule 2(1) [OF a d(1)])
  with a show ?case by simp
qed

lemma tq_destroy_empties:
  assumes "tq_inv [] q"
  shows "tq_destroy q = Inr Map.empty"
  unfolding tq_destroy_def
proof (rule delete_all_empties)
  note I = tq_invD [OF assms]
  show "distinct (map snd (timers q))"
    by (subst distinct_map, intro conjI I(2) inj_onI) (metis I(3) option.inject prod.collapse)
  show "dom (heap q) = snd ` set (timers q)"
    using live_iff_queued [OF assms] by force
qed

lemma due_sorted:
  assumes "tq_inv [] q"
  shows "sorted (map (\<lambda>a. (expiration (timer_at q a), a)) (due now q))"
proof -
  let ?ts = "takeWhile (\<lambda>(w, a). w \<le> now) (timers q)"
  have "(expiration (timer_at q a), a) = (w, a)" if "(w, a) \<in> set ?ts" for w a
    using that tq_invD(3) [OF assms, of w a] by (auto dest: set_takeWhileD simp: timer_at_def)
  then have "map (\<lambda>a. (expiration (timer_at q a), a)) (map snd ?ts) = ?ts"
    by (auto intro!: map_idI)
  then show ?thesis unfolding due_def using tq_invD(1) [OF assms] by (simp add: sorted_takeWhile)
qed

lemma takeWhile_sorted_pairs:
  "sorted ts \<Longrightarrow> (w :: time, a :: addr) \<in> set ts \<Longrightarrow> w \<le> now \<Longrightarrow> (w, a) \<in> set (takeWhile (\<lambda>(w, a). w \<le> now) ts)"
proof (induction ts)
  case Nil
  then show ?case by simp
next
  case (Cons x xs)
  obtain v b where x: "x = (v, b)" by fastforce
  then have "(v, b) \<le> (w, a)" using Cons.prems(1,2) by (auto simp del: less_eq_prod_simp)
  then have "v \<le> w" by auto
  then show ?case using Cons x by auto
qed

lemma due_set:
  assumes "tq_inv [] q"
  shows "a \<in> set (due now q) \<longleftrightarrow> (\<exists>t. heap q a = Some t \<and> expiration t \<le> now)"
proof
  assume "a \<in> set (due now q)"
  then show "\<exists>t. heap q a = Some t \<and> expiration t \<le> now" using due_live [OF assms] by blast
next
  assume "\<exists>t. heap q a = Some t \<and> expiration t \<le> now"
  then obtain t where t: "heap q a = Some t" "expiration t \<le> now" by blast
  have "(expiration t, a) \<in> set (timers q)" using tq_invD(3) [OF assms] t(1) by simp
  from takeWhile_sorted_pairs [OF tq_invD(1) [OF assms] this t(2)]
  show "a \<in> set (due now q)" by (force simp: due_def)
qed

lemma due_distinct: "tq_inv [] q \<Longrightarrow> distinct (due now q)"
  using popped_inv tq_invD(5) by blast


section \<open>Properties\<close>

text \<open>C14: Memory safety.  In every state the owner thread can reach, \<open>cancel\<close> with any
  handle, \<open>handle_expired\<close> (whatever its callbacks add or cancel) and the destructor touch
  only live timers; the live timers are exactly the queued ones, and destruction frees all.\<close>

theorem timer_queue_memory_safe:
  assumes "env_ok env" and "tq_reach env q"
  shows "(\<exists>q'. tq_cancel env i q = Inr q')
    \<and> (next_seq q + batch_adds env q (due (clock env (clk q)) q) \<le> sz_max
         \<longrightarrow> (\<exists>q'. handle_expired env q = Inr q'))
    \<and> (\<forall>a. heap q a \<noteq> None \<longleftrightarrow> (\<exists>w. (w, a) \<in> set (timers q)))
    \<and> tq_destroy q = Inr Map.empty"
proof -
  have ok: "tq_ok q" and inv: "tq_inv [] q"
    using tq_reach_ok [OF assms] by (simp_all add: tq_ok_def)
  show ?thesis
    using cancel_step_ok [OF ok, of env i] expired_step_ok [OF assms(1) ok]
      live_iff_queued [OF inv] tq_destroy_empties [OF inv] by (auto simp: dom_def)
qed

text \<open>C15: Exactly once, in order.  One call of \<open>handle_expired\<close> runs the callback of every
  timer that is due, once each, by increasing expiration time, and of no other timer.\<close>

theorem handle_expired_fires_due_in_order:
  assumes "env_ok env" and "tq_reach env q" and "now = clock env (clk q)"
    and "next_seq q + batch_adds env q (due now q) \<le> sz_max"
  shows "\<exists>q' F. handle_expired env q = Inr q'
    \<and> fired q' = fired q @ map (\<lambda>a. tsequence (timer_at q a)) F
    \<and> distinct F \<and> sorted (map (\<lambda>a. expiration (timer_at q a)) F)
    \<and> (\<forall>a. a \<in> set F \<longleftrightarrow> (\<exists>t. heap q a = Some t \<and> expiration t \<le> now))"
proof -
  have inv: "tq_inv [] q" "canceling_seqs q = []"
    using tq_reach_ok [OF assms(1,2)] by (simp_all add: tq_ok_def)
  have "sorted (map fst (map (\<lambda>a. (expiration (timer_at q a), a)) (due now q)))"
    using due_sorted [OF inv(1), of now] by (rule sorted_map_mono) (auto simp: mono_on_def)
  then have "sorted (map (\<lambda>a. expiration (timer_at q a)) (due now q))" by (simp add: comp_def)
  then show ?thesis
    using handle_expired_spec [OF assms(1) inv assms(3) refl assms(4)]
      due_distinct [OF inv(1), of now] due_set [OF inv(1), of _ now] by blast
qed

text \<open>C17: Re-arming.  After a batch a due periodic timer is queued again one interval after
  the time the batch read, unless a callback of the batch cancelled it; every other due timer
  is freed.\<close>

theorem handle_expired_rearms:
  assumes "env_ok env" and "tq_reach env q" and "now = clock env (clk q)"
    and "next_seq q + batch_adds env q (due now q) \<le> sz_max"
    and "heap q a = Some t" and "expiration t \<le> now"
  shows "\<exists>q'. handle_expired env q = Inr q'
    \<and> (if repeats t \<and> tsequence t \<notin> batch_cancels env q (due now q)
       then heap q' a = Some (t\<lparr>expiration := i64 (now + interval t)\<rparr>)
            \<and> (i64 (now + interval t), a) \<in> set (timers q') \<and> active q' (tsequence t) = Some a
       else heap q' a = None \<and> active q' (tsequence t) = None)"
proof -
  have inv: "tq_inv [] q" "canceling_seqs q = []"
    using tq_reach_ok [OF assms(1,2)] by (simp_all add: tq_ok_def)
  let ?C = "batch_cancels env q (due now q)"
  have a: "a \<in> set (due now q)" using due_set [OF inv(1)] assms(5,6) by blast
  have at: "timer_at q a = t" using assms(5) by (simp add: timer_at_def)
  obtain q' where q': "handle_expired env q = Inr q'" "tq_inv [] q'" "heap q' a = rearmed now ?C t"
      "\<And>b u. heap q' b = Some u \<Longrightarrow> b \<notin> set (due now q) \<Longrightarrow> heap q b = Some u \<or> next_seq q \<le> tsequence u"
      "\<And>b. b \<in> set (due now q) \<Longrightarrow> heap q' b = rearmed now ?C (timer_at q b)"
    using handle_expired_spec [OF assms(1) inv assms(3) refl assms(4)] a at by metis
  note I = tq_invD [OF inv(1)] and I' = tq_invD [OF q'(2)]
  show ?thesis
  proof (cases "repeats t \<and> tsequence t \<notin> ?C")
    case True
    then have "heap q' a = Some (timer_restart now t)" using q'(3) by (simp add: rearmed_def)
    then show ?thesis using True q'(1) I'(3) [of _ a] I'(4) [of _ a] by (auto simp: timer_restart_def)
  next
    case False
    then have none: "heap q' a = None" using q'(3) by (auto simp: rearmed_def)
    have "b = a" if u: "heap q' b = Some u" "tsequence u = tsequence t" for b u
    proof (cases "b \<in> set (due now q)")
      case True
      then obtain v where "heap q b = Some v" "timer_at q b = v" using due_live [OF inv(1)] by blast
      then show ?thesis using u q'(5) [OF True] I(10) assms(5)
        by (auto simp: rearmed_def timer_restart_def split: if_splits)
    next
      case False
      then show ?thesis using q'(4) [OF u(1)] u(2) I(9) [OF assms(5)] I(10) [OF _ assms(5)] by auto
    qed
    then have "active q' (tsequence t) = None" using I'(4) none by (metis not_None_eq)
    then show ?thesis using False q'(1) none by auto
  qed
qed

text \<open>C18: The descriptor.  Between operations the timerfd is disarmed iff no timer is queued;
  otherwise it is set to the time left to the earliest timer, at least one nanosecond, split
  into seconds and a nanosecond part the kernel accepts.\<close>

theorem timerfd_tracks_earliest:
  assumes "env_ok env" and "tq_reach env q"
  shows "(timers q = [] \<longrightarrow> tv_sec q = 0 \<and> tv_nsec q = 0)
    \<and> (timers q \<noteq> [] \<longrightarrow>
         tv_sec q * 1000000000 + tv_nsec q = max 1 (i64 (fst (hd (timers q)) - set_at q))
       \<and> 0 \<le> tv_sec q \<and> 0 \<le> tv_nsec q \<and> tv_nsec q < 1000000000
       \<and> (\<forall>a t. heap q a = Some t \<longrightarrow> fst (hd (timers q)) \<le> expiration t))"
proof -
  have ar: "tq_armed q" and inv: "tq_inv [] q"
    using tq_reach_ok [OF assms] by (simp_all add: tq_ok_def)
  have "fst (hd (timers q)) \<le> expiration t" if "heap q a = Some t" for a t
  proof -
    have "(expiration t, a) \<in> set (timers q)" using tq_invD(3) [OF inv] that by simp
    then have "hd (timers q) \<le> (expiration t, a)"
      using tq_invD(1) [OF inv] by (cases "timers q") (auto simp del: less_eq_prod_simp)
    then show ?thesis by (cases "hd (timers q)") auto
  qed
  moreover have "0 \<le> max 1 d div 1000000000 \<and> max 1 d div 1000000000 * 1000000000 + max 1 d mod 1000000000 = max 1 d"
    for d :: int by simp
  ultimately show ?thesis using ar by (simp add: tq_armed_def Let_def split: if_splits)
qed

text \<open>C16: Cancellation is final.  Once a handle that was handed out has been cancelled, its callback
  never runs again, whatever happens later and however often memory of the timer is reused: not at all
  when the call is made between the operations of the queue, and not after the batch that is being run
  when a callback of that batch makes it.  In that batch the callback runs once if its timer was
  due, for a cancel takes no timer out of the batch, and otherwise not.\<close>

theorem cancelled_never_fires:
  assumes "env_ok env" and "tq_reach env q" and "tid_valid i" and "tid_seq i < next_seq q"
    and "F = due (clock env (clk q)) q" and "(tq_step env)\<^sup>*\<^sup>* q1 q2"
  shows "(tq_cancel env i q = Inr q1 \<longrightarrow>
       count_list (fired q2) (tid_seq i) = count_list (fired q) (tid_seq i) \<and> active q2 (tid_seq i) = None)
    \<and> (handle_expired env q = Inr q1 \<and> next_seq q + batch_adds env q F \<le> sz_max \<and> tid_seq i \<in> batch_cancels env q F \<longrightarrow>
       count_list (fired q2) (tid_seq i) = count_list (fired q) (tid_seq i)
         + (if \<exists>a \<in> set F. tsequence (timer_at q a) = tid_seq i then 1 else 0) \<and> active q2 (tid_seq i) = None)"
proof -
  have ok: "tq_ok q" by (rule tq_reach_ok [OF assms(1,2)])
  have K: "count_list (fired q2) (tid_seq i) = count_list (fired q1) (tid_seq i) \<and> active q2 (tid_seq i) = None"
    if q1: "tq_ok q1" "seq_frame q q1" "tid_seq i \<notin> live_seqs q1"
  proof -
    have "tid_seq i < next_seq q1" using q1(2) assms(4) by (simp add: seq_frame_def)
    note d = dead_seq_stays_dead [OF assms(6,1) q1(1) this q1(3)]
    have "tq_inv [] q2" using tq_steps_ok [OF assms(6,1) q1(1)] by (simp add: tq_ok_def)
    with d show ?thesis using active_none_iff by simp
  qed
  show ?thesis
  proof (intro conjI impI; (elim conjE)?)
    assume c: "tq_cancel env i q = Inr q1"
    have "fired q1 = fired q" using tq_cancel_inv [of "[]" q env i] ok c by (auto simp: tq_ok_def)
    with K cancel_step_ok [OF ok, of env i] c assms(3)
    show "count_list (fired q2) (tid_seq i) = count_list (fired q) (tid_seq i)" "active q2 (tid_seq i) = None" by auto
  next
    assume h: "handle_expired env q = Inr q1" "next_seq q + batch_adds env q F \<le> sz_max" "tid_seq i \<in> batch_cancels env q F"
    with K expired_step_ok [OF assms(1) ok] expired_cancels [OF assms(1) ok assms(5) h(2,3) assms(4) h(1)]
    show "count_list (fired q2) (tid_seq i) = count_list (fired q) (tid_seq i)
         + (if \<exists>a \<in> set F. tsequence (timer_at q a) = tid_seq i then 1 else 0)" "active q2 (tid_seq i) = None"
      unfolding assms(5) by auto
  qed
qed


section \<open>A concrete run\<close>

text \<open>
  An allocator that never reuses a live address and a clock that advances ten nanoseconds
  per reading; one periodic timer with an interval of five.
\<close>

definition demo_env :: env where
  "demo_env = \<lparr>clock = (\<lambda>n. 10 * int n), alloc = (\<lambda>h. Suc (Max (insert 0 (dom h)))), does = (\<lambda>_ _. [])\<rparr>"

definition demo_queue :: timer_queue where
  "demo_queue = snd (tq_add_periodic demo_env 0 5 tq_init)"

lemma demo_env_ok: "env_ok demo_env"
proof -
  have "h (Suc (Max (insert 0 (dom h)))) = None" if "finite (dom h)" for h :: "addr \<rightharpoonup> timer"
  proof (rule ccontr)
    assume "h (Suc (Max (insert 0 (dom h)))) \<noteq> None"
    then have "Suc (Max (insert 0 (dom h))) \<in> insert 0 (dom h)" by auto
    then have "Suc (Max (insert 0 (dom h))) \<le> Max (insert 0 (dom h))" using that by (intro Max_ge) auto
    then show False by simp
  qed
  then show ?thesis by (simp add: env_ok_def demo_env_def)
qed

lemma demo_reach: "tq_reach demo_env demo_queue"
proof -
  obtain i q where "tq_add_periodic demo_env 0 5 tq_init = (i, q)" by fastforce
  then have "tq_step demo_env tq_init q" "q = demo_queue"
    by (auto intro!: step_periodic simp: demo_queue_def tq_init_def sz_max_def)
  then show ?thesis unfolding tq_reach_def by blast
qed

lemma demo_queue_eq:
  "demo_queue = \<lparr>heap = [1 \<mapsto> \<lparr>callback = 0, expiration = 5, interval = 5, repeats = True, tsequence = 1\<rparr>],
     timers = [(5, 1)], active = [1 \<mapsto> 1], next_seq = 2, calling_expired = False, canceling_seqs = [],
     tv_sec = 0, tv_nsec = 1, set_at = 10, clk = 2, fired = []\<rparr>"
  by (simp add: demo_queue_def tq_add_periodic_def tq_insert_def Let_def tq_init_def demo_env_def
      timer_new_def reset_timerfd_def insort_insert_key_def sz_add_def i64_def c_div_def c_mod_def)

lemma demo_due: "clock demo_env (clk demo_queue) = 20" "due 20 demo_queue = [1]"
  "batch_adds demo_env demo_queue [1] = 0" "batch_cancels demo_env demo_queue [1] = {}"
  by (simp_all add: demo_queue_eq demo_env_def due_def batch_adds_def batch_cancels_def timer_at_def demo_env_def)

lemma demo_cap: "next_seq demo_queue + batch_adds demo_env demo_queue (due (clock demo_env (clk demo_queue)) demo_queue) \<le> sz_max"
  unfolding demo_due by (simp add: demo_queue_eq sz_max_def)

theorem timer_queue_memory_safe_witness:
  "tq_destroy demo_queue = Inr Map.empty \<and> (\<exists>q'. handle_expired demo_env demo_queue = Inr q')"
  using timer_queue_memory_safe [OF demo_env_ok demo_reach] demo_cap by blast

theorem handle_expired_fires_due_in_order_witness:
  "\<exists>q' F. handle_expired demo_env demo_queue = Inr q'
    \<and> fired q' = fired demo_queue @ map (\<lambda>a. tsequence (timer_at demo_queue a)) F \<and> 1 \<in> set F"
proof -
  have "next_seq demo_queue + batch_adds demo_env demo_queue (due 20 demo_queue) \<le> sz_max"
    using demo_cap unfolding demo_due(1) .
  moreover have "\<exists>t. heap demo_queue 1 = Some t \<and> expiration t \<le> 20" by (simp add: demo_queue_eq)
  ultimately show ?thesis
    using handle_expired_fires_due_in_order [OF demo_env_ok demo_reach demo_due(1) [symmetric]] by metis
qed

theorem handle_expired_rearms_witness:
  "\<exists>q'. handle_expired demo_env demo_queue = Inr q' \<and> (25, 1) \<in> set (timers q')"
proof -
  have "next_seq demo_queue + batch_adds demo_env demo_queue (due 20 demo_queue) \<le> sz_max"
    using demo_cap unfolding demo_due(1) .
  moreover have "heap demo_queue 1 = Some \<lparr>callback = 0, expiration = 5, interval = 5,
      repeats = True, tsequence = 1\<rparr>" by (simp add: demo_queue_eq)
  ultimately show ?thesis
    using handle_expired_rearms [OF demo_env_ok demo_reach demo_due(1) [symmetric]]
    unfolding demo_due by (fastforce simp: i64_def)
qed

theorem timerfd_tracks_earliest_witness:
  "timers demo_queue \<noteq> [] \<and> tv_sec demo_queue * 1000000000 + tv_nsec demo_queue = 1"
  using timerfd_tracks_earliest [OF demo_env_ok demo_reach] by (simp add: demo_queue_eq i64_def)

text \<open>Two timers due in the same batch, the first of which cancels the second when it runs.\<close>

definition demo_env2 :: env where
  "demo_env2 = demo_env\<lparr>does := (\<lambda>cb n. if cb = 1 then [CbCancel \<lparr>tid_timer = 2, tid_seq = 2\<rparr>] else [])\<rparr>"

definition demo_queue2 :: timer_queue where
  "demo_queue2 = snd (tq_add_periodic demo_env2 0 5 (snd (tq_add demo_env2 1 5 tq_init)))"

lemma demo_env2_ok: "env_ok demo_env2"
  using demo_env_ok by (simp add: env_ok_def demo_env2_def)

lemma demo_reach2: "tq_reach demo_env2 demo_queue2"
proof -
  obtain i q where q: "tq_add demo_env2 1 5 tq_init = (i, q)" by fastforce
  obtain j r where r: "tq_add_periodic demo_env2 0 5 q = (j, r)" by fastforce
  have "next_seq q = 2" using q by (auto simp: tq_add_def sz_add_def tq_init_def sz_max_def dest: tq_insert_simps)
  then have "tq_step demo_env2 tq_init q" "tq_step demo_env2 q r"
    using step_add [OF _ q] step_periodic [OF _ r] by (simp_all add: tq_init_def sz_max_def)
  moreover have "r = demo_queue2" using q r by (simp add: demo_queue2_def)
  ultimately show ?thesis unfolding tq_reach_def by (metis rtranclp.rtrancl_into_rtrancl rtranclp.rtrancl_refl)
qed

lemma demo_queue2_eq:
  "demo_queue2 = \<lparr>heap = [1 \<mapsto> \<lparr>callback = 1, expiration = 5, interval = 0, repeats = False, tsequence = 1\<rparr>,
       2 \<mapsto> \<lparr>callback = 0, expiration = 25, interval = 5, repeats = True, tsequence = 2\<rparr>],
     timers = [(5, 1), (25, 2)], active = [1 \<mapsto> 1, 2 \<mapsto> 2], next_seq = 3, calling_expired = False, canceling_seqs = [],
     tv_sec = 0, tv_nsec = 1, set_at = 10, clk = 3, fired = []\<rparr>"
  by (simp add: demo_queue2_def tq_add_periodic_def tq_add_def tq_insert_def Let_def tq_init_def demo_env2_def demo_env_def
      numeral_2_eq_2 [symmetric] timer_new_def reset_timerfd_def insort_insert_key_def sz_add_def i64_def c_div_def c_mod_def)

lemma demo_due2: "due (clock demo_env2 (clk demo_queue2)) demo_queue2 = [1, 2]"
  "batch_adds demo_env2 demo_queue2 [1, 2] = 0" "batch_cancels demo_env2 demo_queue2 [1, 2] = {2}"
  by (simp_all add: demo_queue2_eq demo_env2_def demo_env_def due_def batch_adds_def batch_cancels_def timer_at_def tid_valid_def)

theorem cancelled_never_fires_witness:
  "(\<exists>q1. tq_cancel demo_env2 \<lparr>tid_timer = 2, tid_seq = 2\<rparr> demo_queue2 = Inr q1
       \<and> count_list (fired q1) 2 = 0 \<and> active q1 2 = None)
   \<and> (\<exists>q1. handle_expired demo_env2 demo_queue2 = Inr q1 \<and> count_list (fired q1) 2 = 1 \<and> active q1 2 = None)"
proof
  let ?i = "\<lparr>tid_timer = 2, tid_seq = 2\<rparr>" and ?F = "due (clock demo_env2 (clk demo_queue2)) demo_queue2"
  note R = demo_env2_ok demo_reach2
  have i: "tid_valid ?i" "tid_seq ?i < next_seq demo_queue2" by (simp_all add: tid_valid_def demo_queue2_eq)
  obtain q1 where q1: "tq_cancel demo_env2 ?i demo_queue2 = Inr q1"
    by (simp add: tq_cancel_def tid_valid_def demo_queue2_eq)
  with cancelled_never_fires [OF R i refl rtranclp.rtrancl_refl]
  have "count_list (fired q1) 2 = count_list (fired demo_queue2) 2 \<and> active q1 2 = None" by auto
  then show "\<exists>q1. tq_cancel demo_env2 ?i demo_queue2 = Inr q1 \<and> count_list (fired q1) 2 = 0 \<and> active q1 2 = None"
    using q1 by (simp add: demo_queue2_eq)
  have cap: "next_seq demo_queue2 + batch_adds demo_env2 demo_queue2 ?F \<le> sz_max"
    unfolding demo_due2(1) demo_due2(2) by (simp add: demo_queue2_eq sz_max_def)
  then obtain q2 where q2: "handle_expired demo_env2 demo_queue2 = Inr q2"
    using expired_step_ok [OF R(1) tq_reach_ok [OF R]] by blast
  have "tid_seq ?i \<in> batch_cancels demo_env2 demo_queue2 ?F" unfolding demo_due2(1) demo_due2(3) by simp
  with cancelled_never_fires [OF R i refl rtranclp.rtrancl_refl, of q2] q2 cap
  have "count_list (fired q2) 2 = count_list (fired demo_queue2) 2
      + (if \<exists>a \<in> set ?F. tsequence (timer_at demo_queue2 a) = 2 then 1 else 0) \<and> active q2 2 = None" by auto
  then show "\<exists>q1. handle_expired demo_env2 demo_queue2 = Inr q1 \<and> count_list (fired q1) 2 = 1 \<and> active q1 2 = None"
    using q2 unfolding demo_due2(1) by (intro exI [of _ q2]) (simp add: demo_queue2_eq timer_at_def)
qed

end
