(* ===== verification/Buffer_Pool.thy ===== *)
theory Buffer_Pool
  imports Coro_Prelude
begin

text \<open>
  \<open>RegisteredBufferPool\<close> (\<open>registered_buffer_pool.hpp\<close>): one arena cut into slots that
  are registered with the kernel, and a free list of slot numbers.  What
  \<open>posix_memalign\<close> and \<open>io_uring_register_buffers\<close> return are arguments of the
  constructor.  The locale \<open>slot_pool\<close> is the contract the connections rely on.
\<close>

section \<open>The pool\<close>

record iovec =
  iov_base :: nat
  iov_len :: nat

record buffer_pool =
  arena :: nat                  \<comment> \<open>0 is \<open>nullptr\<close>\<close>
  pool_slot_size :: nat         \<comment> \<open>\<open>unsigned\<close>\<close>
  pool_capacity :: nat          \<comment> \<open>\<open>unsigned\<close>\<close>
  free_list :: "int list"       \<comment> \<open>a stack, its top is the last element\<close>
  pool_enabled :: bool
  reg_errno :: int
  registered :: "iovec list"    \<comment> \<open>what the kernel holds for the ring\<close>

definition kMaxRegBuffers :: nat where
  "kMaxRegBuffers = 2 ^ 14"

text \<open>The loop that fills the vector of \<open>iovec\<close>s.\<close>

definition pool_iovs :: "nat \<Rightarrow> nat \<Rightarrow> nat \<Rightarrow> iovec list" where
  "pool_iovs base cap ss =
     map (\<lambda>i. \<lparr>iov_base = sz_add base (sz_mul i ss), iov_len = ss\<rparr>) [0..<cap]"

text \<open>\<open>for (int i = capacity - 1; i >= 0; --i) free_list_.push_back(i)\<close>.\<close>

definition fill_free_list :: "nat \<Rightarrow> int list" where
  "fill_free_list cap = map int (rev [0..<cap])"

text \<open>
  \<open>mem\<close> is the block \<open>posix_memalign\<close> returns for the requested size (0 when it
  fails), \<open>reg\<close> the result of registering the vector.
\<close>

definition pool_new :: "(nat \<Rightarrow> nat) \<Rightarrow> (iovec list \<Rightarrow> int) \<Rightarrow> nat \<Rightarrow> nat \<Rightarrow> buffer_pool" where
  "pool_new mem reg capacity slot_size =
     (let p = \<lparr>arena = 0, pool_slot_size = slot_size, pool_capacity = capacity, free_list = [],
               pool_enabled = False, reg_errno = 0, registered = []\<rparr>
      in if capacity = 0 \<or> slot_size = 0 then p
         else let cap = (if capacity > kMaxRegBuffers then kMaxRegBuffers else capacity);
                  p1 = p\<lparr>pool_capacity := cap\<rparr>;
                  base = mem (sz_mul cap slot_size)
              in if base = 0 then p1
                 else let iovs = pool_iovs base cap slot_size; ret = reg iovs
                      in if ret < 0 then p1\<lparr>reg_errno := - ret\<rparr>
                         else p1\<lparr>arena := base, registered := iovs,
                                 free_list := fill_free_list cap, pool_enabled := True\<rparr>)"

definition pool_acquire :: "buffer_pool \<Rightarrow> int \<times> buffer_pool" where
  "pool_acquire p =
     (if \<not> pool_enabled p \<or> free_list p = [] then (- 1, p)
      else (last (free_list p), p\<lparr>free_list := butlast (free_list p)\<rparr>))"

definition pool_release :: "int \<Rightarrow> buffer_pool \<Rightarrow> buffer_pool" where
  "pool_release idx p = (if idx < 0 then p else p\<lparr>free_list := free_list p @ [idx]\<rparr>)"

definition slot_ptr :: "buffer_pool \<Rightarrow> int \<Rightarrow> nat" where
  "slot_ptr p idx = sz_add (arena p) (sz_mul (nat idx) (pool_slot_size p))"

text \<open>The destructor unregisters the slots and frees the arena.\<close>

definition pool_destroy :: "buffer_pool \<Rightarrow> buffer_pool" where
  "pool_destroy p =
     (let p1 = (if pool_enabled p then p\<lparr>registered := []\<rparr> else p)
      in if arena p1 \<noteq> 0 then p1\<lparr>arena := 0\<rparr> else p1)"

section \<open>The contract\<close>

text \<open>
  \<open>inv L p\<close>: the slots \<open>L\<close> are lent out.  A client keeps a table of owners; the two
  lemmas of the locale say that no slot ever has two owners.
\<close>

locale slot_pool =
  fixes acquire :: "'p \<Rightarrow> int \<times> 'p"
    and release :: "int \<Rightarrow> 'p \<Rightarrow> 'p"
    and inv :: "int set \<Rightarrow> 'p \<Rightarrow> bool"
  assumes acquire_law: "inv L p \<Longrightarrow> acquire p = (i, p') \<Longrightarrow>
      (i < 0 \<and> p' = p) \<or> (0 \<le> i \<and> i \<notin> L \<and> inv (insert i L) p')"
    and release_law: "inv L p \<Longrightarrow> i \<in> L \<Longrightarrow> inv (L - {i}) (release i p)"
    and release_none: "i < 0 \<Longrightarrow> release i p = p"
begin

definition owners_ok :: "('c \<rightharpoonup> int) \<Rightarrow> 'p \<Rightarrow> bool" where
  "owners_ok m p \<longleftrightarrow> inv {i. 0 \<le> i \<and> i \<in> ran m} p
     \<and> (\<forall>c d i. m c = Some i \<longrightarrow> m d = Some i \<longrightarrow> 0 \<le> i \<longrightarrow> c = d)"

lemma owners_acquire:
  assumes ok: "owners_ok m p" and c: "m c = None" and a: "acquire p = (i, p')"
  shows "owners_ok (m(c \<mapsto> i)) p'"
proof -
  have inj: "\<forall>c d i. m c = Some i \<longrightarrow> m d = Some i \<longrightarrow> 0 \<le> i \<longrightarrow> c = d"
    and inv: "inv {i. 0 \<le> i \<and> i \<in> ran m} p" using ok by (simp_all add: owners_ok_def)
  have r: "ran (m(c \<mapsto> i)) = insert i (ran m)" using c by simp
  from acquire_law [OF inv a] show ?thesis
  proof
    assume n: "i < 0 \<and> p' = p"
    then have "{j. 0 \<le> j \<and> j \<in> insert i (ran m)} = {j. 0 \<le> j \<and> j \<in> ran m}" by auto
    with n inv inj show ?thesis unfolding owners_ok_def r by auto
  next
    assume n: "0 \<le> i \<and> i \<notin> {i. 0 \<le> i \<and> i \<in> ran m} \<and> inv (insert i {i. 0 \<le> i \<and> i \<in> ran m}) p'"
    then have "{j. 0 \<le> j \<and> j \<in> insert i (ran m)} = insert i {j. 0 \<le> j \<and> j \<in> ran m}" by auto
    moreover have "m d \<noteq> Some i" for d using n by (auto simp: ran_def)
    ultimately show ?thesis using n inj unfolding owners_ok_def r by auto
  qed
qed

lemma owners_release:
  assumes ok: "owners_ok m p" and c: "m c = Some i"
  shows "owners_ok (m(c := None)) (release i p)"
proof (cases "i < 0")
  case True
  then have "{j. 0 \<le> j \<and> j \<in> ran (m(c := None))} = {j. 0 \<le> j \<and> j \<in> ran m}"
    using c unfolding ran_def by (auto, force)
  then show ?thesis using ok release_none [OF True] by (auto simp: owners_ok_def)
next
  case False
  have inj: "m d \<noteq> Some i" if "d \<noteq> c" for d
    using ok c False that unfolding owners_ok_def by (meson not_less)
  have "x \<in> ran (m(c := None)) \<longleftrightarrow> x \<in> ran m \<and> x \<noteq> i" for x
  proof
    assume "x \<in> ran (m(c := None))"
    then obtain d where "d \<noteq> c" "m d = Some x" by (auto simp: ran_def split: if_splits)
    then show "x \<in> ran m \<and> x \<noteq> i" using inj [of d] by (auto simp: ran_def)
  next
    assume "x \<in> ran m \<and> x \<noteq> i"
    then obtain d where "m d = Some x" "x \<noteq> i" by (auto simp: ran_def)
    then show "x \<in> ran (m(c := None))" using c by (intro ranI [of _ d]) auto
  qed
  then have "{j. 0 \<le> j \<and> j \<in> ran (m(c := None))} = {j. 0 \<le> j \<and> j \<in> ran m} - {i}"
    by auto
  moreover have "i \<in> {j. 0 \<le> j \<and> j \<in> ran m}" using c False by (auto simp: ran_def)
  ultimately show ?thesis using ok release_law unfolding owners_ok_def by auto
qed

end

section \<open>The pool keeps the contract\<close>

text \<open>The free list and the lent slots partition the slot numbers.\<close>

definition pool_inv :: "int set \<Rightarrow> buffer_pool \<Rightarrow> bool" where
  "pool_inv L p \<longleftrightarrow>
     (if pool_enabled p
      then distinct (free_list p) \<and> set (free_list p) \<inter> L = {}
         \<and> set (free_list p) \<union> L = {0..<int (pool_capacity p)}
      else L = {} \<and> free_list p = [])"

lemma pool_new_inv: "pool_inv {} (pool_new mem reg cap ss)"
  by (auto simp: pool_new_def pool_inv_def Let_def fill_free_list_def distinct_map
      image_int_atLeastLessThan)

lemma pool_acquire_inv:
  assumes "pool_inv L p" and "pool_acquire p = (i, p')"
  shows "(i < 0 \<and> p' = p) \<or> (0 \<le> i \<and> i \<notin> L \<and> pool_inv (insert i L) p')"
proof (cases "\<not> pool_enabled p \<or> free_list p = []")
  case True
  then show ?thesis using assms(2) by (auto simp: pool_acquire_def)
next
  case False
  then obtain xs x where xs: "free_list p = xs @ [x]" by (metis append_butlast_last_id)
  then have "i = x" "p' = p\<lparr>free_list := xs\<rparr>" using assms(2) False by (auto simp: pool_acquire_def)
  moreover have "x \<in> {0..<int (pool_capacity p)}"
    using assms(1) False xs by (auto simp: pool_inv_def)
  ultimately show ?thesis using assms(1) False xs by (auto simp: pool_inv_def)
qed

lemma pool_acquire_none:
  assumes "pool_inv L p" and "pool_acquire p = (i, p')" and "i < 0"
  shows "i = - 1"
proof (cases "\<not> pool_enabled p \<or> free_list p = []")
  case False
  then have "last (free_list p) \<in> {0..<int (pool_capacity p)}"
    using assms(1) last_in_set [of "free_list p"] by (auto simp: pool_inv_def)
  then show ?thesis using assms(2,3) False by (simp add: pool_acquire_def)
qed (use assms(2) in \<open>simp add: pool_acquire_def\<close>)

lemma pool_release_inv: "pool_inv L p \<Longrightarrow> i \<in> L \<Longrightarrow> pool_inv (L - {i}) (pool_release i p)"
  by (auto simp: pool_inv_def pool_release_def split: if_splits)

interpretation bpool: slot_pool pool_acquire pool_release pool_inv
proof unfold_locales
  show "(i < 0 \<and> p' = p) \<or> (0 \<le> i \<and> i \<notin> L \<and> pool_inv (insert i L) p')"
    if "pool_inv L p" "pool_acquire p = (i, p')" for L p i p'
    using pool_acquire_inv that by blast
  show "pool_inv (L - {i}) (pool_release i p)" if "pool_inv L p" "i \<in> L" for L p i
    using pool_release_inv that by blast
  show "pool_release i p = p" if "i < 0" for i p
    using that by (simp add: pool_release_def)
qed

section \<open>Properties\<close>

lemma pool_new_enabled:
  assumes "pool_enabled (pool_new mem reg cap ss)"
  shows "0 < cap" "0 < ss" "pool_slot_size (pool_new mem reg cap ss) = ss"
    "pool_capacity (pool_new mem reg cap ss) = min cap kMaxRegBuffers"
    "arena (pool_new mem reg cap ss) = mem (sz_mul (min cap kMaxRegBuffers) ss)"
    "registered (pool_new mem reg cap ss) =
       pool_iovs (mem (sz_mul (min cap kMaxRegBuffers) ss)) (min cap kMaxRegBuffers) ss"
  using assms by (auto simp: pool_new_def Let_def min_def split: if_splits)

text \<open>\<open>pool_sane\<close>: the arena lies inside the address space, as \<open>posix_memalign\<close> guarantees.\<close>

definition pool_sane :: "buffer_pool \<Rightarrow> bool" where
  "pool_sane p \<longleftrightarrow> pool_enabled p \<and> arena p + pool_capacity p * pool_slot_size p \<le> sz_max
     \<and> registered p = pool_iovs (arena p) (pool_capacity p) (pool_slot_size p)"

lemma pool_new_sane:
  assumes "pool_enabled (pool_new mem reg cap ss)"
    and "arena (pool_new mem reg cap ss) + pool_capacity (pool_new mem reg cap ss) * ss \<le> sz_max"
  shows "pool_sane (pool_new mem reg cap ss)"
  using assms pool_new_enabled [OF assms(1)] by (simp add: pool_sane_def)

lemma slot_inside:
  assumes "k < pool_capacity p"
  shows "k * pool_slot_size p + pool_slot_size p \<le> pool_capacity p * pool_slot_size p"
  using assms mult_le_mono1 [of "Suc k" "pool_capacity p" "pool_slot_size p"] by simp

lemma slot_ptr_eq:
  assumes "pool_sane p" and "k < pool_capacity p"
  shows "slot_ptr p (int k) = arena p + k * pool_slot_size p"
  using slot_inside [OF assms(2)] assms(1) by (simp add: pool_sane_def slot_ptr_def sz_simps)

lemma slot_registered:
  assumes "pool_sane p" and "k < pool_capacity p"
  shows "registered p ! k = \<lparr>iov_base = slot_ptr p (int k), iov_len = pool_slot_size p\<rparr>"
  using assms by (simp add: pool_sane_def pool_iovs_def slot_ptr_def)

lemma slots_disjoint:
  assumes "pool_sane p" and "i < pool_capacity p" and "j < pool_capacity p" and "i \<noteq> j"
  shows "{slot_ptr p (int i) ..< slot_ptr p (int i) + pool_slot_size p}
    \<inter> {slot_ptr p (int j) ..< slot_ptr p (int j) + pool_slot_size p} = {}"
proof -
  let ?s = "pool_slot_size p"
  have "i * ?s + ?s \<le> j * ?s \<or> j * ?s + ?s \<le> i * ?s"
    using assms(4) mult_le_mono1 [of "Suc i" j ?s] mult_le_mono1 [of "Suc j" i ?s] by (cases "i < j") auto
  then show ?thesis using assms by (auto simp: slot_ptr_eq)
qed

text \<open>Slots and registered buffers agree.  When the pool is enabled, slot \<open>i\<close> is the
  \<open>i\<close>-th registered buffer, lies inside the block that was allocated, and does not overlap
  any other slot.  The block is assumed to lie inside the address space, as
  \<open>posix_memalign\<close> guarantees.\<close>

theorem slots_match_registration:
  assumes "p = pool_new mem reg cap ss" and "pool_enabled p"
    and "arena p + pool_capacity p * ss \<le> sz_max"
    and "i < pool_capacity p" and "j < pool_capacity p" and "i \<noteq> j"
  shows "registered p ! i = \<lparr>iov_base = slot_ptr p (int i), iov_len = ss\<rparr>
    \<and> length (registered p) = pool_capacity p
    \<and> pool_capacity p * ss = sz_mul (pool_capacity p) ss
    \<and> arena p \<le> slot_ptr p (int i) \<and> slot_ptr p (int i) + ss \<le> arena p + pool_capacity p * ss
    \<and> {slot_ptr p (int i) ..< slot_ptr p (int i) + ss} \<inter> {slot_ptr p (int j) ..< slot_ptr p (int j) + ss} = {}"
proof -
  have sane: "pool_sane p" using pool_new_sane assms(1-3) by blast
  have ss: "pool_slot_size p = ss" using pool_new_enabled(3) assms(1,2) by blast
  have "length (registered p) = pool_capacity p" using sane by (simp add: pool_sane_def pool_iovs_def)
  with slot_registered [OF sane assms(4)] slots_disjoint [OF sane assms(4-6)] slot_ptr_eq [OF sane assms(4)]
    slot_inside [OF assms(4)] assms(3)
  show ?thesis by (simp add: ss sz_simps)
qed

text \<open>A failed registration disables the pool cleanly: it keeps the error number,
  holds no memory and lends no slot.\<close>

theorem registration_failure_disables:
  assumes "0 < cap" and "0 < ss" and "mem (sz_mul (min cap kMaxRegBuffers) ss) \<noteq> 0"
    and "reg (pool_iovs (mem (sz_mul (min cap kMaxRegBuffers) ss)) (min cap kMaxRegBuffers) ss) = - e" and "0 < e"
  shows "\<not> pool_enabled (pool_new mem reg cap ss) \<and> reg_errno (pool_new mem reg cap ss) = e
    \<and> arena (pool_new mem reg cap ss) = 0
    \<and> pool_acquire (pool_new mem reg cap ss) = (- 1, pool_new mem reg cap ss)"
proof -
  have "(if cap > kMaxRegBuffers then kMaxRegBuffers else cap) = min cap kMaxRegBuffers" by simp
  then have eq: "pool_new mem reg cap ss = \<lparr>arena = 0, pool_slot_size = ss, pool_capacity = min cap kMaxRegBuffers,
      free_list = [], pool_enabled = False, reg_errno = e, registered = []\<rparr>"
    using assms unfolding pool_new_def Let_def by simp
  show ?thesis unfolding eq by (simp add: pool_acquire_def)
qed

section \<open>A concrete pool\<close>

definition demo_pool :: buffer_pool where
  "demo_pool = pool_new (\<lambda>n. 4096) (\<lambda>v. 0) 3 100"

lemma demo_pool_eq:
  "demo_pool = \<lparr>arena = 4096, pool_slot_size = 100, pool_capacity = 3, free_list = [2, 1, 0],
     pool_enabled = True, reg_errno = 0,
     registered = [\<lparr>iov_base = 4096, iov_len = 100\<rparr>, \<lparr>iov_base = 4196, iov_len = 100\<rparr>, \<lparr>iov_base = 4296, iov_len = 100\<rparr>]\<rparr>"
  by (simp add: demo_pool_def pool_new_def Let_def kMaxRegBuffers_def pool_iovs_def fill_free_list_def
      upt_rec sz_add_def sz_mul_def)

theorem slots_match_registration_witness:
  "registered demo_pool ! 1 = \<lparr>iov_base = slot_ptr demo_pool 1, iov_len = 100\<rparr>
    \<and> {slot_ptr demo_pool 1 ..< slot_ptr demo_pool 1 + 100}
        \<inter> {slot_ptr demo_pool 2 ..< slot_ptr demo_pool 2 + 100} = {}"
proof -
  have "pool_enabled demo_pool" "arena demo_pool + pool_capacity demo_pool * 100 \<le> sz_max"
      "1 < pool_capacity demo_pool" "2 < pool_capacity demo_pool"
    by (simp_all add: demo_pool_eq sz_max_def)
  from slots_match_registration [OF demo_pool_def this(1-4)] show ?thesis by simp
qed

theorem registration_failure_disables_witness:
  "reg_errno (pool_new (\<lambda>n. 4096) (\<lambda>v. - 12) 3 100) = 12"
  using registration_failure_disables [of 3 100 "\<lambda>n. 4096" "\<lambda>v. - 12" 12] by simp

end
