(* ===== verification/Io_Uring.thy ===== *)
theory Io_Uring
  imports Coro_Prelude
begin

unbundle bit_operations_syntax

text \<open>
  Setting up an \<open>io_uring\<close> instance (\<open>io/io_uring.h\<close>): the list of flag
  combinations the constructor tries and the loop that takes the first one the kernel
  accepts.  The flag bits of the kernel interface and the kernel's answer are parameters.
\<close>

section \<open>Parameters and state\<close>

record uring_params =
  up_entries :: nat
  up_sqpoll :: bool
  up_idle_ms :: nat
  up_wq_fd :: int
  up_cpu :: int

text \<open>The bits \<open>IORING_SETUP_*\<close> of the kernel interface.\<close>

record ring_abi =
  COOP_TASKRUN :: "32 word"
  SQPOLL :: "32 word"
  ATTACH_WQ :: "32 word"
  SQ_AFF :: "32 word"

text \<open>The fields of \<open>struct io_uring_params\<close> the constructor sets; 0 is the default.\<close>

record kernel_params =
  kp_flags :: "32 word"
  kp_idle :: nat
  kp_wq_fd :: "32 word"
  kp_cpu :: "32 word"

record uring =
  ur_params :: kernel_params      \<comment> \<open>what the ring was created with\<close>
  ur_features :: nat
  sqpoll_active :: bool

definition has_flag :: "32 word \<Rightarrow> 32 word \<Rightarrow> bool" where
  "has_flag fl b \<longleftrightarrow> fl AND b \<noteq> 0"

section \<open>The constructor\<close>

definition full_flags :: "ring_abi \<Rightarrow> uring_params \<Rightarrow> 32 word" where
  "full_flags abi p =
     (let f0 = COOP_TASKRUN abi;
          f1 = (if up_sqpoll p then f0 OR SQPOLL abi else f0);
          f2 = (if up_wq_fd p \<ge> 0 then f1 OR ATTACH_WQ abi else f1)
      in if up_sqpoll p \<and> up_cpu p \<ge> 0 then f2 OR SQ_AFF abi else f2)"

definition flag_candidates :: "ring_abi \<Rightarrow> uring_params \<Rightarrow> 32 word list" where
  "flag_candidates abi p =
     (let full = full_flags abi p in
      [full]
      @ (if has_flag full (SQ_AFF abi) then [full AND NOT (SQ_AFF abi)] else [])
      @ (if has_flag full (COOP_TASKRUN abi)
         then [(full AND NOT (SQ_AFF abi)) AND NOT (COOP_TASKRUN abi)] else [])
      @ [COOP_TASKRUN abi] @ [0])"

definition params_for :: "ring_abi \<Rightarrow> uring_params \<Rightarrow> 32 word \<Rightarrow> kernel_params" where
  "params_for abi p fl =
     \<lparr>kp_flags = fl,
      kp_idle = (if has_flag fl (SQPOLL abi) then up_idle_ms p else 0),
      kp_wq_fd = (if has_flag fl (ATTACH_WQ abi) then word_of_int (up_wq_fd p) else 0),
      kp_cpu = (if has_flag fl (SQ_AFF abi) then word_of_int (up_cpu p) else 0)\<rparr>"

text \<open>\<open>init\<close> is \<open>io_uring_queue_init_params\<close>: its result and the feature bits it reports.\<close>

fun try_candidates :: "ring_abi \<Rightarrow> (nat \<Rightarrow> kernel_params \<Rightarrow> int \<times> nat) \<Rightarrow> uring_params \<Rightarrow> int
    \<Rightarrow> 32 word list \<Rightarrow> int + uring" where
  "try_candidates abi init p ret [] = Inl (- ret)"
| "try_candidates abi init p ret (fl # fls) =
     (case init (up_entries p) (params_for abi p fl) of (ret', features) \<Rightarrow>
        if ret' = 0
        then Inr \<lparr>ur_params = params_for abi p fl, ur_features = features,
                  sqpoll_active = has_flag fl (SQPOLL abi)\<rparr>
        else try_candidates abi init p ret' fls)"

definition EINVAL :: int where
  "EINVAL = 22"

definition uring_new :: "ring_abi \<Rightarrow> (nat \<Rightarrow> kernel_params \<Rightarrow> int \<times> nat) \<Rightarrow> uring_params \<Rightarrow> int + uring" where
  "uring_new abi init p = try_candidates abi init p (- EINVAL) (flag_candidates abi p)"

section \<open>Properties\<close>

text \<open>Documented behaviour of the kernel interface: the four flags are disjoint, non-zero bits.\<close>

definition abi_ok :: "ring_abi \<Rightarrow> bool" where
  "abi_ok abi \<longleftrightarrow>
     COOP_TASKRUN abi \<noteq> 0 \<and> SQPOLL abi \<noteq> 0 \<and> ATTACH_WQ abi \<noteq> 0 \<and> SQ_AFF abi \<noteq> 0
   \<and> COOP_TASKRUN abi AND SQPOLL abi = 0 \<and> COOP_TASKRUN abi AND ATTACH_WQ abi = 0
   \<and> COOP_TASKRUN abi AND SQ_AFF abi = 0 \<and> SQPOLL abi AND ATTACH_WQ abi = 0
   \<and> SQPOLL abi AND SQ_AFF abi = 0 \<and> ATTACH_WQ abi AND SQ_AFF abi = 0"

definition accepts :: "ring_abi \<Rightarrow> (nat \<Rightarrow> kernel_params \<Rightarrow> int \<times> nat) \<Rightarrow> uring_params \<Rightarrow> 32 word \<Rightarrow> bool" where
  "accepts abi init p fl \<longleftrightarrow> fst (init (up_entries p) (params_for abi p fl)) = 0"

lemma has_flag_or: "has_flag (a OR b) c \<longleftrightarrow> has_flag a c \<or> has_flag b c"
  by (auto simp: has_flag_def bit_eq_iff bit_simps)

lemma has_flag_clear: "b AND c = 0 \<Longrightarrow> has_flag (a AND NOT b) c \<longleftrightarrow> has_flag a c"
  by (auto simp: has_flag_def bit_eq_iff bit_simps)

lemma has_flag_cleared: "\<not> has_flag (a AND NOT b) b"
  by (auto simp: has_flag_def bit_eq_iff bit_simps)

lemma has_flag_zero [simp]: "\<not> has_flag 0 b"
  by (simp add: has_flag_def)

lemmas flag_simps = has_flag_or has_flag_clear has_flag_cleared

lemma try_candidates_first:
  "try_candidates abi init p ret fls =
     (case filter (accepts abi init p) fls of
        fl # _ \<Rightarrow> Inr \<lparr>ur_params = params_for abi p fl,
                   ur_features = snd (init (up_entries p) (params_for abi p fl)),
                   sqpoll_active = has_flag fl (SQPOLL abi)\<rparr>
      | [] \<Rightarrow> Inl (- (if fls = [] then ret else fst (init (up_entries p) (params_for abi p (last fls))))))"
  by (induction fls arbitrary: ret) (auto simp: accepts_def split: prod.splits list.splits)

lemma abi_table:
  assumes "abi_ok abi"
  shows "has_flag (COOP_TASKRUN abi) (COOP_TASKRUN abi)" "\<not> has_flag (COOP_TASKRUN abi) (SQPOLL abi)"
    "\<not> has_flag (COOP_TASKRUN abi) (ATTACH_WQ abi)" "\<not> has_flag (COOP_TASKRUN abi) (SQ_AFF abi)"
    "has_flag (SQPOLL abi) (SQPOLL abi)" "\<not> has_flag (SQPOLL abi) (ATTACH_WQ abi)"
    "\<not> has_flag (SQPOLL abi) (SQ_AFF abi)" "\<not> has_flag (ATTACH_WQ abi) (SQPOLL abi)"
    "has_flag (ATTACH_WQ abi) (ATTACH_WQ abi)" "\<not> has_flag (ATTACH_WQ abi) (SQ_AFF abi)"
    "\<not> has_flag (SQ_AFF abi) (SQPOLL abi)" "\<not> has_flag (SQ_AFF abi) (ATTACH_WQ abi)"
    "has_flag (SQ_AFF abi) (SQ_AFF abi)"
  using assms by (simp_all add: abi_ok_def has_flag_def and.commute)

lemma abi_ok_flags:
  assumes "abi_ok abi"
  shows "has_flag (full_flags abi p) (SQPOLL abi) \<longleftrightarrow> up_sqpoll p"
    and "has_flag (full_flags abi p) (SQ_AFF abi) \<longleftrightarrow> up_sqpoll p \<and> up_cpu p \<ge> 0"
    and "has_flag (full_flags abi p) (ATTACH_WQ abi) \<longleftrightarrow> up_wq_fd p \<ge> 0"
    and "has_flag (full_flags abi p) (COOP_TASKRUN abi)"
  using abi_table [OF assms] by (simp_all add: full_flags_def Let_def has_flag_or)

lemma flag_candidates_eq:
  assumes "abi_ok abi"
  shows "flag_candidates abi p =
     (let full = full_flags abi p; noaff = full AND NOT (SQ_AFF abi) in
      [full] @ (if up_sqpoll p \<and> up_cpu p \<ge> 0 then [noaff] else [])
      @ [noaff AND NOT (COOP_TASKRUN abi), COOP_TASKRUN abi, 0])"
  using abi_ok_flags [OF assms] by (simp add: flag_candidates_def Let_def)

lemma candidate_flags:
  assumes "abi_ok abi" and "fl \<in> set (flag_candidates abi p)"
  shows "has_flag fl (SQ_AFF abi) \<Longrightarrow> has_flag fl (SQPOLL abi) \<and> up_cpu p \<ge> 0"
    and "has_flag fl (ATTACH_WQ abi) \<Longrightarrow> up_wq_fd p \<ge> 0"
    and "has_flag fl (SQPOLL abi) \<Longrightarrow> up_sqpoll p"
proof -
  note F = abi_ok_flags [OF assms(1)]
  have d: "SQ_AFF abi AND SQPOLL abi = 0" "COOP_TASKRUN abi AND SQPOLL abi = 0"
    "SQ_AFF abi AND ATTACH_WQ abi = 0" "COOP_TASKRUN abi AND ATTACH_WQ abi = 0"
    "COOP_TASKRUN abi AND SQ_AFF abi = 0"
    using assms(1) by (simp_all add: abi_ok_def and.commute)
  note c = abi_table [OF assms(1)]
  show "has_flag fl (SQ_AFF abi) \<Longrightarrow> has_flag fl (SQPOLL abi) \<and> up_cpu p \<ge> 0"
    "has_flag fl (ATTACH_WQ abi) \<Longrightarrow> up_wq_fd p \<ge> 0" "has_flag fl (SQPOLL abi) \<Longrightarrow> up_sqpoll p"
    using assms(2) F d c
    by (auto simp: flag_candidates_eq [OF assms(1)] Let_def flag_simps split: if_splits)
qed

text \<open>C26: Graceful fallback.  The constructor uses the first flag combination of its list
  that the kernel accepts and fails only if the kernel refuses even a ring without flags,
  with the error of that last attempt.  It reports SQPOLL truthfully, never asks to pin a
  polling thread it did not request, and gives SQPOLL up only if the kernel refuses every
  combination with it.\<close>

theorem uring_new_fallback:
  assumes "abi_ok abi"
  shows "(case uring_new abi init p of
      Inl e \<Rightarrow> (\<forall>fl \<in> set (flag_candidates abi p). \<not> accepts abi init p fl)
               \<and> e = - fst (init (up_entries p) (params_for abi p 0))
    | Inr r \<Rightarrow> (\<exists>pre post fl. flag_candidates abi p = pre @ fl # post
               \<and> (\<forall>f \<in> set pre. \<not> accepts abi init p f) \<and> accepts abi init p fl
               \<and> ur_params r = params_for abi p fl
               \<and> sqpoll_active r = has_flag fl (SQPOLL abi)
               \<and> (has_flag fl (SQ_AFF abi) \<longrightarrow> has_flag fl (SQPOLL abi))
               \<and> (up_sqpoll p \<and> \<not> sqpoll_active r \<longrightarrow>
                    \<not> accepts abi init p (full_flags abi p)
                  \<and> \<not> accepts abi init p ((full_flags abi p AND NOT (SQ_AFF abi)) AND NOT (COOP_TASKRUN abi)))))"
proof (cases "filter (accepts abi init p) (flag_candidates abi p)")
  case Nil
  then have none: "\<forall>fl \<in> set (flag_candidates abi p). \<not> accepts abi init p fl"
    by (simp add: filter_empty_conv)
  have "last (flag_candidates abi p) = 0" "flag_candidates abi p \<noteq> []"
    by (simp_all add: flag_candidates_def Let_def)
  then show ?thesis using none Nil by (simp add: uring_new_def try_candidates_first)
next
  case (Cons fl fls)
  then obtain pre post where c: "flag_candidates abi p = pre @ fl # post"
      "\<forall>f \<in> set pre. \<not> accepts abi init p f" "accepts abi init p fl"
    unfolding filter_eq_Cons_iff by blast
  have "SQ_AFF abi AND SQPOLL abi = 0" "COOP_TASKRUN abi AND SQPOLL abi = 0"
    using assms by (simp_all add: abi_ok_def and.commute)
  then have keep: "has_flag (full_flags abi p) (SQPOLL abi) \<Longrightarrow>
      has_flag ((full_flags abi p AND NOT (SQ_AFF abi)) AND NOT (COOP_TASKRUN abi)) (SQPOLL abi)"
    by (simp add: flag_simps)
  have sq: "\<not> accepts abi init p (full_flags abi p)
      \<and> \<not> accepts abi init p ((full_flags abi p AND NOT (SQ_AFF abi)) AND NOT (COOP_TASKRUN abi))"
    if "up_sqpoll p" "\<not> has_flag fl (SQPOLL abi)"
  proof -
    have full: "has_flag (full_flags abi p) (SQPOLL abi)" using abi_ok_flags(1) [OF assms] that(1) by simp
    define rest where "rest = (full_flags abi p AND NOT (SQ_AFF abi)) AND NOT (COOP_TASKRUN abi)"
    have ne: "full_flags abi p \<noteq> fl" "rest \<noteq> fl" using full keep [OF full] that(2) by (auto simp: rest_def)
    have "full_flags abi p AND NOT (SQ_AFF abi) \<noteq> fl"
      using full that(2) \<open>SQ_AFF abi AND SQPOLL abi = 0\<close> by (metis has_flag_clear)
    with ne have "full_flags abi p \<in> set pre" "rest \<in> set pre"
      using c(1) unfolding flag_candidates_eq [OF assms] Let_def rest_def
      by (auto simp: Cons_eq_append_conv split: if_splits)
    then show ?thesis using c(2) by (auto simp: rest_def)
  qed
  have "fl \<in> set (flag_candidates abi p)" using c(1) by simp
  note cf = candidate_flags(1) [OF assms this]
  have r: "uring_new abi init p = Inr \<lparr>ur_params = params_for abi p fl,
      ur_features = snd (init (up_entries p) (params_for abi p fl)), sqpoll_active = has_flag fl (SQPOLL abi)\<rparr>"
    using Cons by (simp add: uring_new_def try_candidates_first)
  show ?thesis unfolding r sum.case
    by (intro exI [of _ pre] exI [of _ post] exI [of _ fl]) (use c cf sq in auto)
qed

text \<open>The values of the four bits on Linux, and a kernel that refuses SQPOLL.\<close>

definition linux_abi :: ring_abi where
  "linux_abi = \<lparr>COOP_TASKRUN = 256, SQPOLL = 2, ATTACH_WQ = 32, SQ_AFF = 4\<rparr>"

definition refuse_sqpoll :: "nat \<Rightarrow> kernel_params \<Rightarrow> int \<times> nat" where
  "refuse_sqpoll n kp = (if has_flag (kp_flags kp) 2 then (- 1, 0) else (0, 0))"

lemma linux_abi_ok: "abi_ok linux_abi"
  by (simp add: abi_ok_def linux_abi_def)

theorem uring_new_fallback_witness:
  "abi_ok linux_abi \<and> (\<exists>r. uring_new linux_abi refuse_sqpoll
      \<lparr>up_entries = 8, up_sqpoll = True, up_idle_ms = 10, up_wq_fd = - 1, up_cpu = 3\<rparr> = Inr r
     \<and> kp_flags (ur_params r) = 256 \<and> \<not> sqpoll_active r)"
  using uring_new_fallback [OF linux_abi_ok, where init = refuse_sqpoll and p =
      "\<lparr>up_entries = 8, up_sqpoll = True, up_idle_ms = 10, up_wq_fd = - 1, up_cpu = 3\<rparr>"]
  by (simp add: linux_abi_ok) (simp add: uring_new_def flag_candidates_def full_flags_def Let_def
      linux_abi_def has_flag_def refuse_sqpoll_def params_for_def)

end
