(* ===== verification/Scheduler.thy ===== *)
theory Scheduler
  imports Timer_Queue Io_Uring Buffer_Pool "HOL-Library.Sublist"
begin

text \<open>
  One \<open>Scheduler\<close> (\<open>scheduler.hpp\<close>, \<open>src/scheduler/scheduler.cc\<close>) with the
  base class of its I/O operations (\<open>io_operation.hpp\<close>, \<open>io_operation.cc\<close>) and
  the watcher of the timer descriptor (\<open>timer_queue.cc\<close>).  The operations are functions on
  a record; the event loop, the other threads that post to it and the kernel interleave as
  an inductive step relation.  Code of coroutines, tasks and timer callbacks is not known:
  while the loop runs it, any sequence of the calls such code can make may happen.
\<close>

section \<open>State\<close>

type_synonym op_addr = nat     \<comment> \<open>address of an awaiter\<close>

text \<open>\<open>IoOperationBase\<close>.\<close>

record io_op =
  op_handle :: handle
  op_result :: int
  op_flags :: nat

text \<open>The user data of an entry: null (the \<open>NOP\<close> of \<open>stop\<close>), a watcher, or an awaiter.\<close>

datatype user_data = UdNull | UdWake | UdTimer | UdOp op_addr

record cqe =
  cqe_data :: user_data
  cqe_res :: int
  cqe_more :: bool             \<comment> \<open>\<open>IORING_CQE_F_MORE\<close>\<close>

text \<open>Cross-thread tasks: the closures of the timer interface, or any other code.\<close>

datatype xtask =
    XUser nat
  | XAdd callback time
  | XAddPeriodic callback time
  | XCancel timer_id

datatype location =
    NotRunning
  | LoopTop                      \<comment> \<open>the test of the \<open>while\<close>\<close>
  | RunTasks "xtask list"        \<comment> \<open>in \<open>drain_cross_queue\<close>, tasks left to run\<close>
  | InTask "xtask list"          \<comment> \<open>inside one of them\<close>
  | ReadyLoop
  | InResume                     \<comment> \<open>inside \<open>h.resume()\<close>\<close>
  | BeforeWait                   \<comment> \<open>past the second test of \<open>stopping_\<close>\<close>
  | Blocked                      \<comment> \<open>in \<open>submit_and_wait\<close>\<close>
  | Completing "cqe list"        \<comment> \<open>entries left of the batch\<close>
  | InTimer "cqe list"           \<comment> \<open>inside the callbacks of an expired batch\<close>
  | Exited
  | Thrown

record sched =
  ready :: "handle list"
  stopping :: bool
  cross_handles :: "handle list"
  cross_tasks :: "xtask list"
  wake_count :: nat              \<comment> \<open>counter of the eventfd\<close>
  sq_entries :: nat
  sq :: "user_data list"         \<comment> \<open>filled, not yet submitted\<close>
  inflight :: "user_data list"   \<comment> \<open>submitted\<close>
  cq :: "cqe list"
  ops :: "op_addr \<rightharpoonup> io_op"
  finished :: "handle set"       \<comment> \<open>coroutines with \<open>done()\<close>\<close>
  tq :: timer_queue
  pc :: location
  wakers :: nat                  \<comment> \<open>other threads about to write the eventfd\<close>
  watch_lost :: bool             \<comment> \<open>a re-arm of the wake watcher found no free entry\<close>
  posted :: "handle list"        \<comment> \<open>history: handles other threads posted\<close>
  taken :: "handle list"         \<comment> \<open>history: handles taken out of the cross queue\<close>
  pushed :: "handle list"        \<comment> \<open>history: handles put on the ready queue\<close>
  popped :: "handle list"        \<comment> \<open>history: handles taken off the ready queue\<close>

definition sched_new :: "nat \<Rightarrow> sched" where
  "sched_new entries = \<lparr>ready = [], stopping = False, cross_handles = [], cross_tasks = [],
     wake_count = 0, sq_entries = entries, sq = [], inflight = [], cq = [], ops = Map.empty,
     finished = {}, tq = tq_init, pc = NotRunning, wakers = 0, watch_lost = False,
     posted = [], taken = [], pushed = [], popped = []\<rparr>"

section \<open>Operations\<close>

text \<open>\<open>IoUring::get_sqe\<close> followed by filling the entry; \<open>None\<close> when the queue is full.\<close>

definition get_sqe :: "user_data \<Rightarrow> sched \<Rightarrow> sched option" where
  "get_sqe d s = (if length (sq s) < sq_entries s then Some (s\<lparr>sq := sq s @ [d]\<rparr>) else None)"

definition ring_submit :: "sched \<Rightarrow> sched" where
  "ring_submit s = s\<lparr>inflight := inflight s @ sq s, sq := []\<rparr>"

definition push_ready :: "handle \<Rightarrow> sched \<Rightarrow> sched" where
  "push_ready h s = s\<lparr>ready := ready s @ [h], pushed := pushed s @ [h]\<rparr>"

definition runnable :: "sched \<Rightarrow> handle \<Rightarrow> bool" where
  "runnable s h \<longleftrightarrow> h \<noteq> 0 \<and> h \<notin> finished s"

text \<open>\<open>IoOperationBase::prepare_common\<close> and the default \<open>on_complete\<close>.\<close>

definition prepare_common :: "op_addr \<Rightarrow> handle \<Rightarrow> sched \<Rightarrow> sched" where
  "prepare_common a h s = s\<lparr>ops := (ops s)(a \<mapsto> \<lparr>op_handle = h, op_result = 0, op_flags = 0\<rparr>)\<rparr>"

definition op_new :: io_op where
  "op_new = \<lparr>op_handle = 0, op_result = 0, op_flags = 0\<rparr>"

definition op_complete :: "int \<Rightarrow> nat \<Rightarrow> io_op \<Rightarrow> io_op" where
  "op_complete res flags op = op\<lparr>op_result := res, op_flags := flags\<rparr>"

datatype op_fault = DanglingAwaiter   \<comment> \<open>no awaiter lives at the address\<close>

definition op_on_complete :: "op_addr \<Rightarrow> int \<Rightarrow> nat \<Rightarrow> sched \<Rightarrow> op_fault + sched" where
  "op_on_complete a res flags s =
     (case ops s a of
        None \<Rightarrow> Inl DanglingAwaiter
      | Some op \<Rightarrow>
          let s1 = s\<lparr>ops := (ops s)(a \<mapsto> op\<lparr>op_result := res, op_flags := flags\<rparr>)\<rparr>
          in Inr (if runnable s1 (op_handle op) then push_ready (op_handle op) s1 else s1))"

text \<open>\<open>EventfdWatcher::on_complete\<close> and \<open>rearm_eventfd_watch\<close>: no entry, no re-arm.\<close>

definition rearm_eventfd_watch :: "sched \<Rightarrow> sched" where
  "rearm_eventfd_watch s = (case get_sqe UdWake s of Some s' \<Rightarrow> s' | None \<Rightarrow> s\<lparr>watch_lost := True\<rparr>)"

text \<open>\<open>TimerQueue::start\<close> and the re-arm of \<open>TimerfdWatcher\<close>.\<close>

definition timer_queue_start :: "sched \<Rightarrow> sched" where
  "timer_queue_start s = (case get_sqe UdTimer s of Some s' \<Rightarrow> s' | None \<Rightarrow> s)"

definition timerfd_on_complete :: "env \<Rightarrow> int \<Rightarrow> sched \<Rightarrow> tq_error + sched" where
  "timerfd_on_complete env res s =
     rbind (if res \<ge> 0 then handle_expired env (tq s) else Inr (tq s))
       (\<lambda>q. Inr (s\<lparr>tq := q\<rparr>))"

definition eventfd_write :: "nat \<Rightarrow> nat" where
  "eventfd_write c = (if c \<ge> 2 ^ 64 - 2 then c else Suc c)"

definition wake_remote :: "bool \<Rightarrow> sched \<Rightarrow> sched" where
  "wake_remote own s = (if own then s else s\<lparr>wake_count := eventfd_write (wake_count s)\<rparr>)"

text \<open>
  The calls \<open>post\<close>, \<open>post_task\<close> and \<open>stop\<close> from another thread do their part under
  the lock (or their atomic exchange) first and write the eventfd afterwards; other
  threads and the loop may run in between.
\<close>

definition post_enqueue :: "handle \<Rightarrow> sched \<Rightarrow> sched" where
  "post_enqueue h s = s\<lparr>cross_handles := cross_handles s @ [h], posted := posted s @ [h]\<rparr>"

definition post :: "bool \<Rightarrow> handle \<Rightarrow> sched \<Rightarrow> sched" where
  "post own h s = (if own then push_ready h s else wake_remote own (post_enqueue h s))"

definition queue_boot_task :: "xtask \<Rightarrow> sched \<Rightarrow> sched" where
  "queue_boot_task f s = s\<lparr>cross_tasks := cross_tasks s @ [f]\<rparr>"

text \<open>The part of a task that concerns the timer queue; other code is left to the loop.\<close>

definition run_task :: "env \<Rightarrow> xtask \<Rightarrow> sched \<Rightarrow> tq_error + sched" where
  "run_task env f s =
     (case f of
        XUser n \<Rightarrow> Inr s
      | XAdd cb d \<Rightarrow> Inr (s\<lparr>tq := snd (tq_add env cb d (tq s))\<rparr>)
      | XAddPeriodic cb d \<Rightarrow> Inr (s\<lparr>tq := snd (tq_add_periodic env cb d (tq s))\<rparr>)
      | XCancel i \<Rightarrow> rbind (tq_cancel env i (tq s)) (\<lambda>q. Inr (s\<lparr>tq := q\<rparr>)))"

definition post_task :: "env \<Rightarrow> bool \<Rightarrow> xtask \<Rightarrow> sched \<Rightarrow> tq_error + sched" where
  "post_task env own f s =
     (if own then run_task env f s else Inr (wake_remote own (queue_boot_task f s)))"

definition null_timer_id :: timer_id where
  "null_timer_id = \<lparr>tid_timer = 0, tid_seq = 0\<rparr>"

definition run_after :: "env \<Rightarrow> bool \<Rightarrow> callback \<Rightarrow> time \<Rightarrow> sched \<Rightarrow> tq_error + (timer_id \<times> sched)" where
  "run_after env own cb delay s =
     (if own then (case tq_add env cb delay (tq s) of (i, q) \<Rightarrow> Inr (i, s\<lparr>tq := q\<rparr>))
      else rbind (post_task env own (XAdd cb delay) s) (\<lambda>s'. Inr (null_timer_id, s')))"

definition run_every :: "env \<Rightarrow> bool \<Rightarrow> callback \<Rightarrow> time \<Rightarrow> sched \<Rightarrow> tq_error + (timer_id \<times> sched)" where
  "run_every env own cb iv s =
     (if own then (case tq_add_periodic env cb iv (tq s) of (i, q) \<Rightarrow> Inr (i, s\<lparr>tq := q\<rparr>))
      else rbind (post_task env own (XAddPeriodic cb iv) s) (\<lambda>s'. Inr (null_timer_id, s')))"

definition sched_cancel :: "env \<Rightarrow> bool \<Rightarrow> timer_id \<Rightarrow> sched \<Rightarrow> tq_error + sched" where
  "sched_cancel env own i s =
     (if own then rbind (tq_cancel env i (tq s)) (\<lambda>q. Inr (s\<lparr>tq := q\<rparr>))
      else post_task env own (XCancel i) s)"

text \<open>\<open>stop\<close>: the exchange decides who wakes the loop.\<close>

definition stop_own :: "sched \<Rightarrow> sched" where
  "stop_own s =
     (if stopping s then s
      else let s1 = s\<lparr>stopping := True\<rparr>
           in case get_sqe UdNull s1 of Some s2 \<Rightarrow> ring_submit s2 | None \<Rightarrow> s1)"

definition stop_exchange :: "sched \<Rightarrow> sched" where
  "stop_exchange s = (if stopping s then s else s\<lparr>stopping := True, wakers := Suc (wakers s)\<rparr>)"

text \<open>\<open>drain_cross_queue\<close>: swap both vectors out, handles go to the ready queue in order.\<close>

definition drain_cross_queue :: "sched \<Rightarrow> sched" where
  "drain_cross_queue s =
     fold push_ready (filter (runnable s) (cross_handles s))
       (s\<lparr>cross_handles := [], cross_tasks := [], taken := taken s @ cross_handles s,
          pc := RunTasks (cross_tasks s)\<rparr>)"

text \<open>The start of \<open>run\<close>.\<close>

definition run_enter :: "sched \<Rightarrow> sched" where
  "run_enter s = timer_queue_start (rearm_eventfd_watch (s\<lparr>stopping := False, pc := LoopTop\<rparr>))"

definition kBatch :: nat where
  "kBatch = 64"

text \<open>The \<open>on_complete\<close> dispatch for entries other than the timer's.\<close>

definition dispatch :: "cqe \<Rightarrow> sched \<Rightarrow> op_fault + sched" where
  "dispatch c s =
     (case cqe_data c of
        UdNull \<Rightarrow> Inr s
      | UdWake \<Rightarrow> Inr (rearm_eventfd_watch s)
      | UdTimer \<Rightarrow> Inr (timer_queue_start s)
      | UdOp a \<Rightarrow> op_on_complete a (cqe_res c) (if cqe_more c then 1 else 0) s)"

section \<open>Interleaving\<close>

text \<open>The locations at which code of the application runs on the scheduler's thread.\<close>

fun in_user :: "location \<Rightarrow> bool" where
  "in_user (InTask ts) = True"
| "in_user InResume = True"
| "in_user (InTimer cs) = True"
| "in_user _ = False"

fun running :: "location \<Rightarrow> bool" where
  "running NotRunning = False"
| "running Exited = False"
| "running Thrown = False"
| "running _ = True"

text \<open>What application code can do to the scheduler from its own thread.\<close>

inductive user_step :: "env \<Rightarrow> sched \<Rightarrow> sched \<Rightarrow> bool" for env where
  user_post: "user_step env s (post True h s)"
| user_await: "get_sqe (UdOp a) s = Some s' \<Longrightarrow> user_step env s (prepare_common a h s')"
| user_return: "user_step env s (s\<lparr>finished := insert h (finished s)\<rparr>)"
| user_stop: "user_step env s (stop_own s)"
| user_timer: "tq_step env (tq s) q \<Longrightarrow> user_step env s (s\<lparr>tq := q\<rparr>)"

text \<open>Steps of other threads and of the kernel.\<close>

inductive ext_step :: "sched \<Rightarrow> sched \<Rightarrow> bool" where
  ext_post: "ext_step s ((post_enqueue h s)\<lparr>wakers := Suc (wakers s)\<rparr>)"
| ext_post_task: "ext_step s ((queue_boot_task f s)\<lparr>wakers := Suc (wakers s)\<rparr>)"
| ext_boot: "pc s = NotRunning \<Longrightarrow> ext_step s (queue_boot_task f s)"
| ext_stop: "ext_step s (stop_exchange s)"
| ext_wake: "wakers s = Suc n \<Longrightarrow> ext_step s (wake_remote False (s\<lparr>wakers := n\<rparr>))"
| kernel_wake: "UdWake \<in> set (inflight s) \<Longrightarrow> 0 < wake_count s \<Longrightarrow>
    ext_step s (s\<lparr>inflight := remove1 UdWake (inflight s), wake_count := 0,
      cq := cq s @ [\<lparr>cqe_data = UdWake, cqe_res = 8, cqe_more = False\<rparr>]\<rparr>)"
| kernel_wake_again: "UdWake \<in> set (inflight s) \<Longrightarrow> r < 0 \<Longrightarrow>
    ext_step s (s\<lparr>inflight := remove1 UdWake (inflight s),
      cq := cq s @ [\<lparr>cqe_data = UdWake, cqe_res = r, cqe_more = False\<rparr>]\<rparr>)"
| kernel_other: "d \<in> set (inflight s) \<Longrightarrow> d \<noteq> UdWake \<Longrightarrow>
    ext_step s (s\<lparr>inflight := (if m then inflight s else remove1 d (inflight s)),
      cq := cq s @ [\<lparr>cqe_data = d, cqe_res = r, cqe_more = m\<rparr>]\<rparr>)"

text \<open>
  The loop.  Sequence numbers of timers are assumed not to run out; the wait returns with
  the completions that have arrived, possibly none when it was interrupted.
\<close>

definition batch_room :: "env \<Rightarrow> timer_queue \<Rightarrow> bool" where
  "batch_room env q \<longleftrightarrow> next_seq q + batch_adds env q (due (clock env (clk q)) q) \<le> sz_max"

inductive loop_step :: "env \<Rightarrow> sched \<Rightarrow> sched \<Rightarrow> bool" for env where
  enter: "pc s = NotRunning \<Longrightarrow> loop_step env s (run_enter s)"
| top_exit: "pc s = LoopTop \<Longrightarrow> stopping s \<Longrightarrow> loop_step env s (s\<lparr>pc := Exited\<rparr>)"
| top_drain: "pc s = LoopTop \<Longrightarrow> \<not> stopping s \<Longrightarrow> loop_step env s (drain_cross_queue s)"
| task_start: "pc s = RunTasks (f # fs) \<Longrightarrow> next_seq (tq s) < sz_max \<Longrightarrow>
    run_task env f (s\<lparr>pc := InTask fs\<rparr>) = Inr s' \<Longrightarrow> loop_step env s s'"
| task_end: "pc s = InTask fs \<Longrightarrow> loop_step env s (s\<lparr>pc := RunTasks fs\<rparr>)"
| tasks_done: "pc s = RunTasks [] \<Longrightarrow> loop_step env s (s\<lparr>pc := ReadyLoop\<rparr>)"
| ready_pop: "pc s = ReadyLoop \<Longrightarrow> ready s = h # hs \<Longrightarrow>
    loop_step env s (s\<lparr>ready := hs, popped := popped s @ [h],
                       pc := (if runnable s h then InResume else ReadyLoop)\<rparr>)"
| resume_end: "pc s = InResume \<Longrightarrow> loop_step env s (s\<lparr>pc := ReadyLoop\<rparr>)"
| ready_exit: "pc s = ReadyLoop \<Longrightarrow> ready s = [] \<Longrightarrow> stopping s \<Longrightarrow> loop_step env s (s\<lparr>pc := Exited\<rparr>)"
| ready_done: "pc s = ReadyLoop \<Longrightarrow> ready s = [] \<Longrightarrow> \<not> stopping s \<Longrightarrow>
    loop_step env s (s\<lparr>pc := BeforeWait\<rparr>)"
| submit_wait: "pc s = BeforeWait \<Longrightarrow> loop_step env s ((ring_submit s)\<lparr>pc := Blocked\<rparr>)"
| wait_error: "pc s = Blocked \<Longrightarrow> loop_step env s (s\<lparr>pc := Thrown\<rparr>)"
| wait_return: "pc s = Blocked \<Longrightarrow>
    loop_step env s (s\<lparr>pc := Completing (take kBatch (cq s)), cq := drop kBatch (cq s)\<rparr>)"
| complete: "pc s = Completing (c # cs) \<Longrightarrow> cqe_data c \<noteq> UdTimer \<Longrightarrow>
    dispatch c (s\<lparr>pc := Completing cs\<rparr>) = Inr s' \<Longrightarrow> loop_step env s s'"
| complete_timer: "pc s = Completing (c # cs) \<Longrightarrow> cqe_data c = UdTimer \<Longrightarrow>
    batch_room env (tq s) \<Longrightarrow>
    timerfd_on_complete env (cqe_res c) (s\<lparr>pc := InTimer cs\<rparr>) = Inr s' \<Longrightarrow> loop_step env s s'"
| timer_end: "pc s = InTimer cs \<Longrightarrow> loop_step env s (timer_queue_start (s\<lparr>pc := Completing cs\<rparr>))"
| batch_done: "pc s = Completing [] \<Longrightarrow> loop_step env s (s\<lparr>pc := LoopTop\<rparr>)"

inductive sched_step :: "env \<Rightarrow> sched \<Rightarrow> sched \<Rightarrow> bool" for env where
  by_loop: "loop_step env s s' \<Longrightarrow> sched_step env s s'"
| by_user: "in_user (pc s) \<Longrightarrow> user_step env s s' \<Longrightarrow> sched_step env s s'"
| by_other: "ext_step s s' \<Longrightarrow> sched_step env s s'"

definition sched_reach :: "env \<Rightarrow> nat \<Rightarrow> sched \<Rightarrow> bool" where
  "sched_reach env n s \<longleftrightarrow> (sched_step env)\<^sup>*\<^sup>* (sched_new n) s"


section \<open>Invariants\<close>

named_theorems sched_defs \<open>operations that only move fields around\<close>

declare push_ready_def [sched_defs] post_def [sched_defs] post_enqueue_def [sched_defs]
  queue_boot_task_def [sched_defs] wake_remote_def [sched_defs] prepare_common_def [sched_defs]
  stop_own_def [sched_defs] stop_exchange_def [sched_defs] ring_submit_def [sched_defs]
  timer_queue_start_def [sched_defs] rearm_eventfd_watch_def [sched_defs] get_sqe_def [sched_defs]
  run_enter_def [sched_defs] dispatch_def [sched_defs] op_on_complete_def [sched_defs] Let_def [sched_defs]

lemma fold_push_ready:
  "fold push_ready hs s = s\<lparr>ready := ready s @ hs, pushed := pushed s @ hs\<rparr>"
  by (induction hs arbitrary: s) (simp_all add: push_ready_def)

lemma drain_eq [sched_defs]:
  "drain_cross_queue s = s\<lparr>cross_handles := [], cross_tasks := [], taken := taken s @ cross_handles s,
     pc := RunTasks (cross_tasks s), ready := ready s @ filter (runnable s) (cross_handles s),
     pushed := pushed s @ filter (runnable s) (cross_handles s)\<rparr>"
  by (simp add: drain_cross_queue_def fold_push_ready)

lemma sched_tq_self: "\<exists>q. s = s\<lparr>tq := q\<rparr>" for s :: sched
  by (rule exI [of _ "tq s"]) simp

lemma run_task_frame:
  "run_task env f s = Inr s' \<Longrightarrow> \<exists>q. s' = s\<lparr>tq := q\<rparr>"
  by (auto simp: run_task_def rbind_eq_Inr intro: sched_tq_self split: xtask.splits)

lemma timerfd_on_complete_frame:
  "timerfd_on_complete env r s = Inr s' \<Longrightarrow> \<exists>q. s' = s\<lparr>tq := q\<rparr>"
  by (auto simp: timerfd_on_complete_def rbind_eq_Inr intro: sched_tq_self split: if_splits)

subsection \<open>Wake-ups\<close>

fun batch :: "location \<Rightarrow> cqe list" where
  "batch (Completing cs) = cs"
| "batch (InTimer cs) = cs"
| "batch _ = []"

definition wake_cqe :: "cqe list \<Rightarrow> bool" where
  "wake_cqe cs \<longleftrightarrow> UdWake \<in> cqe_data ` set cs"

lemma wake_cqe_Nil [simp]: "\<not> wake_cqe []"
  by (simp add: wake_cqe_def)

text \<open>The watcher is somewhere: queued, submitted, completed, or waiting to be handled.\<close>

definition watched :: "sched \<Rightarrow> bool" where
  "watched s \<longleftrightarrow> UdWake \<in> set (sq s) \<or> UdWake \<in> set (inflight s) \<or> wake_cqe (cq s) \<or> wake_cqe (batch (pc s))"

definition signalled :: "sched \<Rightarrow> bool" where
  "signalled s \<longleftrightarrow> 0 < wakers s \<or> 0 < wake_count s \<or> wake_cqe (cq s)"

fun after_drain :: "location \<Rightarrow> bool" where
  "after_drain (RunTasks ts) = True"
| "after_drain (InTask ts) = True"
| "after_drain ReadyLoop = True"
| "after_drain InResume = True"
| "after_drain BeforeWait = True"
| "after_drain Blocked = True"
| "after_drain _ = False"

definition wake_inv :: "sched \<Rightarrow> bool" where
  "wake_inv s \<longleftrightarrow>
     (running (pc s) \<longrightarrow> \<not> watch_lost s \<longrightarrow> watched s)
   \<and> (after_drain (pc s) \<longrightarrow> cross_handles s \<noteq> [] \<or> cross_tasks s \<noteq> [] \<longrightarrow> signalled s)
   \<and> (pc s = BeforeWait \<or> pc s = Blocked \<longrightarrow> stopping s \<longrightarrow> signalled s)
   \<and> (pc s = Blocked \<longrightarrow> sq s = [])"

lemmas wake_defs = wake_inv_def watched_def signalled_def wake_cqe_def

lemma wake_cqe_take_drop: "wake_cqe (take n cs) \<or> wake_cqe (drop n cs) \<longleftrightarrow> wake_cqe cs"
  unfolding wake_cqe_def by (metis Un_iff append_take_drop_id image_Un set_append)

lemma eventfd_write_pos: "0 < eventfd_write c"
  by (simp add: eventfd_write_def)

lemma ext_step_wake_inv: "ext_step s s' \<Longrightarrow> wake_inv s \<Longrightarrow> wake_inv s'"
proof (induction rule: ext_step.induct)
  case (kernel_wake s)
  then show ?case by (simp add: wake_defs)
next
  case (kernel_wake_again s r)
  then show ?case by (simp add: wake_defs)
next
  case (kernel_other d s m r)
  then show ?case by (simp add: wake_defs)
qed (auto simp: wake_defs sched_defs eventfd_write_pos)

lemma wake_inv_user:
  assumes "wake_inv s" and "in_user (pc s)" and "pc s' = pc s" and "watch_lost s' = watch_lost s"
    and "cross_handles s' = cross_handles s" and "cross_tasks s' = cross_tasks s"
    and "cq s' = cq s" and "wakers s' = wakers s" and "wake_count s' = wake_count s"
    and "set (sq s) \<union> set (inflight s) \<subseteq> set (sq s') \<union> set (inflight s')"
  shows "wake_inv s'"
proof -
  have "pc s \<noteq> BeforeWait" "pc s \<noteq> Blocked" using assms(2) by auto
  then show ?thesis using assms(1,3-9) subsetD [OF assms(10), of UdWake] by (auto simp: wake_defs)
qed

lemma user_step_wake_inv:
  assumes "user_step env s s'" and "in_user (pc s)" and "wake_inv s"
  shows "wake_inv s'"
  by (rule wake_inv_user [OF assms(3,2)])
    (use assms(1) in \<open>cases; auto simp: sched_defs split: if_splits\<close>)+

lemma loop_step_wake_inv: "loop_step env s s' \<Longrightarrow> wake_inv s \<Longrightarrow> wake_inv s'"
proof (induction rule: loop_step.induct)
  case (task_start s f fs s')
  obtain q where "s' = s\<lparr>pc := InTask fs, tq := q\<rparr>" using run_task_frame [OF task_start(3)] by auto
  then show ?case using task_start(1,4) by (simp add: wake_defs)
next
  case (complete_timer s c cs s')
  obtain q where "s' = s\<lparr>pc := InTimer cs, tq := q\<rparr>"
    using timerfd_on_complete_frame [OF complete_timer(4)] by auto
  then show ?case using complete_timer(1,2,5) by (auto simp: wake_defs)
next
  case (wait_return s)
  then show ?case using wake_cqe_take_drop [of kBatch "cq s"] by (auto simp: wake_inv_def watched_def)
next
  case (complete s c cs s')
  then show ?case
    by (cases "cqe_data c") (auto simp: wake_defs sched_defs split: option.splits if_splits)
qed (auto simp: wake_defs sched_defs split: option.splits if_splits)


subsection \<open>Histories\<close>

definition hist_inv :: "sched \<Rightarrow> bool" where
  "hist_inv s \<longleftrightarrow> posted s = taken s @ cross_handles s \<and> pushed s = popped s @ ready s
     \<and> subseq (filter (runnable s) (taken s)) (pushed s)"

lemma filter_runnable_mono:
  assumes "finished s \<subseteq> finished s'"
  shows "subseq (filter (runnable s') hs) (filter (runnable s) hs)"
proof -
  have "filter (runnable s') hs = filter (runnable s') (filter (runnable s) hs)"
    using assms by (auto simp: runnable_def intro!: filter_cong)
  then show ?thesis by (metis subseq_filter_left)
qed

text \<open>A step that leaves the cross queue alone and only appends to the ready queue.\<close>

lemma hist_inv_frame:
  assumes "hist_inv s" and "posted s' = posted s" and "taken s' = taken s"
    and "cross_handles s' = cross_handles s" and "popped s' = popped s"
    and "ready s' = ready s @ hs" and "pushed s' = pushed s @ hs" and "finished s \<subseteq> finished s'"
  shows "hist_inv s'"
proof -
  have "subseq (filter (runnable s') (taken s)) (pushed s)"
    using filter_runnable_mono [OF assms(8)] assms(1) unfolding hist_inv_def
    by (meson subseq_order.order_trans)
  then have "subseq (filter (runnable s') (taken s')) (pushed s')"
    using assms(3,7) by (simp add: subseq_rev_drop_many)
  then show ?thesis using assms by (auto simp: hist_inv_def)
qed


lemma hist_inv_same:
  assumes "hist_inv s" and "posted s' = posted s" and "taken s' = taken s"
    and "cross_handles s' = cross_handles s" and "popped s' = popped s"
    and "ready s' = ready s" and "pushed s' = pushed s" and "finished s' = finished s"
  shows "hist_inv s'"
  by (rule hist_inv_frame [OF assms(1-5), where hs = "[]"]) (use assms in simp_all)

lemma ext_step_hist_inv:
  assumes "ext_step s s'" and "hist_inv s"
  shows "hist_inv s'"
  using assms(1)
proof cases
  case (ext_post h)
  then have "runnable s' = runnable s" by (simp add: runnable_def fun_eq_iff sched_defs)
  with ext_post show ?thesis using assms(2) by (auto simp: hist_inv_def sched_defs)
qed (rule hist_inv_same [OF assms(2)]; simp add: sched_defs)+

lemma user_step_hist_inv:
  assumes "user_step env s s'" and "hist_inv s"
  shows "hist_inv s'"
  using assms(1)
proof cases
  case (user_post h)
  then show ?thesis by (intro hist_inv_frame [OF assms(2), where hs = "[h]"]) (auto simp: sched_defs)
next
  case (user_return h)
  then show ?thesis by (intro hist_inv_frame [OF assms(2), where hs = "[]"]) auto
qed (rule hist_inv_same [OF assms(2)]; auto simp: sched_defs split: if_splits)+

lemma dispatch_hist_inv:
  assumes "hist_inv s" and d: "dispatch c s = Inr s'"
  shows "hist_inv s'"
proof (cases "cqe_data c")
  case (UdOp a)
  then obtain op where "ops s a = Some op" using d by (auto simp: dispatch_def op_on_complete_def split: option.splits)
  then show ?thesis
    using UdOp d by (intro hist_inv_frame [OF assms(1),
        where hs = "if runnable s (op_handle op) then [op_handle op] else []"])
      (auto simp: sched_defs runnable_def)
qed (rule hist_inv_same [OF assms(1)]; use d in \<open>auto simp: sched_defs split: option.splits if_splits\<close>)+

lemma loop_step_hist_inv:
  assumes "loop_step env s s'" and inv: "hist_inv s"
  shows "hist_inv s'"
  using assms(1)
proof cases
  case top_drain
  have r: "runnable s' = runnable s" using top_drain by (simp add: runnable_def fun_eq_iff drain_eq)
  have "subseq (filter (runnable s) (taken s)) (pushed s)" using inv unfolding hist_inv_def by blast
  then have "subseq (filter (runnable s) (taken s) @ filter (runnable s) (cross_handles s))
      (pushed s @ filter (runnable s) (cross_handles s))"
    by (simp only: subseq_append)
  then show ?thesis using inv unfolding hist_inv_def r using top_drain by (auto simp: drain_eq)
next
  case (task_start f fs)
  obtain q where "s' = s\<lparr>pc := InTask fs, tq := q\<rparr>" using run_task_frame [OF task_start(3)] by auto
  then show ?thesis by (intro hist_inv_same [OF inv]) simp_all
next
  case (complete_timer c cs)
  obtain q where "s' = s\<lparr>pc := InTimer cs, tq := q\<rparr>"
    using timerfd_on_complete_frame [OF complete_timer(4)] by auto
  then show ?thesis by (intro hist_inv_same [OF inv]) simp_all
next
  case (ready_pop h hs)
  then have "runnable s' = runnable s" by (simp add: runnable_def fun_eq_iff)
  with ready_pop show ?thesis using inv by (auto simp: hist_inv_def)
next
  case (complete c cs)
  have "hist_inv (s\<lparr>pc := Completing cs\<rparr>)" by (rule hist_inv_same [OF inv]) simp_all
  then show ?thesis using complete(3) dispatch_hist_inv by blast
qed (rule hist_inv_same [OF inv]; simp add: sched_defs)+

subsection \<open>The timer queue of the scheduler\<close>

lemma tq_reach_step: "tq_reach env q \<Longrightarrow> tq_step env q q' \<Longrightarrow> tq_reach env q'"
  unfolding tq_reach_def by (rule rtranclp.rtrancl_into_rtrancl)

lemma run_task_reach:
  assumes "run_task env f s = Inr s'" and "next_seq (tq s) < sz_max" and "tq_reach env (tq s)"
  shows "tq_reach env (tq s')"
proof -
  have "tq s' = tq s \<or> tq_step env (tq s) (tq s')"
    using assms(1,2)
    by (cases f) (auto simp: run_task_def rbind_eq_Inr intro: step_cancel
        intro!: step_add [OF _ prod.collapse [symmetric]] step_periodic [OF _ prod.collapse [symmetric]])
  then show ?thesis using assms(3) tq_reach_step by auto
qed

lemma timerfd_on_complete_reach:
  assumes "timerfd_on_complete env r s = Inr s'" and "batch_room env (tq s)" and "tq_reach env (tq s)"
  shows "tq_reach env (tq s')"
proof -
  have "tq s' = tq s \<or> tq_step env (tq s) (tq s')"
    using assms(1,2) by (auto simp: timerfd_on_complete_def rbind_eq_Inr batch_room_def
        intro: step_expired split: if_splits)
  then show ?thesis using assms(3) tq_reach_step by auto
qed

lemma sched_step_tq_reach:
  assumes "sched_step env s s'" and "tq_reach env (tq s)"
  shows "tq_reach env (tq s')"
  using assms(1)
proof cases
  case by_loop
  then show ?thesis
  proof cases
    case (task_start f fs)
    then show ?thesis using run_task_reach [OF task_start(3)] assms(2) by simp
  next
    case (complete_timer c cs)
    then show ?thesis using timerfd_on_complete_reach [OF complete_timer(4)] assms(2) by simp
  next
    case (complete c cs)
    then show ?thesis using assms(2)
      by (cases "cqe_data c") (auto simp: sched_defs split: option.splits if_splits)
  qed (use assms(2) in \<open>simp_all add: sched_defs\<close>)
next
  case by_user
  from by_user(2) show ?thesis
    by cases (use assms(2) tq_reach_step in \<open>auto simp: sched_defs split: if_splits\<close>)
next
  case by_other
  then show ?thesis by cases (use assms(2) in \<open>simp_all add: sched_defs\<close>)
qed

subsection \<open>Awaiters in the ring\<close>

text \<open>Every address in the queues of the ring or in the batch is that of an awaiter.\<close>

definition ring_data :: "sched \<Rightarrow> user_data set" where
  "ring_data s = set (sq s) \<union> set (inflight s) \<union> cqe_data ` (set (cq s) \<union> set (batch (pc s)))"

definition awaiters_known :: "sched \<Rightarrow> bool" where
  "awaiters_known s \<longleftrightarrow> (\<forall>a. UdOp a \<in> ring_data s \<longrightarrow> ops s a \<noteq> None)"

lemma awaiters_known_frame:
  assumes "awaiters_known s" and "\<And>a. UdOp a \<in> ring_data s' \<Longrightarrow> UdOp a \<in> ring_data s \<or> ops s' a \<noteq> None"
    and "dom (ops s) \<subseteq> dom (ops s')"
  shows "awaiters_known s'"
proof -
  have "ops s' a \<noteq> None" if "UdOp a \<in> ring_data s'" for a
  proof (cases "ops s' a = None")
    case True
    then have "UdOp a \<in> ring_data s" using assms(2) [OF that] by blast
    then have "a \<in> dom (ops s)" using assms(1) by (auto simp: awaiters_known_def)
    then show ?thesis using assms(3) by auto
  qed simp
  then show ?thesis by (simp add: awaiters_known_def)
qed

lemma dispatch_works:
  assumes "awaiters_known s" and "pc s = Completing (c # cs)"
  shows "\<exists>s'. dispatch c (s\<lparr>pc := Completing cs\<rparr>) = Inr s'"
proof -
  have "cqe_data c \<in> ring_data s" using assms(2) by (simp add: ring_data_def)
  then show ?thesis using assms(1)
    by (cases "cqe_data c") (auto simp: dispatch_def op_on_complete_def awaiters_known_def Let_def)
qed

lemma ext_step_awaiters: "ext_step s s' \<Longrightarrow> awaiters_known s \<Longrightarrow> awaiters_known s'"
  by (erule awaiters_known_frame; erule ext_step.cases)
    (auto simp: ring_data_def sched_defs dest: notin_set_remove1 split: if_splits)

lemma user_step_awaiters: "user_step env s s' \<Longrightarrow> awaiters_known s \<Longrightarrow> awaiters_known s'"
  by (erule awaiters_known_frame; erule user_step.cases)
    (auto simp: ring_data_def sched_defs split: if_splits)

lemma loop_step_awaiters:
  assumes "loop_step env s s'" and k: "awaiters_known s"
  shows "awaiters_known s'"
  using assms(1)
proof cases
  case (task_start f fs)
  obtain q where "s' = s\<lparr>pc := InTask fs, tq := q\<rparr>" using run_task_frame [OF task_start(3)] by auto
  then show ?thesis using task_start(1) by (intro awaiters_known_frame [OF k]) (auto simp: ring_data_def)
next
  case (complete_timer c cs)
  obtain q where "s' = s\<lparr>pc := InTimer cs, tq := q\<rparr>"
    using timerfd_on_complete_frame [OF complete_timer(4)] by auto
  then show ?thesis using complete_timer(1) by (intro awaiters_known_frame [OF k]) (auto simp: ring_data_def)
next
  case (complete c cs)
  then show ?thesis
    by (intro awaiters_known_frame [OF k]; cases "cqe_data c")
      (auto simp: ring_data_def sched_defs split: option.splits if_splits)
next
  case wait_return
  then show ?thesis
    by (intro awaiters_known_frame [OF k]) (auto simp: ring_data_def dest: in_set_takeD in_set_dropD)
qed (intro awaiters_known_frame [OF k]; auto simp: ring_data_def sched_defs split: if_splits)+

subsection \<open>All reachable states\<close>

lemma sched_reach_inv:
  assumes "sched_reach env n s"
  shows "wake_inv s \<and> hist_inv s \<and> tq_reach env (tq s) \<and> awaiters_known s"
  using assms unfolding sched_reach_def
proof (induction rule: rtranclp_induct)
  case base
  then show ?case by (simp add: sched_new_def wake_inv_def hist_inv_def tq_reach_def awaiters_known_def ring_data_def)
next
  case (step s s')
  have "tq_reach env (tq s')" using sched_step_tq_reach step by blast
  with step(2) show ?case
    by cases (use step.IH in \<open>auto intro: loop_step_wake_inv user_step_wake_inv ext_step_wake_inv
        loop_step_hist_inv user_step_hist_inv ext_step_hist_inv
        loop_step_awaiters user_step_awaiters ext_step_awaiters\<close>)
qed


section \<open>Properties\<close>

text \<open>\<open>on_complete\<close> stores what \<open>complete\<close> stores, and \<open>prepare_common\<close> forgets the previous use of an awaiter.\<close>

lemma op_on_complete_stores: "ops s a = Some op \<Longrightarrow> \<exists>s'. op_on_complete a res flags s = Inr s' \<and> ops s' a = Some (op_complete res flags op)"
  by (simp add: op_on_complete_def op_complete_def Let_def push_ready_def)

lemma prepare_common_fresh: "ops (prepare_common a h s) a = Some (op_new\<lparr>op_handle := h\<rparr>)"
  by (simp add: prepare_common_def op_new_def)


text \<open>C24: No lost wake-up.  Whenever the loop is blocked while another thread's post, task or
  stop request is pending and every such thread has finished its call, the completion that
  ends the wait has arrived, or the eventfd is readable and a read of it is with the kernel,
  as long as the watcher could always be re-armed.\<close>

theorem no_lost_wakeup:
  assumes "sched_reach env n s" and "pc s = Blocked" and "wakers s = 0" and "\<not> watch_lost s"
    and "cross_handles s \<noteq> [] \<or> cross_tasks s \<noteq> [] \<or> stopping s"
  shows "UdWake \<in> cqe_data ` set (cq s) \<or> (UdWake \<in> set (inflight s) \<and> 0 < wake_count s)"
  using sched_reach_inv [OF assms(1)] assms(2-5) by (auto simp: wake_defs)

text \<open>C25: Nothing posted is lost, duplicated or overtaken.  The handles other threads posted
  are those taken out of the cross queue followed by those still in it; the handles put on
  the ready queue are those popped followed by those still there; and every handle taken over
  whose coroutine has not finished went onto the ready queue, in the order of posting.\<close>

theorem posts_are_fifo:
  assumes "sched_reach env n s"
  shows "posted s = taken s @ cross_handles s \<and> pushed s = popped s @ ready s
    \<and> subseq (filter (runnable s) (taken s)) (pushed s)"
  using sched_reach_inv [OF assms] unfolding hist_inv_def by blast

text \<open>Timers inside the loop.  In every reachable state of a scheduler the completion of
  the timer read and every timer task of another thread run without touching freed timers.\<close>

theorem sched_timers_safe:
  assumes "env_ok env" and "sched_reach env n s" and "batch_room env (tq s)"
  shows "(\<exists>s'. timerfd_on_complete env r s = Inr s') \<and> (\<exists>s'. run_task env f s = Inr s')"
proof -
  have ok: "tq_ok (tq s)" using tq_reach_ok [OF assms(1)] sched_reach_inv [OF assms(2)] by blast
  obtain q where "handle_expired env (tq s) = Inr q"
    using expired_step_ok [OF assms(1) ok] assms(3) by (auto simp: batch_room_def)
  moreover obtain q' where "tq_cancel env i (tq s) = Inr q'" if "f = XCancel i" for i
    using cancel_step_ok [OF ok] by (metis xtask.inject(4))
  ultimately show ?thesis by (cases f) (auto simp: timerfd_on_complete_def run_task_def)
qed

text \<open>A timer requested from another thread cannot be cancelled by its caller: the
  handle returned is null, cancelling it does nothing, and the timer is only queued as a task.\<close>

theorem cross_thread_timer_has_null_id:
  assumes "run_after env False cb d s = Inr (i, s')"
  shows "\<not> tid_valid i \<and> sched_cancel env True i s' = Inr s' \<and> tq s' = tq s
    \<and> cross_tasks s' = cross_tasks s @ [XAdd cb d] \<and> 0 < wake_count s'"
  using assms eventfd_write_pos
  by (auto simp: run_after_def post_task_def null_timer_id_def tid_valid_def sched_cancel_def
      tq_cancel_def wake_remote_def queue_boot_task_def)

subsection \<open>A stop request before the loop starts\<close>

lemma idle_round:
  assumes "pc s = LoopTop" and "\<not> stopping s" and "ready s = []"
    and "cross_handles s = []" and "cross_tasks s = []"
  shows "(sched_step env)\<^sup>*\<^sup>* s ((ring_submit s)\<lparr>pc := Blocked\<rparr>)"
proof -
  have d: "drain_cross_queue s = s\<lparr>pc := RunTasks []\<rparr>" using assms by (simp add: drain_eq)
  have "sched_step env s (s\<lparr>pc := RunTasks []\<rparr>)"
    using by_loop [OF top_drain] assms(1,2) d by metis
  also have "(sched_step env)\<^sup>*\<^sup>* (s\<lparr>pc := RunTasks []\<rparr>) (s\<lparr>pc := ReadyLoop\<rparr>)"
    using by_loop [OF tasks_done, where s = "s\<lparr>pc := RunTasks []\<rparr>" and env = env] by auto
  also have "sched_step env (s\<lparr>pc := ReadyLoop\<rparr>) (s\<lparr>pc := BeforeWait\<rparr>)"
    using by_loop [OF ready_done, where s = "s\<lparr>pc := ReadyLoop\<rparr>" and env = env] assms(2,3) by simp
  also have "sched_step env (s\<lparr>pc := BeforeWait\<rparr>) ((ring_submit s)\<lparr>pc := Blocked\<rparr>)"
    using by_loop [OF submit_wait, where s = "s\<lparr>pc := BeforeWait\<rparr>" and env = env] by (simp add: ring_submit_def)
  finally show ?thesis by simp
qed

lemma by_loop_eq: "loop_step env s s' \<Longrightarrow> t = s' \<Longrightarrow> sched_step env s t"
  by (simp add: by_loop)

lemma by_other_eq: "ext_step s s' \<Longrightarrow> t = s' \<Longrightarrow> sched_step env s t"
  by (simp add: by_other)

lemma wake_round:
  assumes "pc s = Blocked" and "UdWake \<in> set (inflight s)" and "0 < wake_count s" and "cq s = []"
    and "sq s = []" and "0 < sq_entries s"
  shows "(sched_step env)\<^sup>*\<^sup>* s (s\<lparr>inflight := remove1 UdWake (inflight s), wake_count := 0,
    cq := [], sq := [UdWake], pc := LoopTop\<rparr>)"
proof -
  let ?c = "\<lparr>cqe_data = UdWake, cqe_res = 8, cqe_more = False\<rparr>"
  let ?k = "s\<lparr>inflight := remove1 UdWake (inflight s), wake_count := 0, cq := []\<rparr>"
  have "(sched_step env)\<^sup>*\<^sup>* s (?k\<lparr>cq := [?c]\<rparr>)"
    by (rule r_into_rtranclp, rule by_other_eq [OF kernel_wake [OF assms(2,3)]]) (simp add: assms(4))
  also have "sched_step env (?k\<lparr>cq := [?c]\<rparr>) (?k\<lparr>pc := Completing [?c]\<rparr>)"
    by (rule by_loop_eq [OF wait_return]) (simp_all add: assms(1) kBatch_def)
  also have "sched_step env (?k\<lparr>pc := Completing [?c]\<rparr>) (?k\<lparr>pc := Completing [], sq := [UdWake]\<rparr>)"
    by (rule by_loop_eq [OF complete [of _ ?c "[]"]]) (simp_all add: assms(5,6) sched_defs)
  also have "sched_step env (?k\<lparr>pc := Completing [], sq := [UdWake]\<rparr>) (?k\<lparr>sq := [UdWake], pc := LoopTop\<rparr>)"
    by (rule by_loop_eq [OF batch_done]) simp_all
  finally show ?thesis by simp
qed

text \<open>A stop request that completes before \<open>run\<close> starts is lost: \<open>run\<close> clears the
  flag, the wake-up it left behind is consumed, and the loop then waits with nothing pending.\<close>

theorem stop_before_run_is_lost:
  assumes "2 \<le> n"
  shows "\<exists>s1 s2. sched_reach env n s1 \<and> pc s1 = NotRunning \<and> stopping s1 \<and> wakers s1 = 0
    \<and> (sched_step env)\<^sup>*\<^sup>* s1 s2 \<and> pc s2 = Blocked \<and> \<not> stopping s2 \<and> wake_count s2 = 0
    \<and> wakers s2 = 0 \<and> cq s2 = [] \<and> set (inflight s2) = {UdWake, UdTimer}"
proof -
  let ?s0 = "sched_new n"
  let ?s1 = "?s0\<lparr>stopping := True, wake_count := 1\<rparr>"
  let ?s2 = "?s0\<lparr>wake_count := 1, sq := [UdWake, UdTimer], pc := LoopTop\<rparr>"
  let ?s3 = "?s0\<lparr>wake_count := 1, inflight := [UdWake, UdTimer], pc := Blocked\<rparr>"
  let ?s4 = "?s0\<lparr>inflight := [UdTimer], sq := [UdWake], pc := LoopTop\<rparr>"
  let ?s5 = "?s0\<lparr>inflight := [UdTimer, UdWake], pc := Blocked\<rparr>"
  have "sched_step env ?s0 (?s0\<lparr>stopping := True, wakers := 1\<rparr>)"
    using by_other [OF ext_stop, where s = ?s0 and env = env] by (simp add: stop_exchange_def sched_new_def)
  moreover have "sched_step env (?s0\<lparr>stopping := True, wakers := 1\<rparr>) ?s1"
    by (rule by_other_eq [OF ext_wake [of _ 0]]) (simp_all add: wake_remote_def eventfd_write_def sched_new_def)
  ultimately have r1: "sched_reach env n ?s1" unfolding sched_reach_def by simp
  have "sched_step env ?s1 ?s2"
    using by_loop [OF enter, where s = ?s1 and env = env] assms by (simp add: sched_defs sched_new_def)
  also have "(sched_step env)\<^sup>*\<^sup>* ?s2 ?s3"
    using idle_round [of ?s2 env] by (simp add: sched_new_def ring_submit_def)
  also have "(sched_step env)\<^sup>*\<^sup>* ?s3 ?s4"
    using wake_round [of ?s3 env] assms by (simp add: sched_new_def)
  also have "(sched_step env)\<^sup>*\<^sup>* ?s4 ?s5"
    using idle_round [of ?s4 env] by (simp add: sched_new_def ring_submit_def)
  finally have "(sched_step env)\<^sup>*\<^sup>* ?s1 ?s5" .
  with r1 show ?thesis by (intro exI [of _ ?s1] exI [of _ ?s5]) (auto simp: sched_new_def)
qed


section \<open>Construction\<close>

record sched_config =
  ring_entries :: nat
  cfg_sqpoll :: bool
  sq_thread_idle_ms :: nat
  wq_fd :: int
  sq_thread_cpu :: int
  use_fixed_buffers :: bool
  buf_slot_size :: nat
  buf_pool_capacity :: nat

definition default_config :: sched_config where
  "default_config = \<lparr>ring_entries = 8192, cfg_sqpoll = False, sq_thread_idle_ms = 1000, wq_fd = - 1,
     sq_thread_cpu = - 1, use_fixed_buffers = False, buf_slot_size = 16 * 1024, buf_pool_capacity = 0\<rparr>"

record sched_resources =
  res_ring :: uring
  res_wake_fd :: int
  res_pool :: "buffer_pool option"      \<comment> \<open>\<open>buf_pool_\<close>, may be null\<close>

definition ring_params_of :: "sched_config \<Rightarrow> uring_params" where
  "ring_params_of cfg = \<lparr>up_entries = ring_entries cfg, up_sqpoll = cfg_sqpoll cfg,
     up_idle_ms = sq_thread_idle_ms cfg, up_wq_fd = wq_fd cfg, up_cpu = sq_thread_cpu cfg\<rparr>"

text \<open>
  The constructor; \<open>efd\<close> and \<open>tfd\<close> are what \<open>eventfd\<close> and \<open>timerfd_create\<close>
  return.  Only the second result is checked: a negative one is thrown as \<open>Inl\<close> of the
  error number \<open>err\<close>.
\<close>

definition sched_construct :: "ring_abi \<Rightarrow> (nat \<Rightarrow> kernel_params \<Rightarrow> int \<times> nat) \<Rightarrow> int \<Rightarrow> int \<Rightarrow> int
    \<Rightarrow> (nat \<Rightarrow> nat) \<Rightarrow> (iovec list \<Rightarrow> int) \<Rightarrow> sched_config \<Rightarrow> int + sched_resources" where
  "sched_construct abi init efd tfd err mem reg cfg =
     rbind (uring_new abi init (ring_params_of cfg)) (\<lambda>ring.
     if tfd < 0 then Inl err
     else Inr \<lparr>res_ring = ring, res_wake_fd = efd,
       res_pool =
         (if use_fixed_buffers cfg \<and> buf_pool_capacity cfg > 0
          then let p = pool_new mem reg (buf_pool_capacity cfg) (buf_slot_size cfg)
               in if pool_enabled p then Some p else None
          else None)\<rparr>)"

text \<open>A scheduler hands out a buffer pool only if it was asked for and registered:
  whatever pool it has is enabled, consistent and has all its slots free.\<close>

theorem sched_pool_is_usable:
  assumes "sched_construct abi init efd tfd err mem reg cfg = Inr res" and "res_pool res = Some p"
  shows "pool_enabled p \<and> pool_inv {} p \<and> use_fixed_buffers cfg
    \<and> pool_capacity p = min (buf_pool_capacity cfg) kMaxRegBuffers
    \<and> distinct (free_list p) \<and> set (free_list p) = {0..<int (pool_capacity p)}"
proof -
  let ?p = "pool_new mem reg (buf_pool_capacity cfg) (buf_slot_size cfg)"
  have p: "p = ?p" "pool_enabled ?p" "use_fixed_buffers cfg"
    using assms by (auto simp: sched_construct_def rbind_eq_Inr Let_def split: if_splits)
  then show ?thesis
    using pool_new_inv [of mem reg "buf_pool_capacity cfg" "buf_slot_size cfg"] pool_new_enabled(4) [OF p(2)]
    by (auto simp: pool_inv_def)
qed

section \<open>Concrete runs\<close>

definition demo_blocked :: sched where
  "demo_blocked = (sched_new 4)\<lparr>inflight := [UdWake, UdTimer], pc := Blocked, cross_handles := [7],
     posted := [7], wake_count := 1\<rparr>"

lemma demo_blocked_reach: "sched_reach env 4 demo_blocked"
proof -
  let ?s0 = "sched_new 4"
  let ?s1 = "?s0\<lparr>sq := [UdWake, UdTimer], pc := LoopTop\<rparr>"
  let ?s2 = "?s0\<lparr>inflight := [UdWake, UdTimer], pc := Blocked\<rparr>"
  let ?s3 = "?s2\<lparr>cross_handles := [7], posted := [7], wakers := 1\<rparr>"
  have "(sched_step env)\<^sup>*\<^sup>* ?s0 ?s1"
    by (rule r_into_rtranclp, rule by_loop_eq [OF enter]) (simp_all add: sched_defs sched_new_def)
  also have "(sched_step env)\<^sup>*\<^sup>* ?s1 ?s2"
    using idle_round [of ?s1 env] by (simp add: sched_new_def ring_submit_def)
  also have "sched_step env ?s2 ?s3"
    by (rule by_other_eq [OF ext_post [where h = 7]]) (simp add: sched_defs sched_new_def)
  also have "sched_step env ?s3 demo_blocked"
    by (rule by_other_eq [OF ext_wake [of _ 0]])
      (simp_all add: demo_blocked_def wake_remote_def eventfd_write_def sched_new_def)
  finally show ?thesis by (simp add: sched_reach_def)
qed

theorem no_lost_wakeup_witness:
  "UdWake \<in> set (inflight demo_blocked) \<and> 0 < wake_count demo_blocked \<and> cq demo_blocked = []"
  using no_lost_wakeup [OF demo_blocked_reach] by (simp add: demo_blocked_def sched_new_def)

theorem posts_are_fifo_witness: "posted demo_blocked = taken demo_blocked @ cross_handles demo_blocked"
  using posts_are_fifo [OF demo_blocked_reach] by blast

lemma demo_blocked_room: "batch_room demo_env (tq demo_blocked)"
  by (simp add: batch_room_def demo_blocked_def sched_new_def tq_init_def due_def batch_adds_def sz_max_def)

theorem sched_timers_safe_witness: "\<exists>s'. timerfd_on_complete demo_env 8 demo_blocked = Inr s'"
  using sched_timers_safe [OF demo_env_ok demo_blocked_reach demo_blocked_room] by blast

theorem cross_thread_timer_has_null_id_witness:
  "\<exists>i s'. run_after demo_env False 0 5 demo_blocked = Inr (i, s') \<and> \<not> tid_valid i"
proof -
  obtain i s' where "run_after demo_env False 0 5 demo_blocked = Inr (i, s')"
    by (simp add: run_after_def post_task_def)
  with cross_thread_timer_has_null_id [OF this] show ?thesis by blast
qed

theorem stop_before_run_is_lost_witness:
  "\<exists>s1 s2. sched_reach demo_env 2 s1 \<and> stopping s1 \<and> (sched_step demo_env)\<^sup>*\<^sup>* s1 s2 \<and> pc s2 = Blocked \<and> \<not> stopping s2"
  using stop_before_run_is_lost [of 2 demo_env] by auto

theorem sched_pool_is_usable_witness:
  "\<exists>res p. sched_construct linux_abi (\<lambda>n kp. (0, 0)) 5 6 0 (\<lambda>n. 4096) (\<lambda>v. 0)
      (default_config\<lparr>use_fixed_buffers := True, buf_pool_capacity := 2\<rparr>) = Inr res
    \<and> res_pool res = Some p \<and> pool_capacity p = 2"
proof -
  let ?cfg = "default_config\<lparr>use_fixed_buffers := True, buf_pool_capacity := 2\<rparr>"
  obtain res p where r: "sched_construct linux_abi (\<lambda>n kp. (0, 0)) 5 6 0 (\<lambda>n. 4096) (\<lambda>v. 0) ?cfg = Inr res"
      "res_pool res = Some p"
    by (simp add: sched_construct_def uring_new_def flag_candidates_def Let_def pool_new_def default_config_def)
  have "pool_capacity p = 2"
    using sched_pool_is_usable [OF r] by (simp add: kMaxRegBuffers_def)
  with r show ?thesis by blast
qed

end
