(* ===== verification/Scheduler_Life.thy ===== *)
theory Scheduler_Life
  imports Scheduler
begin

text \<open>
  Construction and destruction of \<open>Scheduler\<close>, \<open>TimerQueue\<close>, \<open>IoUring\<close> and
  \<open>RegisteredBufferPool\<close> as the resources they take and give back, in order, exceptions
  included; and the completion queue as the loop of \<open>run\<close> reads it, batch by batch.
\<close>

section \<open>Resources\<close>

datatype watcher = WakeWatcher | TimerWatcher      \<comment> \<open>the two \<open>IoOperationBase\<close> objects of a scheduler\<close>

datatype resource =
    ResRing
  | ResEventFd int
  | ResTimerFd int
  | ResWatcher watcher
  | ResArena nat
  | ResBuffers          \<comment> \<open>the registration of the arena with the ring\<close>

datatype life_event = Acquire resource | Release resource

text \<open>
  The discipline of these resources: nothing is taken twice or given back twice, buffers are
  registered with a live ring, and neither the ring nor the arena goes away under a registration.
\<close>

fun is_arena :: "resource \<Rightarrow> bool" where
  "is_arena (ResArena a) = True"
| "is_arena _ = False"

definition life_step :: "life_event \<Rightarrow> resource list \<Rightarrow> resource list option" where
  "life_step e held =
     (case e of
        Acquire r \<Rightarrow> if r \<in> set held \<or> (r = ResBuffers \<and> ResRing \<notin> set held) then None else Some (r # held)
      | Release r \<Rightarrow> if r \<notin> set held \<or> ((r = ResRing \<or> is_arena r) \<and> ResBuffers \<in> set held) then None
                    else Some (remove1 r held))"

fun life :: "life_event list \<Rightarrow> resource list \<Rightarrow> resource list option" where
  "life [] held = Some held"
| "life (e # es) held = (case life_step e held of None \<Rightarrow> None | Some h \<Rightarrow> life es h)"

lemma life_append: "life (es @ fs) held = (case life es held of None \<Rightarrow> None | Some h \<Rightarrow> life fs h)"
  by (induction es arbitrary: held) (auto split: option.splits)

lemma life_trans: "life es a = Some b \<Longrightarrow> life fs b = Some c \<Longrightarrow> life (es @ fs) a = Some c"
  by (simp add: life_append)

lemmas life_simps = life_step_def life_append

section \<open>Constructors and destructors\<close>

text \<open>\<open>RegisteredBufferPool\<close>: a failed registration frees the arena again.\<close>

definition pool_ctor :: "(nat \<Rightarrow> nat) \<Rightarrow> (iovec list \<Rightarrow> int) \<Rightarrow> nat \<Rightarrow> nat \<Rightarrow> life_event list" where
  "pool_ctor mem reg capacity slot_size =
     (if capacity = 0 \<or> slot_size = 0 then []
      else let cap = (if capacity > kMaxRegBuffers then kMaxRegBuffers else capacity);
               base = mem (sz_mul cap slot_size)
           in if base = 0 then []
              else if reg (pool_iovs base cap slot_size) < 0 then [Acquire (ResArena base), Release (ResArena base)]
              else [Acquire (ResArena base), Acquire ResBuffers])"

definition pool_dtor :: "buffer_pool \<Rightarrow> life_event list" where
  "pool_dtor p = (if pool_enabled p then [Release ResBuffers] else [])
     @ (if arena p \<noteq> 0 then [Release (ResArena (arena p))] else [])"

text \<open>\<open>TimerQueue\<close>: without a descriptor the constructor throws \<open>err\<close>.\<close>

definition timer_queue_ctor :: "int \<Rightarrow> int \<Rightarrow> life_event list \<times> (int + int)" where
  "timer_queue_ctor tfd err =
     (if tfd < 0 then ([], Inl err)
      else ([Acquire (ResTimerFd tfd), Acquire (ResWatcher TimerWatcher)], Inr tfd))"

definition timer_queue_dtor :: "int \<Rightarrow> life_event list" where
  "timer_queue_dtor tfd = (if tfd \<ge> 0 then [Release (ResTimerFd tfd)] else []) @ [Release (ResWatcher TimerWatcher)]"

text \<open>\<open>IoUring\<close>.\<close>

definition uring_ctor :: "ring_abi \<Rightarrow> (nat \<Rightarrow> kernel_params \<Rightarrow> int \<times> nat) \<Rightarrow> uring_params \<Rightarrow> life_event list \<times> (int + uring)" where
  "uring_ctor abi init p =
     (case uring_new abi init p of Inl e \<Rightarrow> ([], Inl e) | Inr r \<Rightarrow> ([Acquire ResRing], Inr r))"

definition uring_dtor :: "life_event list" where
  "uring_dtor = [Release ResRing]"

text \<open>
  \<open>Scheduler\<close>.  An exception of the timer queue's constructor leaves the body: the members built
  so far are destroyed in reverse order of declaration, the destructor's own body is not run.
\<close>

definition sched_pool_ctor :: "(nat \<Rightarrow> nat) \<Rightarrow> (iovec list \<Rightarrow> int) \<Rightarrow> sched_config \<Rightarrow> life_event list \<times> buffer_pool option" where
  "sched_pool_ctor mem reg cfg =
     (if use_fixed_buffers cfg \<and> buf_pool_capacity cfg > 0
      then let p = pool_new mem reg (buf_pool_capacity cfg) (buf_slot_size cfg);
               ev = pool_ctor mem reg (buf_pool_capacity cfg) (buf_slot_size cfg)
           in if pool_enabled p then (ev, Some p) else (ev @ pool_dtor p, None)
      else ([], None))"

definition sched_ctor :: "ring_abi \<Rightarrow> (nat \<Rightarrow> kernel_params \<Rightarrow> int \<times> nat) \<Rightarrow> int \<Rightarrow> int \<Rightarrow> int
    \<Rightarrow> (nat \<Rightarrow> nat) \<Rightarrow> (iovec list \<Rightarrow> int) \<Rightarrow> sched_config \<Rightarrow> life_event list \<times> (int + sched_resources \<times> int)" where
  "sched_ctor abi init efd tfd err mem reg cfg =
     (case uring_ctor abi init (ring_params_of cfg) of
        (ev, Inl e) \<Rightarrow> (ev, Inl e)
      | (ev, Inr ring) \<Rightarrow>
          let ev1 = ev @ (if efd \<ge> 0 then [Acquire (ResEventFd efd)] else []) @ [Acquire (ResWatcher WakeWatcher)]
          in case timer_queue_ctor tfd err of
               (tev, Inl e) \<Rightarrow> (ev1 @ tev @ [Release (ResWatcher WakeWatcher)] @ uring_dtor, Inl e)
             | (tev, Inr t) \<Rightarrow>
                 let (pev, p) = sched_pool_ctor mem reg cfg
                 in (ev1 @ tev @ pev, Inr (\<lparr>res_ring = ring, res_wake_fd = efd, res_pool = p\<rparr>, t)))"

definition sched_dtor :: "sched_resources \<times> int \<Rightarrow> life_event list" where
  "sched_dtor r =
     (case r of (res, tfd) \<Rightarrow>
        (case res_pool res of None \<Rightarrow> [] | Some p \<Rightarrow> pool_dtor p)
      @ timer_queue_dtor tfd
      @ (if res_wake_fd res \<ge> 0 then [Release (ResEventFd (res_wake_fd res))] else [])
      @ [Release (ResWatcher WakeWatcher)]
      @ uring_dtor)"

section \<open>Everything taken is given back\<close>

text \<open>The two readings of a constructor agree.\<close>

lemma sched_ctor_construct:
  "sched_construct abi init efd tfd err mem reg cfg =
     (case snd (sched_ctor abi init efd tfd err mem reg cfg) of Inl e \<Rightarrow> Inl e | Inr (res, t) \<Rightarrow> Inr res)"
  by (simp add: sched_construct_def sched_ctor_def uring_ctor_def timer_queue_ctor_def sched_pool_ctor_def Let_def
      split: sum.splits)

lemma pool_ctor_held:
  assumes "ResRing \<in> set held" and "ResBuffers \<notin> set held" and "\<And>a. ResArena a \<notin> set held"
  shows "life (pool_ctor mem reg c z) held =
     Some (let p = pool_new mem reg c z in if pool_enabled p then ResBuffers # ResArena (arena p) # held else held)"
  using assms by (auto simp: pool_ctor_def pool_new_def life_simps Let_def)

lemma pool_new_arena: "pool_enabled (pool_new mem reg c z) \<longleftrightarrow> arena (pool_new mem reg c z) \<noteq> 0"
  by (auto simp: pool_new_def Let_def)

lemma sched_pool_ctor_held:
  assumes "sched_pool_ctor mem reg cfg = (ev, p)"
    and "ResRing \<in> set held" and "ResBuffers \<notin> set held" and "\<And>a. ResArena a \<notin> set held"
  shows "\<exists>h. life ev held = Some h \<and> life (case p of None \<Rightarrow> [] | Some q \<Rightarrow> pool_dtor q) h = Some held"
proof -
  let ?p = "pool_new mem reg (buf_pool_capacity cfg) (buf_slot_size cfg)"
  note held = pool_ctor_held [OF assms(2-4), of mem reg "buf_pool_capacity cfg" "buf_slot_size cfg"]
  show ?thesis
  proof (cases "use_fixed_buffers cfg \<and> buf_pool_capacity cfg > 0")
    case False
    then show ?thesis using assms(1) by (auto simp: sched_pool_ctor_def)
  next
    case True
    then show ?thesis using assms(1,2-4) held pool_new_arena [of mem reg "buf_pool_capacity cfg" "buf_slot_size cfg"]
      by (auto simp: sched_pool_ctor_def Let_def pool_dtor_def life_simps split: if_splits)
  qed
qed

text \<open>A scheduler keeps its resources in order.  Whatever the kernel answers, construction takes
  nothing twice and uses nothing it does not hold; destruction after it gives everything back,
  once each, the registered buffers before the ring; and a constructor that throws keeps nothing,
  except that the eventfd stays open when the timer descriptor could not be created.\<close>

theorem sched_life_balanced:
  "case sched_ctor abi init efd tfd err mem reg cfg of
     (ev, Inr res) \<Rightarrow> life (ev @ sched_dtor res) [] = Some []
   | (ev, Inl e) \<Rightarrow> life ev [] = Some (if (\<exists>r. uring_new abi init (ring_params_of cfg) = Inr r) \<and> 0 \<le> efd
                                       then [ResEventFd efd] else [])"
proof (cases "uring_new abi init (ring_params_of cfg)")
  case (Inl e)
  then show ?thesis by (simp add: sched_ctor_def uring_ctor_def)
next
  case (Inr ring)
  note ring = this
  show ?thesis
  proof (cases "tfd < 0")
    case True
    then show ?thesis using ring
      by (simp add: sched_ctor_def uring_ctor_def timer_queue_ctor_def uring_dtor_def life_simps)
  next
    case False
    obtain pev p where p: "sched_pool_ctor mem reg cfg = (pev, p)" by fastforce
    let ?held = "[ResWatcher TimerWatcher, ResTimerFd tfd, ResWatcher WakeWatcher]
      @ (if efd \<ge> 0 then [ResEventFd efd] else []) @ [ResRing]"
    obtain h where h: "life pev ?held = Some h"
        "life (case p of None \<Rightarrow> [] | Some q \<Rightarrow> pool_dtor q) h = Some ?held"
      using sched_pool_ctor_held [OF p, of ?held] by auto
    have c: "sched_ctor abi init efd tfd err mem reg cfg =
        (([Acquire ResRing] @ (if efd \<ge> 0 then [Acquire (ResEventFd efd)] else []) @ [Acquire (ResWatcher WakeWatcher)])
          @ [Acquire (ResTimerFd tfd), Acquire (ResWatcher TimerWatcher)] @ pev,
         Inr (\<lparr>res_ring = ring, res_wake_fd = efd, res_pool = p\<rparr>, tfd))"
      using ring False p by (simp add: sched_ctor_def uring_ctor_def timer_queue_ctor_def)
    have up: "life (([Acquire ResRing] @ (if efd \<ge> 0 then [Acquire (ResEventFd efd)] else []) @ [Acquire (ResWatcher WakeWatcher)])
          @ [Acquire (ResTimerFd tfd), Acquire (ResWatcher TimerWatcher)]) [] = Some ?held"
      by (simp add: life_simps)
    have down: "life (timer_queue_dtor tfd @ (if efd \<ge> 0 then [Release (ResEventFd efd)] else [])
          @ [Release (ResWatcher WakeWatcher)] @ uring_dtor) ?held = Some []"
      using False by (simp add: life_simps timer_queue_dtor_def uring_dtor_def)
    show ?thesis
      using life_trans [OF life_trans [OF up h(1)] life_trans [OF h(2) down]]
      by (cases "0 \<le> efd") (simp_all add: c sched_dtor_def del: life.simps)
  qed
qed

text \<open>The one leak: no timer descriptor.\<close>

lemma eventfd_leaks_without_timerfd:
  assumes "uring_new abi init (ring_params_of cfg) = Inr r" and "tfd < 0" and "0 \<le> efd"
  shows "\<exists>ev. sched_ctor abi init efd tfd err mem reg cfg = (ev, Inl err) \<and> life ev [] = Some [ResEventFd efd]"
  using assms by (simp add: sched_ctor_def uring_ctor_def timer_queue_ctor_def uring_dtor_def life_simps)

text \<open>
  The reads of the two watchers are still with the kernel when the loop has ended: closing their
  descriptors does not recall them, and the watchers into which they write are freed before the
  ring is closed.
\<close>

definition position :: "life_event \<Rightarrow> life_event list \<Rightarrow> nat" where
  "position e es = length (takeWhile (\<lambda>f. f \<noteq> e) es)"

lemma watchers_freed_before_ring:
  assumes "0 \<le> tfd"
  shows "position (Release (ResWatcher w)) (sched_dtor (res, tfd)) < position (Release ResRing) (sched_dtor (res, tfd))"
  using assms
  by (cases w) (auto simp: position_def sched_dtor_def timer_queue_dtor_def uring_dtor_def pool_dtor_def takeWhile_append
      split: option.splits)

lemma reads_in_flight_at_exit:
  assumes "3 \<le> n"
  shows "\<exists>s. sched_reach env n s \<and> pc s = Exited \<and> UdWake \<in> set (inflight s) \<and> UdTimer \<in> set (inflight s)"
proof -
  let ?s0 = "sched_new n"
  let ?s1 = "?s0\<lparr>cross_tasks := [XUser 0]\<rparr>"
  let ?s2 = "?s1\<lparr>sq := [UdWake, UdTimer], pc := LoopTop\<rparr>"
  let ?s3 = "?s0\<lparr>sq := [UdWake, UdTimer], pc := RunTasks [XUser 0]\<rparr>"
  let ?s4 = "?s0\<lparr>sq := [UdWake, UdTimer], pc := InTask []\<rparr>"
  let ?s5 = "?s0\<lparr>inflight := [UdWake, UdTimer, UdNull], stopping := True, pc := InTask []\<rparr>"
  note [simp] = sched_new_def
  have "(sched_step env)\<^sup>*\<^sup>* ?s0 ?s1"
    by (rule r_into_rtranclp, rule by_other_eq [OF ext_boot [where f = "XUser 0"]]) (simp_all add: sched_defs)
  also have "sched_step env ?s1 ?s2" by (rule by_loop_eq [OF enter]) (use assms in \<open>simp_all add: sched_defs\<close>)
  also have "sched_step env ?s2 ?s3" by (rule by_loop_eq [OF top_drain]) (simp_all add: sched_defs)
  also have "sched_step env ?s3 ?s4"
    by (rule by_loop, rule task_start [where f = "XUser 0" and fs = "[]"]) (simp_all add: run_task_def tq_init_def sz_max_def)
  also have "sched_step env ?s4 ?s5"
    using by_user [OF _ user_stop, of ?s4 env] assms by (simp add: sched_defs)
  also have "sched_step env ?s5 (?s5\<lparr>pc := RunTasks []\<rparr>)" by (rule by_loop_eq [OF task_end]) simp_all
  also have "sched_step env (?s5\<lparr>pc := RunTasks []\<rparr>) (?s5\<lparr>pc := ReadyLoop\<rparr>)" by (rule by_loop_eq [OF tasks_done]) simp_all
  also have "sched_step env (?s5\<lparr>pc := ReadyLoop\<rparr>) (?s5\<lparr>pc := Exited\<rparr>)" by (rule by_loop_eq [OF ready_exit]) simp_all
  finally have "sched_reach env n (?s5\<lparr>pc := Exited\<rparr>)" by (simp add: sched_reach_def)
  then show ?thesis by (intro exI [of _ "?s5\<lparr>pc := Exited\<rparr>"]) simp
qed

section \<open>The completion queue\<close>

text \<open>
  \<open>peek_batch_cqe\<close> shows the first entries without removing them, \<open>cq_advance\<close> and
  \<open>cqe_seen\<close> remove entries from the front.
\<close>

definition peek_batch_cqe :: "nat \<Rightarrow> sched \<Rightarrow> cqe list" where
  "peek_batch_cqe count s = take count (cq s)"

definition cq_advance :: "nat \<Rightarrow> sched \<Rightarrow> sched" where
  "cq_advance n s = s\<lparr>cq := drop n (cq s)\<rparr>"

definition cqe_seen :: "sched \<Rightarrow> sched" where
  "cqe_seen s = cq_advance 1 s"

text \<open>
  \<open>run\<close> advances the queue after the batch, the step relation when it takes the batch.  The two
  agree: handling an entry does not read the queue, other steps only append to it.
\<close>

lemma wait_return_takes_batch:
  assumes "pc s = Blocked"
  shows "loop_step env s (cq_advance (length (peek_batch_cqe kBatch s)) (s\<lparr>pc := Completing (peek_batch_cqe kBatch s)\<rparr>))"
proof -
  have "drop (length (take kBatch (cq s))) (cq s) = drop kBatch (cq s)" by (cases "length (cq s) \<le> kBatch") auto
  then show ?thesis using wait_return [OF assms, of env] by (simp add: cq_advance_def peek_batch_cqe_def)
qed

lemma cq_advance_dispatch: "map_sum id (cq_advance n) (dispatch c s) = dispatch c (cq_advance n s)"
  by (cases "cqe_data c")
    (auto simp: cq_advance_def sched_defs runnable_def split: option.splits)

lemma cq_advance_append: "n \<le> length (cq s) \<Longrightarrow> cq_advance n (s\<lparr>cq := cq s @ cs\<rparr>) = (cq_advance n s)\<lparr>cq := drop n (cq s) @ cs\<rparr>"
  by (simp add: cq_advance_def)

lemma cq_advance_add: "cq_advance m (cq_advance n s) = cq_advance (n + m) s"
  by (simp add: cq_advance_def add.commute)

lemma cqe_seen_repeated: "(cqe_seen ^^ n) s = cq_advance n s"
  by (induction n) (simp_all add: cqe_seen_def cq_advance_add, simp add: cq_advance_def)

end
