(* ===== verification/Scheduler_Stop.thy ===== *)
theory Scheduler_Stop
  imports Scheduler
begin

text \<open>
  The end of \<open>Scheduler::run\<close>: once \<open>stopping_\<close> is set, by whichever thread, the loop needs only a bounded
  number of its own steps to leave, whatever the application, other threads and the kernel do in between.
\<close>

section \<open>Counting the steps of the loop\<close>

inductive loop_run :: "env \<Rightarrow> nat \<Rightarrow> sched \<Rightarrow> sched \<Rightarrow> bool" for env where
  lr_nil: "loop_run env 0 s s"
| lr_loop: "loop_run env k s t \<Longrightarrow> loop_step env t u \<Longrightarrow> loop_run env (Suc k) s u"
| lr_user: "loop_run env k s t \<Longrightarrow> in_user (pc t) \<Longrightarrow> user_step env t u \<Longrightarrow> loop_run env k s u"
| lr_other: "loop_run env k s t \<Longrightarrow> ext_step t u \<Longrightarrow> loop_run env k s u"

lemma loop_run_steps: "loop_run env k s t \<Longrightarrow> (sched_step env)\<^sup>*\<^sup>* s t"
  by (induction rule: loop_run.induct) (auto intro: rtranclp.rtrancl_into_rtrancl by_loop by_user by_other)

lemma loop_run_reach: "loop_run env k s t \<Longrightarrow> sched_reach env n s \<Longrightarrow> sched_reach env n t"
  using loop_run_steps unfolding sched_reach_def by fastforce

text \<open>
  What a stopping loop still has to do: the tasks and ready coroutines of the current round, or the
  batch it has fetched; a coroutine made ready meanwhile costs two more steps.
\<close>

fun stop_rank :: "location \<Rightarrow> nat \<Rightarrow> nat" where
  "stop_rank LoopTop r = 1"
| "stop_rank (RunTasks ts) r = 2 * length ts + 2 * r + 2"
| "stop_rank (InTask ts) r = 2 * length ts + 2 * r + 3"
| "stop_rank ReadyLoop r = 2 * r + 1"
| "stop_rank InResume r = 2 * r + 2"
| "stop_rank BeforeWait r = 2 * kBatch + 4"
| "stop_rank Blocked r = 2 * kBatch + 3"
| "stop_rank (Completing cs) r = 2 * length cs + 2"
| "stop_rank (InTimer cs) r = 2 * length cs + 3"
| "stop_rank _ r = 0"

definition stop_work :: "sched \<Rightarrow> nat" where
  "stop_work s = stop_rank (pc s) (length (ready s))"

text \<open>The flag stays set while the loop runs; after that nothing of it moves.\<close>

definition winding_down :: "sched \<Rightarrow> bool" where
  "winding_down s \<longleftrightarrow> pc s = Exited \<or> pc s = Thrown \<or> (running (pc s) \<and> stopping s)"

lemma loop_step_winds_down:
  assumes "loop_step env s u" and "winding_down s"
  shows "winding_down u \<and> taken u = taken s \<and> Suc (stop_work u) + 2 * length (pushed s) \<le> stop_work s + 2 * length (pushed u)"
  using assms(1)
proof cases
  case (task_start f fs)
  obtain q where "u = s\<lparr>pc := InTask fs, tq := q\<rparr>" using run_task_frame [OF task_start(3)] by auto
  then show ?thesis using task_start(1) assms(2) by (simp add: winding_down_def stop_work_def)
next
  case (complete_timer c cs)
  obtain q where "u = s\<lparr>pc := InTimer cs, tq := q\<rparr>"
    using timerfd_on_complete_frame [OF complete_timer(4)] by auto
  then show ?thesis using complete_timer(1) assms(2) by (simp add: winding_down_def stop_work_def)
next
  case (complete c cs)
  have D: "pc y = pc x \<and> stopping y = stopping x \<and> taken y = taken x \<and> length (pushed x) \<le> length (pushed y)" if "dispatch c x = Inr y" for x y
    using that by (auto simp: sched_defs split: user_data.splits option.splits if_splits)
  show ?thesis
    using D [OF complete(3)] complete(1) assms(2) by (simp add: winding_down_def stop_work_def)
next
  case wait_return
  have "length (take kBatch (cq s)) \<le> kBatch" by simp
  then show ?thesis using wait_return assms(2) by (simp add: winding_down_def stop_work_def)
next
  case timer_end
  then show ?thesis using assms(2)
    by (auto simp: winding_down_def stop_work_def timer_queue_start_def get_sqe_def)
next
  case (ready_pop h hs)
  then show ?thesis using assms(2) by (simp add: winding_down_def stop_work_def)
qed (use assms(2) in \<open>auto simp: winding_down_def stop_work_def ring_submit_def\<close>)

lemma user_step_winds_down:
  assumes "user_step env s u" and "in_user (pc s)" and "winding_down s"
  shows "winding_down u \<and> taken u = taken s \<and> stop_work u + 2 * length (pushed s) \<le> stop_work s + 2 * length (pushed u)"
  using assms(1)
proof cases
  case (user_post h)
  then show ?thesis using assms(2,3)
    by (cases "pc s") (auto simp: winding_down_def stop_work_def post_def push_ready_def)
next
  case user_stop
  then show ?thesis using assms(2,3)
    by (auto simp: winding_down_def stop_work_def stop_own_def get_sqe_def ring_submit_def Let_def)
qed (use assms(2,3) in \<open>auto simp: winding_down_def stop_work_def prepare_common_def get_sqe_def split: if_splits\<close>)

lemma ext_step_winds_down:
  assumes "ext_step s u" and "winding_down s"
  shows "winding_down u \<and> taken u = taken s \<and> stop_work u + 2 * length (pushed s) \<le> stop_work s + 2 * length (pushed u)"
  using assms by cases (auto simp: winding_down_def stop_work_def sched_defs)

lemma loop_run_winds_down:
  assumes "loop_run env k s u" and "winding_down s"
  shows "winding_down u \<and> taken u = taken s \<and> k + stop_work u + 2 * length (pushed s) \<le> stop_work s + 2 * length (pushed u)"
  using assms
proof (induction rule: loop_run.induct)
  case (lr_loop k s t u)
  with loop_step_winds_down [of env t u] show ?case by auto
next
  case (lr_user k s t u)
  with user_step_winds_down [of env t u] show ?case by auto
next
  case (lr_other k s t u)
  with ext_step_winds_down [of t u] show ?case by auto
qed simp

section \<open>The loop is never stuck\<close>

lemma run_task_works:
  assumes "tq_ok (tq s)" shows "\<exists>s'. run_task env f s = Inr s'"
proof -
  have "\<exists>s'. rbind (tq_cancel env i (tq s)) (\<lambda>q. Inr (s\<lparr>tq := q\<rparr>)) = Inr s'" for i
    using cancel_step_ok [OF assms, of env i] by auto
  then show ?thesis by (cases f) (simp_all add: run_task_def)
qed

lemma timerfd_works:
  assumes "env_ok env" and "tq_ok (tq s)" and "batch_room env (tq s)"
  shows "\<exists>s'. timerfd_on_complete env r s = Inr s'"
  using expired_step_ok [OF assms(1,2)] assms(3) by (auto simp: timerfd_on_complete_def batch_room_def)

lemma loop_can_step:
  assumes "env_ok env" and "tq_reach env (tq s)" and "awaiters_known s" and "running (pc s)"
    and "batch_room env (tq s)" and "next_seq (tq s) < sz_max"
  shows "\<exists>u. loop_step env s u"
proof -
  have ok: "tq_ok (tq s)" by (rule tq_reach_ok [OF assms(1,2)])
  show ?thesis
  proof (cases "pc s")
    case (RunTasks ts)
    show ?thesis
    proof (cases ts)
      case (Cons f fs)
      obtain u where "run_task env f (s\<lparr>pc := InTask fs\<rparr>) = Inr u"
        using run_task_works [of "s\<lparr>pc := InTask fs\<rparr>"] ok by auto
      then show ?thesis using task_start [of s f fs] RunTasks Cons assms(6) by blast
    qed (use RunTasks tasks_done in auto)
  next
    case ReadyLoop
    show ?thesis
    proof (cases "ready s")
      case Nil
      then show ?thesis using ReadyLoop ready_exit ready_done by blast
    qed (use ReadyLoop ready_pop in blast)
  next
    case (Completing cs)
    show ?thesis
    proof (cases cs)
      case (Cons c cs')
      show ?thesis
      proof (cases "cqe_data c = UdTimer")
        case True
        obtain u where "timerfd_on_complete env (cqe_res c) (s\<lparr>pc := InTimer cs'\<rparr>) = Inr u"
          using timerfd_works [of env "s\<lparr>pc := InTimer cs'\<rparr>"] assms(1,5) ok by auto
        then show ?thesis using complete_timer [of s c cs'] Completing Cons True assms(5) by blast
      next
        case False
        then show ?thesis using complete [of s c cs'] Completing Cons dispatch_works [OF assms(3), of c cs'] by blast
      qed
    qed (use Completing batch_done in auto)
  next
    case LoopTop
    then show ?thesis using top_exit top_drain by blast
  next
    case (InTask fs)
    from task_end [OF this] show ?thesis by (rule exI)
  next
    case InResume
    from resume_end [OF this] show ?thesis by (rule exI)
  next
    case BeforeWait
    from submit_wait [OF this] show ?thesis by (rule exI)
  next
    case Blocked
    from wait_return [OF this] show ?thesis by (rule exI)
  next
    case (InTimer cs)
    from timer_end [OF this] show ?thesis by (rule exI)
  qed (use assms(4) in simp_all)
qed

section \<open>A stop request ends the loop\<close>

definition loop_left :: "sched \<Rightarrow> bool" where
  "loop_left s \<longleftrightarrow> pc s = Exited \<or> pc s = Thrown"

text \<open>
  The wait can end: the completion of the wake-up read has arrived, or the read is with the kernel
  and the counter it reads is not zero.
\<close>

definition wake_ready :: "sched \<Rightarrow> bool" where
  "wake_ready s \<longleftrightarrow> wake_cqe (cq s) \<or> UdWake \<in> set (inflight s) \<and> 0 < wake_count s"

lemma wake_ready_arrives:
  assumes "wake_ready s" shows "wake_cqe (cq s) \<or> (\<exists>u. ext_step s u \<and> wake_cqe (cq u))"
  using assms kernel_wake [of s] by (auto simp: wake_ready_def wake_cqe_def)

lemma blocked_wake_ready:
  assumes "wake_inv s" and "pc s = Blocked" and "wakers s = 0" and "\<not> watch_lost s"
    and "cross_handles s \<noteq> [] \<or> cross_tasks s \<noteq> [] \<or> stopping s"
  shows "wake_ready s"
  using assms by (auto simp: wake_ready_def wake_defs)

text \<open>
  C11: Stopping ends the loop.  From any reachable state of a running loop with the stop flag set, in
  every interleaving with the application, other threads and the kernel: if at most \<open>m\<close> coroutines
  have been made ready since, the loop has made at most \<open>stop_work + 2 m\<close> further steps, and with that
  many it has left.  Until it has left it is never stuck: outside the wait it can make its next step,
  and should it be waiting while every other call has finished and its watcher is armed, the completion
  that ends the wait has arrived or is with the kernel.  No new round begins: what other threads post
  from now on is not taken over.  The number \<open>m\<close> has to be there: \<open>run\<close> empties its ready queue before
  it tests the flag again, and a coroutine that posts itself keeps it there for ever
  (\<open>reposting_keeps_stopping_loop\<close> below).
\<close>

theorem stop_ends_the_loop:
  assumes "env_ok env" and "sched_reach env n s" and "running (pc s)" and "stopping s"
    and "loop_run env k s u" and "batch_room env (tq u)" and "next_seq (tq u) < sz_max"
    and "length (pushed u) \<le> length (pushed s) + m"
  shows "k \<le> stop_work s + 2 * m \<and> (k = stop_work s + 2 * m \<longrightarrow> loop_left u)
    \<and> (loop_left u \<or> stopping u)
    \<and> (\<not> loop_left u \<and> pc u \<noteq> Blocked \<longrightarrow> (\<exists>v. loop_step env u v))
    \<and> (pc u = Blocked \<and> wakers u = 0 \<and> \<not> watch_lost u \<longrightarrow> wake_ready u) \<and> taken u = taken s"
proof -
  have "winding_down s" using assms(3,4) by (simp add: winding_down_def)
  note W = loop_run_winds_down [OF assms(5) this]
  have I: "wake_inv u" "tq_reach env (tq u)" "awaiters_known u"
    using sched_reach_inv [OF loop_run_reach [OF assms(5,2)]] by simp_all
  have run: "loop_left u \<or> running (pc u) \<and> stopping u" using W by (auto simp: winding_down_def loop_left_def)
  have work: "loop_left u \<or> 0 < stop_work u"
    using run by (cases "pc u") (auto simp: stop_work_def loop_left_def)
  have "k + stop_work u \<le> stop_work s + 2 * m" using W assms(8) by linarith
  moreover have "\<exists>v. loop_step env u v" if "\<not> loop_left u"
    using loop_can_step [OF assms(1) I(2,3) _ assms(6,7)] run that by simp
  moreover have "wake_ready u" if "pc u = Blocked" "wakers u = 0" "\<not> watch_lost u"
    using blocked_wake_ready [OF I(1) that] run that(1) by (auto simp: loop_left_def)
  ultimately show ?thesis using W run work by auto
qed

text \<open>A coroutine that posts itself each time it runs: the loop never gets to the test of the flag.\<close>

lemma reposting_keeps_stopping_loop:
  assumes "pc s = InResume" and "ready s = []" and "runnable s h" and "stopping s"
  shows "\<exists>u. loop_run env (2 * n) s u \<and> pc u = InResume \<and> ready u = [] \<and> runnable u h \<and> stopping u"
proof (induction n)
  case 0
  have "loop_run env (2 * 0) s s" by (simp add: lr_nil)
  then show ?case using assms by blast
next
  case (Suc n)
  then obtain t where t: "loop_run env (2 * n) s t" "pc t = InResume" "ready t = []" "runnable t h" "stopping t" by blast
  let ?t1 = "post True h t"
  let ?t2 = "?t1\<lparr>pc := ReadyLoop\<rparr>"
  let ?t3 = "?t2\<lparr>ready := [], popped := popped ?t2 @ [h], pc := (if runnable ?t2 h then InResume else ReadyLoop)\<rparr>"
  have 1: "loop_run env (2 * n) s ?t1" by (rule lr_user [OF t(1)]) (simp_all add: t(2) user_post)
  have 2: "loop_run env (Suc (2 * n)) s ?t2"
    by (rule lr_loop [OF 1 resume_end]) (simp add: t(2) post_def push_ready_def)
  have "loop_run env (Suc (Suc (2 * n))) s ?t3"
    by (rule lr_loop [OF 2 ready_pop]) (simp_all add: t(3) post_def push_ready_def)
  moreover have "runnable ?t2 h" using t(4) by (simp add: runnable_def post_def push_ready_def)
  ultimately show ?case using t(4,5) by (intro exI [of _ ?t3]) (simp add: runnable_def post_def push_ready_def)
qed

text \<open>A loop that is blocked when another thread stops it.\<close>

definition demo_stopped :: sched where
  "demo_stopped = demo_blocked\<lparr>stopping := True, wakers := 1\<rparr>"

lemma demo_stopped_reach: "sched_reach env 4 demo_stopped"
proof -
  have "sched_step env demo_blocked demo_stopped"
    by (rule by_other_eq [OF ext_stop]) (simp add: stop_exchange_def demo_stopped_def demo_blocked_def sched_new_def)
  then show ?thesis using demo_blocked_reach [of env] unfolding sched_reach_def by simp
qed

theorem stop_ends_the_loop_witness:
  "stop_work demo_stopped = 131 \<and> (loop_left demo_stopped \<or> stopping demo_stopped) \<and> pc demo_stopped = Blocked
   \<and> wake_ready (wake_remote False (demo_stopped\<lparr>wakers := 0\<rparr>))"
proof -
  let ?u = "wake_remote False (demo_stopped\<lparr>wakers := 0\<rparr>)"
  have q: "tq demo_stopped = tq demo_blocked" "pc demo_stopped = Blocked" "stopping demo_stopped"
    by (simp_all add: demo_stopped_def demo_blocked_def)
  have room: "batch_room demo_env (tq demo_stopped)" "next_seq (tq demo_stopped) < sz_max"
    using demo_blocked_room by (simp_all add: q(1)) (simp add: demo_blocked_def sched_new_def tq_init_def sz_max_def)
  have u: "pc ?u = Blocked" "wakers ?u = 0" "\<not> watch_lost ?u" "tq ?u = tq demo_stopped"
    "length (pushed demo_stopped) \<le> length (pushed demo_stopped) + 0" "length (pushed ?u) \<le> length (pushed demo_stopped) + 0"
    by (simp_all add: wake_remote_def q(2) demo_stopped_def demo_blocked_def sched_new_def)
  have "loop_run demo_env 0 demo_stopped ?u"
    by (rule lr_other [OF lr_nil ext_wake [of _ 0]]) (simp add: demo_stopped_def)
  from stop_ends_the_loop [OF demo_env_ok demo_stopped_reach _ q(3) this _ _ u(6)] room q(2) u
  have "wake_ready ?u" by simp
  moreover from stop_ends_the_loop [OF demo_env_ok demo_stopped_reach _ q(3) lr_nil room u(5)] q(2)
  have "loop_left demo_stopped \<or> stopping demo_stopped" by simp
  ultimately show ?thesis using q(2) by (simp add: stop_work_def kBatch_def)
qed

end
