(* ===== verification/Scheduler_Pool.thy ===== *)
theory Scheduler_Pool
  imports Scheduler
begin

text \<open>
  \<open>SchedulerPool\<close> (\<open>scheduler_pool.hpp\<close>, \<open>src/scheduler/scheduler_pool.cc\<close>):
  the grouping of rings that share a polling thread, starting and stopping the workers, and
  the round-robin choice of the next one.  Constructing the \<open>i\<close>-th scheduler is the
  parameter \<open>mk\<close>, which yields the descriptor of its ring or the error it throws.
\<close>

section \<open>Construction\<close>

definition pool_grouping :: "sched_config \<Rightarrow> nat \<Rightarrow> bool" where
  "pool_grouping base M \<longleftrightarrow> cfg_sqpoll base \<and> M > 0"

definition group_size :: "nat \<Rightarrow> sched_config \<Rightarrow> nat \<Rightarrow> nat" where
  "group_size n base M = (if pool_grouping base M then sz_sub (sz_add n M) 1 div M else 1)"

text \<open>The configuration of ring \<open>i\<close>, given the descriptors of the rings built before it.\<close>

definition worker_config :: "nat \<Rightarrow> sched_config \<Rightarrow> nat \<Rightarrow> int list \<Rightarrow> int list \<Rightarrow> sched_config" where
  "worker_config n base M cpus fds =
     (let i = length fds; gsz = group_size n base M;
          cfg = base\<lparr>wq_fd := - 1, sq_thread_cpu := - 1\<rparr>
      in if pool_grouping base M
         then let g = i div gsz; leader = g * gsz
              in if i = leader
                 then (if g < length cpus then cfg\<lparr>sq_thread_cpu := cpus ! g\<rparr> else cfg)
                 else cfg\<lparr>wq_fd := fds ! leader\<rparr>
         else cfg)"

fun pool_build :: "(nat \<Rightarrow> sched_config \<Rightarrow> int + int) \<Rightarrow> nat \<Rightarrow> sched_config \<Rightarrow> nat \<Rightarrow> int list \<Rightarrow> nat
    \<Rightarrow> int list \<Rightarrow> sched_config list \<Rightarrow> int + (int list \<times> sched_config list)" where
  "pool_build mk n base M cpus 0 fds cfgs = Inr (fds, cfgs)"
| "pool_build mk n base M cpus (Suc k) fds cfgs =
     (let cfg = worker_config n base M cpus fds in
      rbind (mk (length fds) cfg) (\<lambda>fd. pool_build mk n base M cpus k (fds @ [fd]) (cfgs @ [cfg])))"

definition spool_new :: "(nat \<Rightarrow> sched_config \<Rightarrow> int + int) \<Rightarrow> nat \<Rightarrow> sched_config \<Rightarrow> nat \<Rightarrow> int list
    \<Rightarrow> int + (int list \<times> sched_config list)" where
  "spool_new mk n base M cpus = pool_build mk n base M cpus n [] []"

section \<open>Running\<close>

record spool =
  schedulers :: "sched list"
  pool_threads :: "nat list"       \<comment> \<open>the scheduler each thread runs\<close>
  next_idx :: size_t
  pool_started :: bool
  boot_queues :: "xtask list list"  \<comment> \<open>history: what was queued on each worker when its thread was created\<close>

definition spool_start :: "spool \<Rightarrow> spool" where
  "spool_start p = p\<lparr>pool_started := True, pool_threads := pool_threads p @ [0..<length (schedulers p)],
     boot_queues := boot_queues p @ map cross_tasks (schedulers p)\<rparr>"

text \<open>\<open>Scheduler::stop\<close> called from a thread that is not the scheduler's, as a whole.\<close>

definition stop_remote :: "sched \<Rightarrow> sched" where
  "stop_remote s = (if stopping s then s else wake_remote False (s\<lparr>stopping := True\<rparr>))"

text \<open>\<open>Scheduler::stop\<close>, on its own thread or another one.\<close>

definition sched_stop :: "bool \<Rightarrow> sched \<Rightarrow> sched" where
  "sched_stop own s = (if own then stop_own s else stop_remote s)"

definition stop_all :: "spool \<Rightarrow> spool" where
  "stop_all p = p\<lparr>schedulers := map stop_remote (schedulers p)\<rparr>"

text \<open>\<open>wait\<close> joins every thread, which returns when they all have left \<open>run\<close>.\<close>

definition spool_wait :: "spool \<Rightarrow> spool" where
  "spool_wait p = p\<lparr>pool_threads := [], pool_started := False\<rparr>"

text \<open>The destructor.\<close>

definition spool_destroy :: "spool \<Rightarrow> spool" where
  "spool_destroy p = (if pool_started p then spool_wait (stop_all p) else p)"

datatype pool_error = DivisionByZero

definition next_worker :: "spool \<Rightarrow> pool_error + (nat \<times> spool)" where
  "next_worker p =
     (if schedulers p = [] then Inl DivisionByZero
      else Inr (next_idx p mod length (schedulers p), p\<lparr>next_idx := sz_add (next_idx p) 1\<rparr>))"

fun next_workers :: "nat \<Rightarrow> spool \<Rightarrow> pool_error + (nat list \<times> spool)" where
  "next_workers 0 p = Inr ([], p)"
| "next_workers (Suc k) p =
     rbind (next_worker p) (\<lambda>(i, p1). rbind (next_workers k p1) (\<lambda>(is, p2). Inr (i # is, p2)))"

section \<open>Properties\<close>

lemma group_size_ceil:
  assumes "0 < M" and "cfg_sqpoll base" and "n + M \<le> sz_max"
  shows "group_size n base M = (n + M - 1) div M"
  using assms by (simp add: group_size_def pool_grouping_def sz_simps)

lemma group_size_bounds:
  assumes "0 < M" and "cfg_sqpoll base" and "n + M \<le> sz_max" and "0 < n"
  shows "0 < group_size n base M" and "n \<le> M * group_size n base M"
proof -
  let ?g = "group_size n base M"
  have g: "?g = (n + M - 1) div M" by (rule group_size_ceil [OF assms(1-3)])
  show "0 < ?g" using assms(1,4) by (simp add: g div_greater_zero_iff)
  have "M * ?g + (n + M - 1) mod M = n + M - 1" unfolding g by simp
  moreover have "(n + M - 1) mod M < M" using assms(1) by simp
  ultimately show "n \<le> M * ?g" by linarith
qed

lemma pool_build_result:
  assumes "\<And>i cfg. i < n \<Longrightarrow> mk i cfg = Inr (fd i)" and "length fds + k = n"
    and "fds = map fd [0..<length fds]"
    and "cfgs = map (\<lambda>i. worker_config n base M cpus (map fd [0..<i])) [0..<length fds]"
  shows "pool_build mk n base M cpus k fds cfgs
    = Inr (map fd [0..<n], map (\<lambda>i. worker_config n base M cpus (map fd [0..<i])) [0..<n])"
  using assms(2-)
proof (induction k arbitrary: fds cfgs)
  case 0
  then show ?case by simp
next
  case (Suc k)
  let ?fds = "fds @ [fd (length fds)]" and ?cfgs = "cfgs @ [worker_config n base M cpus fds]"
  have f: "?fds = map fd [0..<length ?fds]" using Suc.prems(2) by (metis length_append_singleton list.map(1,2)
      map_append upt_Suc_append zero_le)
  have "worker_config n base M cpus fds = worker_config n base M cpus (map fd [0..<length fds])"
    using Suc.prems(2) by simp
  then have "?cfgs = map (\<lambda>i. worker_config n base M cpus (map fd [0..<i])) [0..<length ?fds]"
    using Suc.prems(3) by simp
  from Suc.IH [OF _ f this] have
    "pool_build mk n base M cpus k ?fds ?cfgs
      = Inr (map fd [0..<n], map (\<lambda>i. worker_config n base M cpus (map fd [0..<i])) [0..<n])"
    using Suc.prems(1) by simp
  then show ?case using Suc.prems(1) assms(1) by (simp add: Let_def)
qed

text \<open>C27: Grouping.  With SQPOLL and \<open>M\<close> polling threads, the rings fall into consecutive
  groups of equal size; the first ring of a group owns a polling thread, pinned to the core
  given for the group, every other ring attaches to that first ring, which was built before it;
  and there are at most \<open>M\<close> groups.\<close>

theorem sqpoll_grouping:
  assumes "0 < M" and "cfg_sqpoll base" and "n + M \<le> sz_max" and "0 < n"
    and "\<And>i cfg. i < n \<Longrightarrow> mk i cfg = Inr (fd i)"
    and "g = group_size n base M" and "i < n"
  shows "\<exists>fds cfgs. spool_new mk n base M cpus = Inr (fds, cfgs) \<and> length cfgs = n
    \<and> (i div g) * g \<le> i
    \<and> cfgs ! i = (if i mod g = 0
         then base\<lparr>wq_fd := - 1, sq_thread_cpu := (if i div g < length cpus then cpus ! (i div g) else - 1)\<rparr>
         else base\<lparr>wq_fd := fd ((i div g) * g), sq_thread_cpu := - 1\<rparr>)
    \<and> i div g < M"
proof -
  have g0: "0 < g" and gM: "n \<le> M * g" using group_size_bounds [OF assms(1-4)] assms(6) by simp_all
  let ?cfgs = "map (\<lambda>i. worker_config n base M cpus (map fd [0..<i])) [0..<n]"
  have build: "spool_new mk n base M cpus = Inr (map fd [0..<n], ?cfgs)"
    unfolding spool_new_def by (rule pool_build_result) (use assms(5) in simp_all)
  have le: "(i div g) * g \<le> i" by (simp add: div_times_less_eq_dividend)
  have lead: "i = (i div g) * g \<longleftrightarrow> i mod g = 0"
    by (metis add.right_neutral add_left_cancel div_mult_mod_eq)
  have "(i div g) * g < i" if "i mod g \<noteq> 0" using le lead that by linarith
  then have "?cfgs ! i = (if i mod g = 0
         then base\<lparr>wq_fd := - 1, sq_thread_cpu := (if i div g < length cpus then cpus ! (i div g) else - 1)\<rparr>
         else base\<lparr>wq_fd := fd ((i div g) * g), sq_thread_cpu := - 1\<rparr>)"
    using assms(1,2,7) lead
    by (auto simp: worker_config_def Let_def pool_grouping_def assms(6) [symmetric])
  moreover have "i div g < M" using gM assms(7) g0 by (simp add: div_less_iff_less_mult)
  ultimately show ?thesis using build le by auto
qed

text \<open>Fewer polling threads than requested.  Rounding the group size up can leave
  fewer groups than the number the constructor logs: five rings in four groups make three.\<close>

theorem grouping_may_use_fewer_pollers:
  "card {i \<in> {0..<5}. i mod group_size 5 (default_config\<lparr>cfg_sqpoll := True\<rparr>) 4 = 0} = 3"
proof -
  have "group_size 5 (default_config\<lparr>cfg_sqpoll := True\<rparr>) 4 = 2"
    by (simp add: group_size_def pool_grouping_def sz_add_def sz_sub_def)
  moreover have "{i \<in> {0..<5 :: nat}. i mod 2 = 0} = set (filter (\<lambda>i. i mod 2 = 0) [0..<5])"
    by auto
  ultimately show ?thesis by (simp add: upt_rec)
qed

lemma next_workers_eq:
  assumes "schedulers p \<noteq> []"
  shows "next_idx p + k \<le> sz_max \<Longrightarrow> next_workers k p
    = Inr (map (\<lambda>j. (next_idx p + j) mod length (schedulers p)) [0..<k], p\<lparr>next_idx := next_idx p + k\<rparr>)"
  using assms
proof (induction k arbitrary: p)
  case 0
  then show ?case by simp
next
  case (Suc k)
  let ?p = "p\<lparr>next_idx := Suc (next_idx p)\<rparr>"
  have "next_workers k ?p = Inr (map (\<lambda>j. (next_idx ?p + j) mod length (schedulers ?p)) [0..<k],
      ?p\<lparr>next_idx := next_idx ?p + k\<rparr>)"
    by (rule Suc.IH) (use Suc.prems in simp_all)
  moreover have "next_worker p = Inr (next_idx p mod length (schedulers p), ?p)"
    using Suc.prems by (simp add: next_worker_def sz_simps)
  moreover have "map (\<lambda>j. (next_idx p + j) mod length (schedulers p)) [0..<Suc k]
      = next_idx p mod length (schedulers p)
        # map (\<lambda>j. (Suc (next_idx p) + j) mod length (schedulers p)) [0..<k]"
    by (simp add: upt_conv_Cons map_Suc_upt [symmetric] del: upt_Suc)
  ultimately show ?case by simp
qed

text \<open>Fair round robin.  As long as the 64-bit counter does not wrap, any \<open>n\<close> consecutive
  calls of \<open>next\<close> on a pool of \<open>n\<close> workers choose every worker exactly once.\<close>

theorem next_is_fair:
  assumes "schedulers p \<noteq> []" and "n = length (schedulers p)" and "next_idx p + n \<le> sz_max"
  shows "\<exists>is p'. next_workers n p = Inr (is, p') \<and> distinct is \<and> set is = {0..<n}"
proof -
  let ?f = "\<lambda>j. (next_idx p + j) mod n"
  have n: "0 < n" using assms(1,2) by simp
  have inj: "inj_on ?f {0..<n}"
  proof (rule linorder_inj_onI)
    fix x y assume xy: "x < y" "x \<in> {0..<n}" "y \<in> {0..<n}"
    have "\<not> n dvd (next_idx p + y) - (next_idx p + x)" using xy nat_dvd_not_less [of "y - x" n] by auto
    then show "?f x \<noteq> ?f y" using xy(1) mod_eq_dvd_iff_nat [of "next_idx p + x" "next_idx p + y" n] by auto
  qed auto
  moreover have "?f ` {0..<n} \<subseteq> {0..<n}" using n by auto
  ultimately have "?f ` {0..<n} = {0..<n}" by (simp add: endo_inj_surj)
  with inj show ?thesis
    using next_workers_eq [OF assms(1), of n] assms(2,3) by (auto simp: distinct_map)
qed

text \<open>\<open>stop_all\<close> from the main thread raises the flag of every worker and leaves the
  eventfd of every worker that was not stopping yet readable.\<close>

theorem stop_all_signals:
  assumes "i < length (schedulers p)"
  shows "stopping (schedulers (stop_all p) ! i)
    \<and> (\<not> stopping (schedulers p ! i) \<longrightarrow> 0 < wake_count (schedulers (stop_all p) ! i))"
  using assms by (simp add: stop_all_def stop_remote_def wake_remote_def eventfd_write_pos)

text \<open>A second stop request, from whatever thread, does nothing.\<close>

lemma sched_stop_twice: "sched_stop own (sched_stop own' s) = sched_stop own' s"
  by (auto simp: sched_stop_def stop_own_def stop_remote_def wake_remote_def get_sqe_def ring_submit_def Let_def split: option.splits)

text \<open>Destruction of a running pool stops every worker and leaves no thread behind to be joined.\<close>

lemma spool_destroy_running:
  "pool_started p \<Longrightarrow> pool_threads (spool_destroy p) = [] \<and> (\<forall>s \<in> set (schedulers (spool_destroy p)). stopping s)"
  by (auto simp: spool_destroy_def spool_wait_def stop_all_def stop_remote_def wake_remote_def)

theorem sqpoll_grouping_witness:
  "\<exists>fds cfgs. spool_new (\<lambda>i cfg. Inr (int i + 10)) 4 (default_config\<lparr>cfg_sqpoll := True\<rparr>) 2 [3] = Inr (fds, cfgs)
    \<and> wq_fd (cfgs ! 3) = 12"
proof -
  have g: "2 = group_size 4 (default_config\<lparr>cfg_sqpoll := True\<rparr>) 2"
    by (simp add: group_size_def pool_grouping_def sz_add_def sz_sub_def)
  have "\<exists>fds cfgs. spool_new (\<lambda>i cfg. Inr (int i + 10)) 4 (default_config\<lparr>cfg_sqpoll := True\<rparr>) 2 [3] = Inr (fds, cfgs)
      \<and> length cfgs = 4 \<and> (3 div 2) * 2 \<le> (3 :: nat)
      \<and> cfgs ! 3 = (if 3 mod 2 = (0 :: nat) then (default_config\<lparr>cfg_sqpoll := True\<rparr>)\<lparr>wq_fd := - 1, sq_thread_cpu := (if 3 div 2 < length [3 :: int] then [3] ! (3 div 2) else - 1)\<rparr>
         else (default_config\<lparr>cfg_sqpoll := True\<rparr>)\<lparr>wq_fd := int ((3 div 2) * 2) + 10, sq_thread_cpu := - 1\<rparr>)
      \<and> 3 div 2 < (2 :: nat)"
    by (rule sqpoll_grouping [where fd = "\<lambda>i. int i + 10" and g = 2, OF _ _ _ _ _ g]) (simp_all add: sz_max_def)
  then show ?thesis by auto
qed

theorem next_is_fair_witness:
  "\<exists>is p'. next_workers 3 \<lparr>schedulers = replicate 3 (sched_new 8), pool_threads = [], next_idx = 7, pool_started = True, boot_queues = []\<rparr>
     = Inr (is, p') \<and> distinct is \<and> set is = {0..<3}"
  by (rule next_is_fair) (simp_all add: sz_max_def)

theorem stop_all_signals_witness:
  "0 < wake_count (schedulers (stop_all \<lparr>schedulers = replicate 3 (sched_new 8), pool_threads = [],
     next_idx = 7, pool_started = True, boot_queues = []\<rparr>) ! 2)"
  using stop_all_signals [of 2 "\<lparr>schedulers = replicate 3 (sched_new 8), pool_threads = [],
     next_idx = 7, pool_started = True, boot_queues = []\<rparr>"] by (simp add: sched_new_def)

end
