(* ===== verification/Log_Stream.thy ===== *)
theory Log_Stream
  imports Coro_Prelude "HOL-Library.Sublist"
begin

text \<open>
  \<open>FixedBuffer\<close>, \<open>LogStream\<close> and the number formatting behind it
  (\<open>log/log_stream.hpp\<close>, \<open>src/log/log_stream.cc\<close>, \<open>log/log_level.hpp\<close>).
  The locale \<open>truncating_buffer\<close> is the contract of a buffer that cuts what does not fit;
  the line buffer of a log statement and the large buffers of the backend both meet it.
\<close>

section \<open>FixedBuffer\<close>

record fixed_buffer =
  fb_mem :: string         \<comment> \<open>\<open>data_\<close>, of length \<open>SIZE\<close>\<close>
  fb_cur :: nat            \<comment> \<open>\<open>cur_ - data_\<close>\<close>

text \<open>A new buffer is not cleared: \<open>junk\<close> is what its memory holds.\<close>

definition fb_new :: "string \<Rightarrow> fixed_buffer" where
  "fb_new junk = \<lparr>fb_mem = junk, fb_cur = 0\<rparr>"

definition fb_avail :: "fixed_buffer \<Rightarrow> nat" where
  "fb_avail b = length (fb_mem b) - fb_cur b"

definition fb_length :: "fixed_buffer \<Rightarrow> nat" where
  "fb_length b = fb_cur b"

definition fb_append :: "fixed_buffer \<Rightarrow> string \<Rightarrow> fixed_buffer" where
  "fb_append b buf =
     (let a = fb_avail b; len = (if length buf > a then a else length buf)
      in b\<lparr>fb_mem := mem_write (fb_mem b) (fb_cur b) (take len buf), fb_cur := fb_cur b + len\<rparr>)"

definition fb_reset :: "fixed_buffer \<Rightarrow> fixed_buffer" where
  "fb_reset b = b\<lparr>fb_cur := 0\<rparr>"

definition fb_bzero :: "fixed_buffer \<Rightarrow> fixed_buffer" where
  "fb_bzero b = b\<lparr>fb_mem := replicate (length (fb_mem b)) (CHR 0x00)\<rparr>"

definition fb_add :: "nat \<Rightarrow> fixed_buffer \<Rightarrow> fixed_buffer" where
  "fb_add n b = b\<lparr>fb_cur := fb_cur b + n\<rparr>"

text \<open>The readable part, from \<open>data()\<close> for \<open>length()\<close> bytes.\<close>

definition fb_contents :: "fixed_buffer \<Rightarrow> string" where
  "fb_contents b = mslice (fb_mem b) 0 (fb_cur b)"

definition small_size :: nat where
  "small_size = 4000"

definition large_size :: nat where
  "large_size = 4 * 1024 * 1024"

subsection \<open>The contract\<close>

locale truncating_buffer =
  fixes put :: "'b \<Rightarrow> 'c list \<Rightarrow> 'b"
    and view :: "'b \<Rightarrow> 'c list"
    and inv :: "'b \<Rightarrow> bool"
    and cap :: nat
  assumes put_inv: "inv b \<Longrightarrow> inv (put b s)"
    and put_view: "inv b \<Longrightarrow> view (put b s) = take cap (view b @ s)"
    and view_length: "inv b \<Longrightarrow> length (view b) \<le> cap"
begin

lemma puts_inv: "inv b \<Longrightarrow> inv (foldl put b ss)"
  by (induction ss arbitrary: b) (simp_all add: put_inv)

lemma puts_view: "inv b \<Longrightarrow> view (foldl put b ss) = take cap (view b @ concat ss)"
proof (induction ss arbitrary: b)
  case Nil
  then show ?case using view_length by simp
next
  case (Cons s ss)
  have "take cap (take cap (view b @ s) @ concat ss) = take cap (view b @ s @ concat ss)"
    by (simp add: min_def take_all_iff)
  then show ?case using Cons put_inv put_view by simp
qed

lemma put_fits: "inv b \<Longrightarrow> length (view b) + length s \<le> cap \<Longrightarrow> view (put b s) = view b @ s"
  by (simp add: put_view)

lemma put_subseq: "inv b \<Longrightarrow> subseq (view (put b s)) (view b @ s)"
  unfolding put_view by (metis prefix_imp_subseq take_is_prefix)

end

definition fb_ok :: "nat \<Rightarrow> fixed_buffer \<Rightarrow> bool" where
  "fb_ok n b \<longleftrightarrow> length (fb_mem b) = n \<and> fb_cur b \<le> n"

lemma fb_append_ok: "fb_ok n b \<Longrightarrow> fb_ok n (fb_append b s)"
  by (auto simp: fb_ok_def fb_append_def fb_avail_def Let_def mem_simps)

lemma fb_append_contents:
  assumes "fb_ok n b"
  shows "fb_contents (fb_append b s) = take n (fb_contents b @ s)"
proof -
  let ?len = "min (length s) (n - fb_cur b)"
  have c: "fb_cur b \<le> n" "length (fb_mem b) = n" using assms by (simp_all add: fb_ok_def)
  have len: "length (take ?len s) = ?len" by simp
  have "fb_append b s = b\<lparr>fb_mem := mem_write (fb_mem b) (fb_cur b) (take ?len s), fb_cur := fb_cur b + ?len\<rparr>"
    using c by (simp add: fb_append_def fb_avail_def Let_def min_def)
  then have "fb_contents (fb_append b s)
      = mslice (mem_write (fb_mem b) (fb_cur b) (take ?len s)) 0 (fb_cur b - 0 + length (take ?len s))"
    by (simp add: fb_contents_def)
  also have "\<dots> = mslice (fb_mem b) 0 (fb_cur b) @ take ?len s"
    using mslice_mem_write_extend [of 0 "fb_cur b" "take ?len s" "fb_mem b"] c by simp
  also have "\<dots> = take n (fb_contents b @ s)"
    using c by (simp add: fb_contents_def mem_simps min_def)
  finally show ?thesis .
qed

lemma fb_contents_length: "fb_ok n b \<Longrightarrow> length (fb_contents b) = fb_cur b"
  by (simp add: fb_ok_def fb_contents_def mem_simps)

interpretation fb: truncating_buffer fb_append fb_contents "fb_ok n" n for n
proof unfold_locales
  show "fb_ok n (fb_append b s)" if "fb_ok n b" for b s using that by (rule fb_append_ok)
  show "fb_contents (fb_append b s) = take n (fb_contents b @ s)" if "fb_ok n b" for b s
    using that by (rule fb_append_contents)
  show "length (fb_contents b) \<le> n" if "fb_ok n b" for b
    using that fb_contents_length by (simp add: fb_ok_def)
qed

lemma fb_new_ok: "length junk = n \<Longrightarrow> fb_ok n (fb_new junk) \<and> fb_contents (fb_new junk) = []"
  by (simp add: fb_ok_def fb_new_def fb_contents_def mem_simps)

lemma fb_reset_ok: "fb_ok n b \<Longrightarrow> fb_ok n (fb_reset b) \<and> fb_contents (fb_reset b) = []"
  by (simp add: fb_ok_def fb_reset_def fb_contents_def mem_simps)

section \<open>Numbers\<close>

definition digits :: string where
  "digits = ''9876543210123456789''"

definition zero_at :: "int \<Rightarrow> char" where
  "zero_at lsd = digits ! nat (9 + lsd)"

text \<open>The loop of \<open>convert\<close>, least significant digit first; it also runs on negative values.\<close>

function convert_loop :: "int \<Rightarrow> string" where
  "convert_loop i =
     (let lsd = c_mod i 10; i' = c_div i 10
      in if i' \<noteq> 0 then zero_at lsd # convert_loop i' else [zero_at lsd])"
  by auto
termination
proof (relation "measure (\<lambda>i. nat \<bar>i\<bar>)")
  show "wf (measure (\<lambda>i :: int. nat \<bar>i\<bar>))" by simp
  fix i lsd i' :: int
  assume "lsd = c_mod i 10" and i': "i' = c_div i 10" and "i' \<noteq> 0"
  have "\<bar>i'\<bar> = \<bar>i\<bar> div 10" unfolding i' c_div_def by (cases "i = 0") (auto simp: abs_mult)
  then have "\<bar>i'\<bar> < \<bar>i\<bar>" using \<open>i' \<noteq> 0\<close> by linarith
  then show "(i', i) \<in> measure (\<lambda>i. nat \<bar>i\<bar>)" by simp
qed

declare convert_loop.simps [simp del]

definition convert :: "int \<Rightarrow> string" where
  "convert v = rev (convert_loop v @ (if v < 0 then ''-'' else []))"

definition digitsHex :: string where
  "digitsHex = ''0123456789ABCDEF''"

function convertHex_loop :: "nat \<Rightarrow> string" where
  "convertHex_loop v =
     (let lsd = v mod 16; v' = v div 16
      in if v' \<noteq> 0 then digitsHex ! lsd # convertHex_loop v' else [digitsHex ! lsd])"
  by auto
termination by (relation "measure id") auto

declare convertHex_loop.simps [simp del]

definition convertHex :: "nat \<Rightarrow> string" where
  "convertHex v = rev (convertHex_loop v)"

subsection \<open>Reading numbers back\<close>

definition digit_value :: "char \<Rightarrow> nat" where
  "digit_value c = (let n = of_char c in if n < 58 then n - 48 else n - 55)"

definition read_base :: "nat \<Rightarrow> string \<Rightarrow> nat" where
  "read_base b s = foldl (\<lambda>a c. b * a + digit_value c) 0 s"

definition read_decimal :: "string \<Rightarrow> int" where
  "read_decimal s = (case s of c # ds \<Rightarrow> if c = CHR ''-'' then - int (read_base 10 ds) else int (read_base 10 s)
                     | [] \<Rightarrow> 0)"

lemma zero_at_abs: "\<bar>k\<bar> < 10 \<Longrightarrow> zero_at k = zero_at \<bar>k\<bar>"
proof -
  assume "\<bar>k\<bar> < 10"
  then have "nat \<bar>k\<bar> \<in> set [0..<10]" by auto
  moreover have "k = int (nat \<bar>k\<bar>) \<or> k = - int (nat \<bar>k\<bar>)" by auto
  moreover have "n \<in> set [0..<10] \<Longrightarrow> zero_at (- int n) = zero_at (int n)" for n
    by (auto simp: zero_at_def digits_def upt_rec)
  ultimately show ?thesis by (metis abs_of_nat abs_minus_cancel)
qed

lemma digit_value_zero_at: "n < 10 \<Longrightarrow> digit_value (zero_at (int n)) = n \<and> zero_at (int n) \<noteq> CHR ''-''"
proof -
  assume "n < 10"
  then have "n \<in> set [0..<10]" by simp
  then show ?thesis by (auto simp: zero_at_def digits_def digit_value_def Let_def upt_rec)
qed

lemma digit_value_hex: "n < 16 \<Longrightarrow> digit_value (digitsHex ! n) = n"
proof -
  assume "n < 16"
  then have "n \<in> set [0..<16]" by simp
  then show ?thesis by (auto simp: digitsHex_def digit_value_def Let_def upt_rec)
qed

text \<open>Digits of a natural number, least significant first: the reference for both loops.\<close>

fun digs :: "nat \<Rightarrow> (nat \<Rightarrow> char) \<Rightarrow> nat \<Rightarrow> string" where
  "digs b d n = (if n < b \<or> b < 2 then [d n] else d (n mod b) # digs b d (n div b))"

declare digs.simps [simp del]

lemma digs_value:
  assumes "\<And>k. k < b \<Longrightarrow> digit_value (d k) = k" and "2 \<le> b"
  shows "read_base b (rev (digs b d n)) = n"
proof (induction n rule: less_induct)
  case (less n)
  show ?case
  proof (cases "n < b")
    case True
    then show ?thesis using assms by (simp add: digs.simps [of b d n] read_base_def)
  next
    case False
    have "n div b < n" using False assms(2) by (intro div_less_dividend) auto
    from less [OF this] have "b * read_base b (rev (digs b d (n div b))) + n mod b = n" by simp
    then show ?thesis using False assms
      by (simp add: digs.simps [of b d n] read_base_def)
  qed
qed

lemma digs_length: "2 \<le> b \<Longrightarrow> n < b ^ k \<Longrightarrow> 0 < k \<Longrightarrow> length (digs b d n) \<le> k"
proof (induction k arbitrary: n)
  case (Suc k)
  show ?case
  proof (cases "n < b \<or> k = 0")
    case True
    then show ?thesis using Suc.prems by (auto simp: digs.simps [of b d n])
  next
    case False
    have "n div b < b ^ k" using Suc.prems by (intro less_mult_imp_div_less) (simp add: mult.commute)
    then show ?thesis using Suc.IH False Suc.prems by (simp add: digs.simps [of b d n])
  qed
qed simp

lemma digs_ne: "digs b d n \<noteq> []"
  by (simp add: digs.simps)

lemma digs_last_noneg: "(\<And>k. k < b \<Longrightarrow> P (d k)) \<Longrightarrow> 2 \<le> b \<Longrightarrow> \<forall>c \<in> set (digs b d n). P c"
proof (induction n rule: less_induct)
  case (less n)
  show ?case
  proof (cases "n < b")
    case True
    then show ?thesis using less.prems by (simp add: digs.simps [of b d n])
  next
    case False
    then have "n div b < n" using less.prems(2) by (intro div_less_dividend) auto
    from less.IH [OF this less.prems] show ?thesis
      using False less.prems by (simp add: digs.simps [of b d n])
  qed
qed

lemma c_div_abs: "\<bar>c_div i 10\<bar> = \<bar>i\<bar> div 10"
  by (cases "i = 0") (auto simp: c_div_def abs_mult)

lemma c_mod_abs: "\<bar>c_mod i 10\<bar> = \<bar>i\<bar> mod 10"
proof (cases "0 \<le> i")
  case True
  then show ?thesis by (simp add: sz_simps)
next
  case False
  then have "c_mod i 10 = - (\<bar>i\<bar> mod 10)"
    by (simp add: c_mod_def c_div_def minus_mult_div_eq_mod [symmetric])
  then show ?thesis by simp
qed

lemma convert_loop_digs: "convert_loop i = digs 10 (\<lambda>k. zero_at (int k)) (nat \<bar>i\<bar>)"
proof (induction i rule: convert_loop.induct)
  case (1 i)
  let ?n = "nat \<bar>i\<bar>"
  have z: "zero_at (c_mod i 10) = zero_at (int (?n mod 10))"
    using zero_at_abs [of "c_mod i 10"] by (simp add: c_mod_abs zmod_int)
  have d: "nat \<bar>c_div i 10\<bar> = ?n div 10" by (simp add: c_div_abs nat_div_distrib)
  have "c_div i 10 = 0 \<longleftrightarrow> ?n < 10" using c_div_abs [of i] by linarith
  then show ?case
    using 1 [OF refl refl] d z
    by (auto simp: convert_loop.simps [of i] digs.simps [of 10 _ ?n] Let_def)
qed

lemma convert_digs:
  "convert v = (if v < 0 then ''-'' else []) @ rev (digs 10 (\<lambda>k. zero_at (int k)) (nat \<bar>v\<bar>))"
  by (simp add: convert_def convert_loop_digs)

lemma read_convert: "read_decimal (convert v) = v"
proof -
  let ?ds = "digs 10 (\<lambda>k. zero_at (int k)) (nat \<bar>v\<bar>)"
  have val: "read_base 10 (rev ?ds) = nat \<bar>v\<bar>" by (rule digs_value) (simp_all add: digit_value_zero_at)
  have nm: "\<forall>c \<in> set ?ds. c \<noteq> CHR ''-''" by (rule digs_last_noneg) (simp_all add: digit_value_zero_at)
  show ?thesis
  proof (cases "v < 0")
    case True
    then show ?thesis using val by (simp add: convert_digs read_decimal_def)
  next
    case False
    obtain d ds where d: "rev ?ds = d # ds" using digs_ne by (metis list.exhaust rev_is_Nil_conv)
    then have "d \<in> set ?ds" by (metis list.set_intros(1) set_rev)
    then have "d \<noteq> CHR ''-''" using nm by blast
    then show ?thesis using False val d by (simp add: convert_digs read_decimal_def)
  qed
qed

lemma convert_inject: "convert a = convert b \<longleftrightarrow> a = b"
  by (metis read_convert)

lemma convertHex_loop_digs: "convertHex_loop v = digs 16 (\<lambda>k. digitsHex ! k) v"
proof (induction v rule: convertHex_loop.induct)
  case (1 v)
  then show ?case
    by (auto simp: convertHex_loop.simps [of v] digs.simps [of 16 _ v] Let_def)
qed

section \<open>Log levels\<close>

datatype LogLevel = TRACE | DEBUG | INFO | WARN | ERROR | FATAL

fun level_val :: "LogLevel \<Rightarrow> int" where
  "level_val TRACE = 0"
| "level_val DEBUG = 1"
| "level_val INFO = 2"
| "level_val WARN = 3"
| "level_val ERROR = 4"
| "level_val FATAL = 5"

lemma level_val_inj: "level_val a = level_val b \<Longrightarrow> a = b"
  by (cases a; cases b; simp)

instantiation LogLevel :: linorder
begin

definition less_eq_LogLevel :: "LogLevel \<Rightarrow> LogLevel \<Rightarrow> bool" where
  "less_eq_LogLevel a b \<longleftrightarrow> level_val a \<le> level_val b"

definition less_LogLevel :: "LogLevel \<Rightarrow> LogLevel \<Rightarrow> bool" where
  "less_LogLevel a b \<longleftrightarrow> level_val a < level_val b"

instance
  by standard (auto simp: less_eq_LogLevel_def less_LogLevel_def intro: level_val_inj)

end

text \<open>\<open>log_level_name\<close> takes any value of the underlying type.\<close>

definition level_names :: "string list" where
  "level_names = [''TRACE '', ''DEBUG '', ''INFO  '', ''WARN  '', ''ERROR '', ''FATAL '']"

definition log_level_name :: "int \<Rightarrow> string" where
  "log_level_name i = (if i < 0 \<or> i \<ge> 6 then ''?????? '' else level_names ! nat i)"


section \<open>LogStream\<close>

text \<open>
  The operands of \<open>operator<<\<close>.  A floating-point number comes with the text
  \<open>snprintf\<close> makes of it, a C string may be null.
\<close>

datatype log_item =
    LBool bool
  | LChar char
  | LInt int
  | LDouble string
  | LPtr nat
  | LCStr "string option"
  | LStr string

definition kMaxNumericSize :: nat where
  "kMaxNumericSize = 48"

definition put_bool :: "bool \<Rightarrow> fixed_buffer \<Rightarrow> fixed_buffer" where
  "put_bool v b = fb_append b (if v then ''1'' else ''0'')"

definition put_char :: "char \<Rightarrow> fixed_buffer \<Rightarrow> fixed_buffer" where
  "put_char c b = fb_append b [c]"

definition format_integer :: "int \<Rightarrow> fixed_buffer \<Rightarrow> fixed_buffer" where
  "format_integer v b =
     (if fb_length b + kMaxNumericSize < small_size then fb_append b (convert v) else b)"

definition put_double :: "string \<Rightarrow> fixed_buffer \<Rightarrow> fixed_buffer" where
  "put_double txt b =
     (if fb_length b + kMaxNumericSize < small_size
      then (if length txt > 0 then fb_append b txt else b) else b)"

definition put_pointer :: "nat \<Rightarrow> fixed_buffer \<Rightarrow> fixed_buffer" where
  "put_pointer v b =
     (if fb_length b + kMaxNumericSize < small_size then fb_append b (''0x'' @ convertHex v) else b)"

definition put_cstr :: "string option \<Rightarrow> fixed_buffer \<Rightarrow> fixed_buffer" where
  "put_cstr s b = (case s of Some str \<Rightarrow> fb_append b str | None \<Rightarrow> fb_append b ''(null)'')"

definition put_string :: "string \<Rightarrow> fixed_buffer \<Rightarrow> fixed_buffer" where
  "put_string s b = fb_append b s"

fun put_item :: "fixed_buffer \<Rightarrow> log_item \<Rightarrow> fixed_buffer" where
  "put_item b (LBool v) = put_bool v b"
| "put_item b (LChar c) = put_char c b"
| "put_item b (LInt v) = format_integer v b"
| "put_item b (LDouble txt) = put_double txt b"
| "put_item b (LPtr v) = put_pointer v b"
| "put_item b (LCStr s) = put_cstr s b"
| "put_item b (LStr s) = put_string s b"

text \<open>What an operand should print.\<close>

fun render :: "log_item \<Rightarrow> string" where
  "render (LBool v) = (if v then ''1'' else ''0'')"
| "render (LChar c) = [c]"
| "render (LInt v) = convert v"
| "render (LDouble txt) = txt"
| "render (LPtr v) = ''0x'' @ convertHex v"
| "render (LCStr s) = (case s of Some str \<Rightarrow> str | None \<Rightarrow> ''(null)'')"
| "render (LStr s) = s"

fun numeric :: "log_item \<Rightarrow> bool" where
  "numeric (LInt v) = True"
| "numeric (LDouble txt) = True"
| "numeric (LPtr v) = True"
| "numeric _ = False"

lemma fb_append_nil: "fb_append b [] = b"
  by (simp add: fb_append_def Let_def mem_write_def)

lemma put_item_cases:
  "put_item b it = (if numeric it \<and> fb_length b + kMaxNumericSize \<ge> small_size then b
                    else fb_append b (render it))"
  by (cases it) (auto simp: put_bool_def put_char_def format_integer_def put_double_def
      put_pointer_def put_cstr_def put_string_def fb_append_nil split: option.splits)

lemma put_item_ok: "fb_ok small_size b \<Longrightarrow> fb_ok small_size (put_item b it)"
  by (simp add: put_item_cases fb_append_ok)

lemma put_items_ok: "fb_ok small_size b \<Longrightarrow> fb_ok small_size (foldl put_item b its)"
  by (induction its arbitrary: b) (simp_all add: put_item_ok)

section \<open>Properties\<close>

text \<open>C33: Round trip of integers.  For every value of a signed or unsigned 64-bit type the
  text \<open>convert\<close> produces reads back as that value and, with its terminator, fits the
  48 bytes reserved for it.\<close>

theorem convert_round_trip:
  assumes "- (2 ^ 63) \<le> v" and "v < 2 ^ 64"
  shows "read_decimal (convert v) = v \<and> length (convert v) + 1 \<le> 21 \<and> 21 \<le> kMaxNumericSize"
proof -
  let ?ds = "digs 10 (\<lambda>k. zero_at (int k)) (nat \<bar>v\<bar>)"
  have "length ?ds \<le> (if v < 0 then 19 else 20)"
    using assms by (auto intro!: digs_length)
  then show ?thesis using read_convert [of v]
    by (auto simp: convert_digs kMaxNumericSize_def split: if_splits)
qed

text \<open>Round trip of addresses, without padding: at most 16 digits follow \<open>0x\<close>.\<close>

theorem convertHex_round_trip:
  assumes "v < 2 ^ 64"
  shows "read_base 16 (convertHex v) = v \<and> length (convertHex v) \<le> 16 \<and> length (''0x'' @ convertHex v) + 1 \<le> kMaxNumericSize"
proof -
  have "read_base 16 (convertHex v) = v"
    unfolding convertHex_def convertHex_loop_digs by (rule digs_value) (simp_all add: digit_value_hex)
  moreover have "length (convertHex v) \<le> 16"
    unfolding convertHex_def convertHex_loop_digs length_rev by (rule digs_length) (use assms in simp_all)
  ultimately show ?thesis by (simp add: kMaxNumericSize_def)
qed

lemma put_items_exact:
  "fb_ok small_size b \<Longrightarrow>
   length (fb_contents b) + length (concat (map render its)) + kMaxNumericSize \<le> small_size \<Longrightarrow>
   fb_contents (foldl put_item b its) = fb_contents b @ concat (map render its)"
proof (induction its arbitrary: b)
  case Nil
  then show ?case by simp
next
  case (Cons it its)
  have app: "fb_contents (fb_append b (render it)) = fb_contents b @ render it"
    by (rule fb.put_fits [OF Cons.prems(1)]) (use Cons.prems(2) in simp)
  have "fb_contents (put_item b it) = fb_contents b @ render it"
  proof (cases "render it = []")
    case True
    then show ?thesis using app by (auto simp: put_item_cases)
  next
    case False
    then have "length (fb_contents b) + kMaxNumericSize < small_size"
      using Cons.prems(2) unfolding list.map concat.simps length_append length_greater_0_conv [symmetric] by linarith
    then have "put_item b it = fb_append b (render it)"
      using fb_contents_length [OF Cons.prems(1)] by (auto simp: put_item_cases fb_length_def)
    then show ?thesis using app by simp
  qed
  then show ?case using Cons.IH [OF put_item_ok [OF Cons.prems(1)]] Cons.prems by simp
qed

lemma put_items_subseq:
  "fb_ok small_size b \<Longrightarrow> subseq (fb_contents (foldl put_item b its)) (fb_contents b @ concat (map render its))"
proof (induction its arbitrary: b)
  case Nil
  then show ?case by simp
next
  case (Cons it its)
  have "subseq (fb_contents (put_item b it)) (fb_contents b @ render it)"
    using fb.put_subseq [OF Cons.prems] by (auto simp: put_item_cases subseq_rev_drop_many)
  then have "subseq (fb_contents (put_item b it) @ concat (map render its))
      ((fb_contents b @ render it) @ concat (map render its))" by (simp only: subseq_append)
  then show ?case using Cons.IH [OF put_item_ok [OF Cons.prems]] by (auto intro: subseq_order.order_trans)
qed

text \<open>C34: A log line shows exactly what was streamed into it as long as 48 bytes stay free;
  beyond that it stays within its 4000 bytes and only loses characters: what it shows is a
  subsequence of what was streamed.\<close>

theorem stream_shows_what_was_put:
  assumes "length junk = small_size"
  shows "(length (concat (map render its)) + kMaxNumericSize \<le> small_size \<longrightarrow>
       fb_contents (foldl put_item (fb_new junk) its) = concat (map render its))
    \<and> length (fb_contents (foldl put_item (fb_new junk) its)) \<le> small_size
    \<and> subseq (fb_contents (foldl put_item (fb_new junk) its)) (concat (map render its))"
proof -
  have n: "fb_ok small_size (fb_new junk)" "fb_contents (fb_new junk) = []"
    using fb_new_ok [OF assms(1)] by simp_all
  show ?thesis
    using put_items_exact [OF n(1), of its] put_items_subseq [OF n(1), of its]
      fb.view_length [OF put_items_ok [OF n(1), of its]] n(2) by auto
qed

text \<open>A number is dropped as a whole, not cut, once no more than 48 of the 4000 bytes are free.\<close>

theorem numbers_dropped_when_nearly_full:
  assumes "fb_ok small_size b" and "3952 \<le> length (fb_contents b)"
  shows "put_item b (LInt v) = b \<and> put_item b (LPtr p) = b"
  using assms by (simp add: put_item_cases fb_contents_length fb_length_def small_size_def kMaxNumericSize_def)

text \<open>Level names.  Each of the six levels has a name of six characters of its own;
  any other value yields the seven characters \<open>?????? \<close>.\<close>

theorem level_names_aligned:
  "length (log_level_name (level_val l)) = 6
   \<and> (log_level_name (level_val l) = log_level_name (level_val m) \<longrightarrow> l = m)
   \<and> (i < 0 \<or> i \<ge> 6 \<longrightarrow> length (log_level_name i) = 7)"
  by (cases l; cases m; simp add: log_level_name_def level_names_def)

theorem convert_round_trip_witness:
  "convert (- 9223372036854775808) = ''-9223372036854775808'' \<and> read_decimal (convert (- 9223372036854775808)) = - 9223372036854775808"
proof -
  have "convert (- 9223372036854775808) = ''-9223372036854775808''"
    by (simp add: convert_def convert_loop.simps Let_def c_div_def c_mod_def zero_at_def digits_def)
  then show ?thesis using convert_round_trip [of "- 9223372036854775808"] by simp
qed

theorem convertHex_round_trip_witness: "convertHex 48879 = ''BEEF'' \<and> read_base 16 (convertHex 48879) = 48879"
  using convertHex_round_trip [of 48879]
  by (simp add: convertHex_def convertHex_loop.simps Let_def digitsHex_def)

theorem stream_shows_what_was_put_witness:
  "fb_contents (foldl put_item (fb_new (replicate small_size (CHR 0x00))) [LStr ''n='', LInt 42]) = ''n=42''"
proof -
  have "concat (map render [LStr ''n='', LInt 42]) = ''n=42''"
    by (simp add: convert_def convert_loop.simps Let_def c_div_def c_mod_def zero_at_def digits_def)
  then show ?thesis
    using stream_shows_what_was_put [of "replicate small_size (CHR 0x00)" "[LStr ''n='', LInt 42]"]
    by (simp add: small_size_def kMaxNumericSize_def)
qed

definition demo_full :: fixed_buffer where
  "demo_full = \<lparr>fb_mem = replicate 4000 (CHR ''x''), fb_cur = 4000\<rparr>"

lemma demo_full_ok: "fb_ok small_size demo_full" "fb_contents demo_full = replicate 4000 (CHR ''x'')"
  by (simp_all add: fb_ok_def demo_full_def fb_contents_def small_size_def mslice_def)

theorem numbers_dropped_when_nearly_full_witness: "put_item demo_full (LInt 7) = demo_full"
  using numbers_dropped_when_nearly_full [OF demo_full_ok(1)] by (simp add: demo_full_ok(2))

theorem level_names_aligned_witness: "length (log_level_name 6) = 7"
  using level_names_aligned [of INFO INFO 6] by simp

end
