(* ===== verification/Log_File.thy ===== *)
theory Log_File
  imports Log_Stream "HOL-Library.Product_Lexorder"
begin

text \<open>
  \<open>AppendFile\<close> and \<open>LogFile\<close> (\<open>log/log_file.hpp\<close>, \<open>src/log/log_file.cc\<close>):
  the rolling files the log backend writes.  The clock, the formatting of a time by the C
  library, host name and process id, \<open>fopen\<close> and \<open>fwrite\<close> are parameters.  The
  locale \<open>log_sink\<close> is what the backend expects of its output.
\<close>

section \<open>AppendFile\<close>

record file_env =
  fe_clock :: "nat \<Rightarrow> int"                          \<comment> \<open>\<open>time(nullptr)\<close>, by reading\<close>
  fe_stamp :: "int \<Rightarrow> string"                       \<comment> \<open>\<open>gmtime_r\<close> and \<open>strftime\<close>\<close>
  fe_host :: string
  fe_pid :: int
  fe_open :: "string \<Rightarrow> bool"                       \<comment> \<open>whether \<open>fopen\<close> succeeds\<close>
  fe_fwrite :: "string \<Rightarrow> string \<Rightarrow> nat \<times> bool"      \<comment> \<open>count and \<open>ferror\<close>\<close>

record append_file =
  af_name :: string
  af_fp :: bool              \<comment> \<open>\<open>fp_\<close> is not null\<close>
  af_data :: string          \<comment> \<open>what was written to it\<close>
  written_bytes :: int
  af_flushed :: nat          \<comment> \<open>bytes no longer in the stdio buffer\<close>

definition af_new :: "file_env \<Rightarrow> string \<Rightarrow> append_file" where
  "af_new fe name = \<lparr>af_name = name, af_fp = fe_open fe name, af_data = [], written_bytes = 0, af_flushed = 0\<rparr>"

text \<open>
  The loop of \<open>append\<close>, with the bytes counted and the contents of the file.  It ends when
  all is written or the stream is in error; a loop that does not end has the value \<open>None\<close>.
\<close>

partial_function (option) af_write_loop ::
  "(string \<Rightarrow> string \<Rightarrow> nat \<times> bool) \<Rightarrow> string \<Rightarrow> nat \<Rightarrow> string \<Rightarrow> (nat \<times> string) option" where
  "af_write_loop fw line written data =
     (if written = length line then Some (written, data)
      else let remain = drop written line; r = fw data remain; data' = data @ take (fst r) remain
           in if fst r \<noteq> length remain \<and> snd r then Some (written, data')
              else af_write_loop fw line (written + fst r) data')"

definition af_append :: "file_env \<Rightarrow> string \<Rightarrow> append_file \<Rightarrow> append_file option" where
  "af_append fe line f =
     (if \<not> af_fp f then Some f
      else case af_write_loop (fe_fwrite fe) line 0 (af_data f) of
             None \<Rightarrow> None
           | Some (w, data) \<Rightarrow> Some (f\<lparr>af_data := data, written_bytes := written_bytes f + int w\<rparr>))"

definition af_flush :: "append_file \<Rightarrow> append_file" where
  "af_flush f = (if af_fp f then f\<lparr>af_flushed := length (af_data f)\<rparr> else f)"

text \<open>The destructor: \<open>fclose\<close> writes out what is still in the buffer of the stream.\<close>

definition af_destroy :: "append_file \<Rightarrow> append_file" where
  "af_destroy f = (if af_fp f then (af_flush f)\<lparr>af_fp := False\<rparr> else f)"

lemma af_destroy_simps [simp]: "af_data (af_destroy f) = af_data f" "af_name (af_destroy f) = af_name f"
  "written_bytes (af_destroy f) = written_bytes f" "\<not> af_fp (af_destroy f)"
  by (simp_all add: af_destroy_def af_flush_def)

section \<open>LogFile\<close>

record log_file =
  lf_basename :: string
  lf_roll_size :: int
  lf_flush_interval :: int
  lf_check_every_n :: int
  lf_count :: int
  same_second_seq :: int
  start_of_period :: int
  last_roll :: int
  last_flush :: int
  lf_file :: "append_file option"
  lf_clk :: nat                         \<comment> \<open>clock readings so far\<close>
  lf_closed :: "append_file list"       \<comment> \<open>files rolled away\<close>

definition kRollPerSeconds :: int where
  "kRollPerSeconds = 60 * 60 * 24"

definition make_filename :: "file_env \<Rightarrow> int \<Rightarrow> log_file \<Rightarrow> string \<times> log_file" where
  "make_filename fe now lf =
     (let seq = (if now = last_roll lf then same_second_seq lf + 1 else 0);
          suffix = (if now = last_roll lf then ''-'' @ convert seq else [])
      in (lf_basename lf @ fe_stamp fe now @ suffix @ ''.'' @ fe_host fe @ ''.'' @ convert (fe_pid fe) @ ''.log'',
          lf\<lparr>same_second_seq := seq\<rparr>))"

definition roll_file :: "file_env \<Rightarrow> log_file \<Rightarrow> bool \<times> log_file" where
  "roll_file fe lf =
     (let now = fe_clock fe (lf_clk lf);
          nl = make_filename fe now (lf\<lparr>lf_clk := Suc (lf_clk lf)\<rparr>);
          lf1 = snd nl;
          start = c_div now kRollPerSeconds * kRollPerSeconds
      in if now \<ge> last_roll lf1
         then (True, lf1\<lparr>last_roll := now, last_flush := now, start_of_period := start,
                 lf_closed := lf_closed lf1 @ (case lf_file lf1 of None \<Rightarrow> [] | Some f \<Rightarrow> [af_destroy f]),
                 lf_file := Some (af_new fe (fst nl))\<rparr>)
         else (False, lf1))"

definition lf_new :: "file_env \<Rightarrow> string \<Rightarrow> int \<Rightarrow> int \<Rightarrow> int \<Rightarrow> log_file" where
  "lf_new fe basename rs fi n =
     snd (roll_file fe \<lparr>lf_basename = basename, lf_roll_size = rs, lf_flush_interval = fi,
       lf_check_every_n = n, lf_count = 0, same_second_seq = 0, start_of_period = 0, last_roll = 0,
       last_flush = 0, lf_file = None, lf_clk = 0, lf_closed = []\<rparr>)"

text \<open>The part of \<open>append\<close> after the write: roll by size, else every so often by day or flush.\<close>

definition lf_after_write :: "file_env \<Rightarrow> append_file \<Rightarrow> log_file \<Rightarrow> log_file" where
  "lf_after_write fe f lf =
     (if written_bytes f > lf_roll_size lf then snd (roll_file fe lf)
      else let lf1 = lf\<lparr>lf_count := lf_count lf + 1\<rparr>
           in if lf_count lf1 \<ge> lf_check_every_n lf1
              then let now = fe_clock fe (lf_clk lf1);
                       lf2 = lf1\<lparr>lf_count := 0, lf_clk := Suc (lf_clk lf1)\<rparr>;
                       this_period = c_div now kRollPerSeconds * kRollPerSeconds
                   in if this_period \<noteq> start_of_period lf2 then snd (roll_file fe lf2)
                      else if now - last_flush lf2 > lf_flush_interval lf2
                      then lf2\<lparr>last_flush := now, lf_file := Some (af_flush f)\<rparr>
                      else lf2
              else lf1)"

definition lf_append :: "file_env \<Rightarrow> string \<Rightarrow> log_file \<Rightarrow> log_file option" where
  "lf_append fe line lf =
     (case lf_file lf of
        None \<Rightarrow> Some lf
      | Some f \<Rightarrow> (case af_append fe line f of
                     None \<Rightarrow> None
                   | Some f' \<Rightarrow> Some (lf_after_write fe f' (lf\<lparr>lf_file := Some f'\<rparr>))))"

definition lf_flush :: "log_file \<Rightarrow> log_file" where
  "lf_flush lf = (case lf_file lf of None \<Rightarrow> lf | Some f \<Rightarrow> lf\<lparr>lf_file := Some (af_flush f)\<rparr>)"

section \<open>The contract of the output\<close>

text \<open>Writing several buffers one after the other.\<close>

fun write_chunks :: "('f \<Rightarrow> string \<Rightarrow> 'f option) \<Rightarrow> 'f \<Rightarrow> string list \<Rightarrow> 'f option" where
  "write_chunks app f [] = Some f"
| "write_chunks app f (s # ss) = (case app f s of None \<Rightarrow> None | Some f' \<Rightarrow> write_chunks app f' ss)"

text \<open>
  \<open>wtext f\<close> is all that was written, over all files; an append puts its bytes at the end
  and returns, and a flush changes nothing of it.
\<close>

locale log_sink =
  fixes app :: "'f \<Rightarrow> string \<Rightarrow> 'f option"
    and flush :: "'f \<Rightarrow> 'f"
    and wtext :: "'f \<Rightarrow> string"
    and inv :: "'f \<Rightarrow> bool"
  assumes append_law: "inv f \<Longrightarrow> \<exists>f'. app f s = Some f' \<and> inv f' \<and> wtext f' = wtext f @ s"
    and flush_law: "inv f \<Longrightarrow> inv (flush f) \<and> wtext (flush f) = wtext f"
begin

lemma write_all:
  "inv f \<Longrightarrow> \<exists>f'. write_chunks app f ss = Some f'
     \<and> inv f' \<and> wtext f' = wtext f @ concat ss"
proof (induction ss arbitrary: f)
  case Nil
  then show ?case by simp
next
  case (Cons s ss)
  obtain f1 where f1: "app f s = Some f1" "inv f1" "wtext f1 = wtext f @ s"
    using append_law [OF Cons.prems] by blast
  from Cons.IH [OF f1(2)] f1 show ?case by auto
qed

end

section \<open>LogFile keeps the contract\<close>

definition lf_text :: "log_file \<Rightarrow> string" where
  "lf_text lf = concat (map af_data (lf_closed lf)) @ (case lf_file lf of None \<Rightarrow> [] | Some f \<Rightarrow> af_data f)"

text \<open>Files can be opened and \<open>fwrite\<close> writes all it is given.\<close>

definition files_work :: "file_env \<Rightarrow> bool" where
  "files_work fe \<longleftrightarrow> (\<forall>n. fe_open fe n) \<and> (\<forall>d s. fe_fwrite fe d s = (length s, False))"

definition lf_inv :: "log_file \<Rightarrow> bool" where
  "lf_inv lf \<longleftrightarrow> (\<exists>f. lf_file lf = Some f \<and> af_fp f)"

text \<open>By the C standard \<open>fwrite\<close> returns a short count only with the error flag set.\<close>

definition fwrite_ok :: "file_env \<Rightarrow> bool" where
  "fwrite_ok fe \<longleftrightarrow> (\<forall>d s. fst (fe_fwrite fe d s) \<le> length s \<and> (fst (fe_fwrite fe d s) < length s \<longrightarrow> snd (fe_fwrite fe d s)))"

lemma af_write_loop_result:
  assumes "fwrite_ok fe"
  shows "af_write_loop (fe_fwrite fe) line 0 data =
     (let n = fst (fe_fwrite fe data line)
      in if line = [] then Some (0, data)
         else if n = length line then Some (n, data @ line)
         else Some (0, data @ take n line))"
proof -
  have n: "fst (fe_fwrite fe data line) \<le> length line"
      "fst (fe_fwrite fe data line) \<noteq> length line \<Longrightarrow> snd (fe_fwrite fe data line)"
    using assms unfolding fwrite_ok_def by (auto simp: less_le)
  have stop: "af_write_loop (fe_fwrite fe) line (length line) d = Some (length line, d)" for d
    by (subst af_write_loop.simps) simp
  show ?thesis
    by (subst af_write_loop.simps) (use n stop in \<open>auto simp: Let_def\<close>)
qed

lemma files_work_fwrite_ok: "files_work fe \<Longrightarrow> fwrite_ok fe"
  by (simp add: files_work_def fwrite_ok_def)

lemma af_append_works:
  assumes "files_work fe" and "af_fp f"
  shows "af_append fe line f = Some (f\<lparr>af_data := af_data f @ line, written_bytes := written_bytes f + int (length line)\<rparr>)"
  using assms af_write_loop_result [OF files_work_fwrite_ok [OF assms(1)], of line "af_data f"]
  by (auto simp: af_append_def files_work_def Let_def split: if_splits)

lemma roll_file_text:
  assumes "files_work fe" and "lf_inv lf"
  shows "lf_inv (snd (roll_file fe lf)) \<and> lf_text (snd (roll_file fe lf)) = lf_text lf"
  using assms by (auto simp: roll_file_def make_filename_def Let_def lf_inv_def lf_text_def af_new_def files_work_def)

lemma lf_after_write_text:
  assumes "files_work fe" and "lf_file lf = Some f" and "af_fp f"
  shows "lf_inv (lf_after_write fe f lf) \<and> lf_text (lf_after_write fe f lf) = lf_text lf"
proof -
  have r: "lf_inv (snd (roll_file fe (lf\<lparr>lf_count := c, lf_clk := k\<rparr>)))
      \<and> lf_text (snd (roll_file fe (lf\<lparr>lf_count := c, lf_clk := k\<rparr>))) = lf_text lf" for c k
    using roll_file_text [OF assms(1), of "lf\<lparr>lf_count := c, lf_clk := k\<rparr>"] assms(2,3)
    by (simp add: lf_inv_def lf_text_def)
  have "lf_inv (snd (roll_file fe lf)) \<and> lf_text (snd (roll_file fe lf)) = lf_text lf"
    using roll_file_text [OF assms(1), of lf] assms(2,3) by (simp add: lf_inv_def)
  then show ?thesis using r assms(2,3)
    by (auto simp: lf_after_write_def Let_def lf_inv_def lf_text_def af_flush_def)
qed

lemma lf_append_law:
  assumes "files_work fe" and "lf_inv lf"
  shows "\<exists>lf'. lf_append fe line lf = Some lf' \<and> lf_inv lf' \<and> lf_text lf' = lf_text lf @ line"
proof -
  obtain f where f: "lf_file lf = Some f" "af_fp f" using assms(2) by (auto simp: lf_inv_def)
  let ?f = "f\<lparr>af_data := af_data f @ line, written_bytes := written_bytes f + int (length line)\<rparr>"
  have "lf_append fe line lf = Some (lf_after_write fe ?f (lf\<lparr>lf_file := Some ?f\<rparr>))"
    using f af_append_works [OF assms(1) f(2)] by (simp add: lf_append_def)
  then show ?thesis
    using lf_after_write_text [OF assms(1), of "lf\<lparr>lf_file := Some ?f\<rparr>" ?f] f by (simp add: lf_text_def)
qed

lemma lf_flush_law: "lf_inv lf \<Longrightarrow> lf_inv (lf_flush lf) \<and> lf_text (lf_flush lf) = lf_text lf"
  by (auto simp: lf_inv_def lf_flush_def lf_text_def af_flush_def)

text \<open>
  The environment of the concrete runs: a clock at one reading per ten seconds, times printed
  as numbers, files that work.
\<close>

definition demo_fe :: file_env where
  "demo_fe = \<lparr>fe_clock = (\<lambda>n. 86400 + 10 * int n), fe_stamp = (\<lambda>t. ''.'' @ convert t), fe_host = ''h'', fe_pid = 7,
     fe_open = (\<lambda>n. True), fe_fwrite = (\<lambda>d s. (length s, False))\<rparr>"

lemma demo_fe_works: "files_work demo_fe"
  by (simp add: files_work_def demo_fe_def)

interpretation lfile: log_sink "\<lambda>f s. lf_append fe s f" lf_flush lf_text "\<lambda>f. lf_inv f \<and> files_work fe" for fe
proof unfold_locales
  show "\<exists>f'. lf_append fe s f = Some f' \<and> (lf_inv f' \<and> files_work fe) \<and> lf_text f' = lf_text f @ s"
    if "lf_inv f \<and> files_work fe" for f s
    using lf_append_law that by blast
  show "(lf_inv (lf_flush f) \<and> files_work fe) \<and> lf_text (lf_flush f) = lf_text f"
    if "lf_inv f \<and> files_work fe" for f
    using lf_flush_law that by blast
qed


section \<open>File names\<close>

text \<open>The name of the file opened at second \<open>t\<close> as number \<open>k\<close> of that second.\<close>

definition file_name :: "file_env \<Rightarrow> string \<Rightarrow> int \<times> int \<Rightarrow> string" where
  "file_name fe base tk = base @ fe_stamp fe (fst tk) @ (if snd tk = 0 then [] else ''-'' @ convert (snd tk))
     @ ''.'' @ fe_host fe @ ''.'' @ convert (fe_pid fe) @ ''.log''"

definition all_files :: "log_file \<Rightarrow> append_file list" where
  "all_files lf = lf_closed lf @ (case lf_file lf of None \<Rightarrow> [] | Some f \<Rightarrow> [f])"

text \<open>The times the clock shows are printed one-to-one at a fixed width, and it does not go back.\<close>

definition stamps_ok :: "file_env \<Rightarrow> bool" where
  "stamps_ok fe \<longleftrightarrow> (\<exists>n. \<forall>t \<in> range (fe_clock fe). length (fe_stamp fe t) = n)
     \<and> inj_on (fe_stamp fe) (range (fe_clock fe))"

definition clock_monotone :: "file_env \<Rightarrow> bool" where
  "clock_monotone fe \<longleftrightarrow> (\<forall>m n. m \<le> n \<longrightarrow> fe_clock fe m \<le> fe_clock fe n)"

lemma file_name_inject:
  assumes "stamps_ok fe" and "file_name fe base x = file_name fe base y"
    and "fst x \<in> range (fe_clock fe)" and "fst y \<in> range (fe_clock fe)"
  shows "x = y"
proof -
  have len: "length (fe_stamp fe (fst x)) = length (fe_stamp fe (fst y))"
    and inj: "fe_stamp fe (fst x) = fe_stamp fe (fst y) \<Longrightarrow> fst x = fst y"
    using assms(1,3,4) by (auto simp: stamps_ok_def inj_on_def)
  have "fe_stamp fe (fst x) = fe_stamp fe (fst y)
      \<and> (if snd x = 0 then [] else ''-'' @ convert (snd x)) = (if snd y = 0 then [] else ''-'' @ convert (snd y))"
    using assms(2) len unfolding file_name_def same_append_eq by (simp add: append_eq_append_conv)
  then show ?thesis using inj by (auto simp: convert_inject prod_eq_iff split: if_splits)
qed

definition names_inv :: "file_env \<Rightarrow> log_file \<Rightarrow> bool" where
  "names_inv fe lf \<longleftrightarrow>
     (\<exists>ps. map af_name (all_files lf) = map (file_name fe (lf_basename lf)) ps \<and> sorted_wrt (<) ps
        \<and> (\<forall>p \<in> set ps. p \<le> (last_roll lf, same_second_seq lf) \<and> fst p \<in> range (fe_clock fe)))
   \<and> 0 \<le> same_second_seq lf \<and> (\<forall>n \<ge> lf_clk lf. last_roll lf \<le> fe_clock fe n)"

lemma names_inv_frame:
  "names_inv fe lf \<Longrightarrow> map af_name (all_files lf') = map af_name (all_files lf) \<Longrightarrow>
   lf_basename lf' = lf_basename lf \<Longrightarrow> last_roll lf' = last_roll lf \<Longrightarrow>
   same_second_seq lf' = same_second_seq lf \<Longrightarrow> lf_clk lf \<le> lf_clk lf' \<Longrightarrow> names_inv fe lf'"
  unfolding names_inv_def by auto

lemma names_inv_roll:
  assumes "names_inv fe lf" and "clock_monotone fe"
  shows "names_inv fe (snd (roll_file fe lf))"
proof -
  let ?now = "fe_clock fe (lf_clk lf)"
  let ?k = "if ?now = last_roll lf then same_second_seq lf + 1 else 0"
  obtain ps where ps: "map af_name (all_files lf) = map (file_name fe (lf_basename lf)) ps"
      "sorted_wrt (<) ps" "\<forall>p \<in> set ps. p \<le> (last_roll lf, same_second_seq lf)"
      "\<forall>p \<in> set ps. fst p \<in> range (fe_clock fe)" and k: "0 \<le> same_second_seq lf" and le: "last_roll lf \<le> ?now"
    using assms(1) by (auto simp: names_inv_def)
  let ?lf = "snd (roll_file fe lf)"
  have r: "last_roll ?lf = ?now" "same_second_seq ?lf = ?k" "lf_clk ?lf = Suc (lf_clk lf)"
      "lf_basename ?lf = lf_basename lf"
      "map af_name (all_files ?lf) = map af_name (all_files lf) @ [file_name fe (lf_basename lf) (?now, ?k)]"
    using le k by (auto simp: roll_file_def make_filename_def Let_def all_files_def af_new_def file_name_def
        split: option.splits)
  have lt: "(last_roll lf, same_second_seq lf) < (?now, ?k)" using le by auto
  have "sorted_wrt (<) (ps @ [(?now, ?k)])" using ps(2,3) lt by (auto simp: sorted_wrt_append intro: le_less_trans)
  moreover have "\<forall>p \<in> set (ps @ [(?now, ?k)]). p \<le> (?now, ?k)"
    using ps(3) lt by (auto simp del: less_eq_prod_simp less_prod_simp intro: order_trans [OF _ less_imp_le])
  moreover have "\<forall>n \<ge> Suc (lf_clk lf). ?now \<le> fe_clock fe n"
    using assms(2) unfolding clock_monotone_def by (meson Suc_leD)
  ultimately show ?thesis unfolding names_inv_def r using ps(1,4) k
    by (intro conjI exI [of _ "ps @ [(?now, ?k)]"]) auto
qed

lemma names_inv_append:
  assumes "names_inv fe lf" and "clock_monotone fe" and "lf_append fe line lf = Some lf'"
  shows "names_inv fe lf'"
proof (cases "lf_file lf")
  case None
  then show ?thesis using assms by (simp add: lf_append_def)
next
  case (Some f)
  then obtain f' where f': "af_append fe line f = Some f'"
      and lf': "lf' = lf_after_write fe f' (lf\<lparr>lf_file := Some f'\<rparr>)"
    using assms(3) by (auto simp: lf_append_def split: option.splits)
  have nm: "af_name f' = af_name f"
    using f' by (auto simp: af_append_def split: if_splits option.splits)
  let ?g = "\<lambda>c k. lf\<lparr>lf_file := Some f', lf_count := c, lf_clk := k\<rparr>"
  have base: "names_inv fe (?g c k)" if "lf_clk lf \<le> k" for c k
    by (rule names_inv_frame [OF assms(1)]) (use that Some nm in \<open>simp_all add: all_files_def\<close>)
  have roll: "names_inv fe (snd (roll_file fe (?g c k)))" if "lf_clk lf \<le> k" for c k
    by (rule names_inv_roll [OF base [OF that] assms(2)])
  have fl: "names_inv fe (?g c k\<lparr>last_flush := x, lf_file := Some (af_flush f')\<rparr>)" if "lf_clk lf \<le> k" for c k x
    by (rule names_inv_frame [OF assms(1)]) (use that Some nm in \<open>simp_all add: all_files_def af_flush_def\<close>)
  have roll0: "names_inv fe (snd (roll_file fe (lf\<lparr>lf_file := Some f'\<rparr>)))"
    by (rule names_inv_roll [OF names_inv_frame [OF assms(1)] assms(2)])
      (use Some nm in \<open>simp_all add: all_files_def\<close>)
  have base0: "names_inv fe (lf\<lparr>lf_file := Some f', lf_count := c\<rparr>)" for c
    by (rule names_inv_frame [OF assms(1)]) (use Some nm in \<open>simp_all add: all_files_def\<close>)
  show ?thesis
    unfolding lf' lf_after_write_def Let_def using base roll fl roll0 base0 by simp
qed

section \<open>Properties\<close>

lemma lf_new_inv: "files_work fe \<Longrightarrow> 0 \<le> fe_clock fe 0 \<Longrightarrow> lf_inv (lf_new fe b rs fi n) \<and> lf_text (lf_new fe b rs fi n) = []"
  by (auto simp: lf_new_def roll_file_def make_filename_def Let_def lf_inv_def lf_text_def af_new_def files_work_def)

lemma lf_new_names: "clock_monotone fe \<Longrightarrow> 0 \<le> fe_clock fe 0 \<Longrightarrow> names_inv fe (lf_new fe b rs fi n)"
  unfolding lf_new_def
proof (rule names_inv_roll)
  assume c: "clock_monotone fe" "0 \<le> fe_clock fe 0"
  have "0 \<le> fe_clock fe k" for k using c unfolding clock_monotone_def by (meson le0 order_trans)
  then show "names_inv fe \<lparr>lf_basename = b, lf_roll_size = rs, lf_flush_interval = fi,
       lf_check_every_n = n, lf_count = 0, same_second_seq = 0, start_of_period = 0, last_roll = 0,
       last_flush = 0, lf_file = None, lf_clk = 0, lf_closed = []\<rparr>"
    by (simp add: names_inv_def all_files_def)
qed

lemma write_chunks_names:
  "write_chunks (\<lambda>f s. lf_append fe s f) lf ss = Some lf' \<Longrightarrow> clock_monotone fe \<Longrightarrow> names_inv fe lf \<Longrightarrow> names_inv fe lf'"
  by (induction ss arbitrary: lf) (auto split: option.splits dest: names_inv_append)

lemma lf_writes_all:
  assumes "files_work fe" and "0 \<le> fe_clock fe 0"
  shows "\<exists>lf. write_chunks (\<lambda>f s. lf_append fe s f) (lf_new fe b rs fi n) ss = Some lf
    \<and> lf_inv lf \<and> lf_text lf = concat ss"
  using lfile.write_all [of "lf_new fe b rs fi n" fe ss] lf_new_inv [OF assms] assms(1) by auto

text \<open>C36: Rolling loses nothing.  Whatever is appended to a fresh log file, across size and
  day rolls and flushes, every call returns and the files together hold all bytes in order, as
  long as files can be opened and written.\<close>

theorem log_file_keeps_everything:
  assumes "files_work fe" and "0 \<le> fe_clock fe 0"
  shows "\<exists>lf. write_chunks (\<lambda>f s. lf_append fe s f) (lf_new fe b rs fi n) ss = Some lf
    \<and> lf_text lf = concat ss \<and> lf_text (lf_flush lf) = concat ss"
  using lf_writes_all [OF assms] lf_flush_law by metis

text \<open>A failing disk does not hang the backend: if \<open>fwrite\<close> reports short writes by its
  error flag, an append returns, counts no byte it did not write, and keeps what was there.\<close>

theorem append_returns_on_error:
  assumes "fwrite_ok fe"
  shows "\<exists>f'. af_append fe line f = Some f'
    \<and> (\<exists>k \<le> length line. af_data f' = af_data f @ take k line
        \<and> written_bytes f' \<le> written_bytes f + int k)"
proof -
  let ?n = "fst (fe_fwrite fe (af_data f) line)"
  have n: "?n \<le> length line" using assms by (simp add: fwrite_ok_def)
  consider "\<not> af_fp f" | "af_fp f" "line = []" | "af_fp f" "line \<noteq> []" "?n = length line"
    | "af_fp f" "line \<noteq> []" "?n \<noteq> length line" by blast
  then show ?thesis
  proof cases
    case 1
    then show ?thesis by (auto simp: af_append_def intro: exI [of _ 0])
  next
    case 4
    then show ?thesis using n af_write_loop_result [OF assms, of line "af_data f"]
      by (auto simp: af_append_def Let_def intro: exI [of _ ?n])
  qed (use af_write_loop_result [OF assms, of line "af_data f"] in \<open>auto simp: af_append_def Let_def\<close>)
qed

text \<open>Distinct file names.  While the clock does not go back, all files a log file opens
  have different names, also when several are opened within one second.\<close>

theorem file_names_distinct:
  assumes "clock_monotone fe" and "0 \<le> fe_clock fe 0" and "stamps_ok fe"
    and "write_chunks (\<lambda>f s. lf_append fe s f) (lf_new fe b rs fi n) ss = Some lf"
  shows "distinct (map af_name (all_files lf))"
proof -
  have "names_inv fe lf" by (rule write_chunks_names [OF assms(4,1) lf_new_names [OF assms(1,2)]])
  then obtain ps where ps: "map af_name (all_files lf) = map (file_name fe (lf_basename lf)) ps" "sorted_wrt (<) ps"
      "\<forall>p \<in> set ps. fst p \<in> range (fe_clock fe)"
    by (auto simp: names_inv_def)
  have "distinct ps" using ps(2) by (simp add: strict_sorted_iff)
  moreover have "inj_on (file_name fe (lf_basename lf)) (set ps)"
    using file_name_inject [OF assms(3)] ps(3) by (intro inj_onI) blast
  ultimately show ?thesis using ps(1) by (simp add: distinct_map)
qed


section \<open>Concrete runs\<close>

text \<open>A clock that steps back from 100 to 99 and returns; every append exceeds the roll size.\<close>

definition back_fe :: file_env where
  "back_fe = demo_fe\<lparr>fe_clock := (\<lambda>n. if n = 2 then 99 else 100)\<rparr>"

definition roll_period :: "int \<Rightarrow> int" where
  "roll_period now = c_div now kRollPerSeconds * kRollPerSeconds"

lemma roll_file_eq:
  assumes "0 \<le> same_second_seq lf"
  shows "roll_file fe lf =
     (let now = fe_clock fe (lf_clk lf); k = (if now = last_roll lf then same_second_seq lf + 1 else 0)
      in if now \<ge> last_roll lf
         then (True, lf\<lparr>lf_clk := Suc (lf_clk lf), same_second_seq := k, last_roll := now, last_flush := now,
                 start_of_period := roll_period now,
                 lf_closed := lf_closed lf @ (case lf_file lf of None \<Rightarrow> [] | Some f \<Rightarrow> [af_destroy f]),
                 lf_file := Some (af_new fe (file_name fe (lf_basename lf) (now, k)))\<rparr>)
         else (False, lf\<lparr>lf_clk := Suc (lf_clk lf), same_second_seq := k\<rparr>))"
  using assms by (auto simp: roll_file_def make_filename_def Let_def file_name_def roll_period_def)

lemma rolling_append:
  assumes "files_work fe" and "lf_file lf = Some f" and "af_fp f" and "lf_roll_size lf < written_bytes f + int (length s)"
  shows "lf_append fe s lf = Some (snd (roll_file fe (lf\<lparr>lf_file :=
     Some (f\<lparr>af_data := af_data f @ s, written_bytes := written_bytes f + int (length s)\<rparr>)\<rparr>)))"
  using assms af_append_works [OF assms(1,3)] by (simp add: lf_append_def lf_after_write_def)

text \<open>Without that assumption names repeat: when the clock steps back for one reading,
  the running number is reset although no file is opened, and a later file of the same second
  gets a name that is already in use.\<close>

theorem file_name_repeats_if_clock_steps_back:
  "\<exists>lf. write_chunks (\<lambda>f s. lf_append back_fe s f) (lf_new back_fe ''log'' 0 3 1024) [''a'', ''b'', ''c''] = Some lf
    \<and> \<not> distinct (map af_name (all_files lf))"
proof -
  let ?nm = "\<lambda>k. file_name back_fe ''log'' (100, k)"
  let ?f = "\<lambda>n d w. \<lparr>af_name = n, af_fp = True, af_data = d, written_bytes = w, af_flushed = 0\<rparr>"
  let ?g = "\<lambda>n d w. \<lparr>af_name = n, af_fp = False, af_data = d, written_bytes = w, af_flushed = length d\<rparr>"
  let ?lf = "\<lambda>seq k cl f. \<lparr>lf_basename = ''log'', lf_roll_size = 0, lf_flush_interval = 3, lf_check_every_n = 1024,
      lf_count = 0, same_second_seq = seq, start_of_period = roll_period 100, last_roll = 100, last_flush = 100, lf_file = Some f,
      lf_clk = k, lf_closed = cl\<rparr>"
  have w: "files_work back_fe" by (simp add: back_fe_def demo_fe_def files_work_def)
  have new: "lf_new back_fe ''log'' 0 3 1024 = ?lf 0 1 [] (?f (?nm 0) [] 0)"
    by (simp add: lf_new_def roll_file_eq Let_def af_destroy_def af_flush_def) (simp add: back_fe_def demo_fe_def af_new_def)
  have a: "lf_append back_fe ''a'' (?lf 0 1 [] (?f (?nm 0) [] 0))
      = Some (?lf 1 2 [?g (?nm 0) ''a'' 1] (?f (?nm 1) [] 0))"
    using rolling_append [OF w, of "?lf 0 1 [] (?f (?nm 0) [] 0)"]
    by (simp add: roll_file_eq Let_def af_destroy_def af_flush_def) (simp add: back_fe_def demo_fe_def af_new_def)
  have b: "lf_append back_fe ''b'' (?lf 1 2 [?g (?nm 0) ''a'' 1] (?f (?nm 1) [] 0))
      = Some (?lf 0 3 [?g (?nm 0) ''a'' 1] (?f (?nm 1) ''b'' 1))"
    using rolling_append [OF w, of "?lf 1 2 [?g (?nm 0) ''a'' 1] (?f (?nm 1) [] 0)"]
    by (simp add: roll_file_eq Let_def af_destroy_def af_flush_def) (simp add: back_fe_def)
  have c: "lf_append back_fe ''c'' (?lf 0 3 [?g (?nm 0) ''a'' 1] (?f (?nm 1) ''b'' 1))
      = Some (?lf 1 4 [?g (?nm 0) ''a'' 1, ?g (?nm 1) ''bc'' 2] (?f (?nm 1) [] 0))"
    using rolling_append [OF w, of "?lf 0 3 [?g (?nm 0) ''a'' 1] (?f (?nm 1) ''b'' 1)"]
    by (simp add: roll_file_eq Let_def af_destroy_def af_flush_def) (simp add: back_fe_def demo_fe_def af_new_def)
  show ?thesis unfolding new
    by (simp only: write_chunks.simps a b c option.case) (simp add: all_files_def)
qed

theorem log_file_keeps_everything_witness:
  "\<exists>lf. write_chunks (\<lambda>f s. lf_append demo_fe s f) (lf_new demo_fe ''log'' 3 3 1024) [''ab'', ''cde'', ''f''] = Some lf
    \<and> lf_text lf = ''abcdef''"
  using log_file_keeps_everything [OF demo_fe_works, of "''log''" 3 3 1024 "[''ab'', ''cde'', ''f'']"]
  by (auto simp: demo_fe_def)

theorem append_returns_on_error_witness:
  "\<exists>f'. af_append (demo_fe\<lparr>fe_fwrite := (\<lambda>d s. (0, s \<noteq> []))\<rparr>) ''abc'' (af_new demo_fe ''x'') = Some f'"
  using append_returns_on_error [of "demo_fe\<lparr>fe_fwrite := (\<lambda>d s. (0, s \<noteq> []))\<rparr>" "''abc''" "af_new demo_fe ''x''"]
  by (auto simp: fwrite_ok_def)


text \<open>All within one second, one file per append.\<close>

theorem file_names_distinct_witness:
  "\<exists>lf. write_chunks (\<lambda>f s. lf_append (demo_fe\<lparr>fe_clock := (\<lambda>n. 100)\<rparr>) s f)
      (lf_new (demo_fe\<lparr>fe_clock := (\<lambda>n. 100)\<rparr>) ''log'' 0 3 1024) [''a'', ''b'', ''c''] = Some lf
    \<and> distinct (map af_name (all_files lf))"
proof -
  let ?fe = "demo_fe\<lparr>fe_clock := (\<lambda>n. 100)\<rparr>"
  have w: "files_work ?fe" "0 \<le> fe_clock ?fe 0" by (simp_all add: files_work_def demo_fe_def)
  obtain lf where lf: "write_chunks (\<lambda>f s. lf_append ?fe s f) (lf_new ?fe ''log'' 0 3 1024) [''a'', ''b'', ''c''] = Some lf"
    using lf_writes_all [OF w] by blast
  have "clock_monotone ?fe" "stamps_ok ?fe" by (simp_all add: clock_monotone_def stamps_ok_def)
  from file_names_distinct [OF this(1) w(2) this(2) lf] lf show ?thesis by blast
qed

end
