(* ===== verification/Logger.thy ===== *)
theory Logger
  imports Log_Stream
begin

text \<open>
  \<open>Logger\<close> (\<open>log/logger.hpp\<close>, \<open>src/log/logger.cc\<close>): the prefix of a line with the
  per-thread cache of time and thread id, the three constructors, the destructor that
  completes the line, and the filter of the \<open>LOG_*\<close> macros.  The local time of a second and
  the text of an error number come from the C library and are parameters.
\<close>

section \<open>State\<close>

record log_tls =
  cached_tid :: int
  tid_str :: string
  last_second :: int
  time_str :: string

definition tls_init :: log_tls where
  "tls_init = \<lparr>cached_tid = 0, tid_str = [], last_second = 0, time_str = []\<rparr>"

text \<open>What a call reads from its surroundings.\<close>

record log_env =
  le_tid :: int                     \<comment> \<open>\<open>gettid\<close>\<close>
  le_sec :: int                     \<comment> \<open>\<open>clock_gettime\<close>\<close>
  le_nsec :: int
  le_local :: "int \<Rightarrow> string"       \<comment> \<open>\<open>localtime_r\<close> and \<open>snprintf\<close>\<close>
  le_errno :: int
  le_strerror :: "int \<Rightarrow> string option"

record logger =
  lg_stream :: fixed_buffer
  lg_level :: LogLevel
  lg_line :: int
  lg_file :: string
  lg_abort :: bool

section \<open>Operations\<close>

text \<open>\<open>SourceFile\<close>: the loop runs down from the last character and stops at a slash.\<close>

fun slash_after :: "string \<Rightarrow> nat \<Rightarrow> nat option" where
  "slash_after arr 0 = None"
| "slash_after arr (Suc i) = (if arr ! i = CHR ''/'' then Some (Suc i) else slash_after arr i)"

definition source_file :: "string \<Rightarrow> string" where
  "source_file arr = (case slash_after arr (length arr) of None \<Rightarrow> arr | Some k \<Rightarrow> drop k arr)"

definition pad_left :: "char \<Rightarrow> nat \<Rightarrow> string \<Rightarrow> string" where
  "pad_left c n s = replicate (n - length s) c @ s"

definition cache_tid :: "log_env \<Rightarrow> log_tls \<Rightarrow> log_tls" where
  "cache_tid le t =
     (if cached_tid t = 0
      then t\<lparr>cached_tid := le_tid le, tid_str := pad_left (CHR '' '') 5 (convert (le_tid le))\<rparr> else t)"

definition format_timestamp :: "log_env \<Rightarrow> log_tls \<Rightarrow> string \<times> log_tls" where
  "format_timestamp le t =
     (let usec = c_div (le_nsec le) 1000;
          t1 = (if le_sec le \<noteq> last_second t
                then t\<lparr>last_second := le_sec le, time_str := take 31 (le_local le (le_sec le))\<rparr> else t)
      in (time_str t1 @ ''.'' @ pad_left (CHR ''0'') 6 (convert usec) @ '' '', t1))"

definition format_prefix :: "log_env \<Rightarrow> LogLevel \<Rightarrow> fixed_buffer \<Rightarrow> log_tls \<Rightarrow> fixed_buffer \<times> log_tls" where
  "format_prefix le level b t =
     (case format_timestamp le t of (ts, t1) \<Rightarrow>
      let b1 = fb_append b ts; t2 = cache_tid le t1;
          b2 = fb_append (fb_append b1 (tid_str t2)) '' ''
      in (fb_append b2 (take 6 (log_level_name (level_val level))), t2))"

definition logger_new :: "log_env \<Rightarrow> string \<Rightarrow> string \<Rightarrow> int \<Rightarrow> LogLevel \<Rightarrow> log_tls \<Rightarrow> logger \<times> log_tls" where
  "logger_new le junk file line level t =
     (case format_prefix le level (fb_new junk) t of (b, t') \<Rightarrow>
      (\<lparr>lg_stream = b, lg_level = level, lg_line = line, lg_file = source_file file, lg_abort = False\<rparr>, t'))"

definition logger_new_func :: "log_env \<Rightarrow> string \<Rightarrow> string \<Rightarrow> int \<Rightarrow> LogLevel \<Rightarrow> string option \<Rightarrow> log_tls
    \<Rightarrow> logger \<times> log_tls" where
  "logger_new_func le junk file line level func t =
     (case logger_new le junk file line level t of (l, t') \<Rightarrow>
      (case func of None \<Rightarrow> l
       | Some f \<Rightarrow> l\<lparr>lg_stream := put_item (put_item (lg_stream l) (LCStr (Some f))) (LChar (CHR '' ''))\<rparr>, t'))"

definition logger_new_sys :: "log_env \<Rightarrow> string \<Rightarrow> string \<Rightarrow> int \<Rightarrow> bool \<Rightarrow> log_tls \<Rightarrow> logger \<times> log_tls" where
  "logger_new_sys le junk file line toAbort t =
     (case logger_new le junk file line (if toAbort then FATAL else ERROR) t of (l, t') \<Rightarrow>
      (l\<lparr>lg_abort := toAbort,
         lg_stream := foldl put_item (lg_stream l)
           [LCStr (Some ''(errno=''), LInt (le_errno le), LCStr (Some '': ''),
            LCStr (Some (case le_strerror le (le_errno le) of Some es \<Rightarrow> es | None \<Rightarrow> ''?'')),
            LCStr (Some '') '')]\<rparr>, t'))"

text \<open>
  The statements: \<open>LOG_INFO\<close> to \<open>LOG_FATAL\<close> give a level, \<open>LOG_TRACE\<close> and \<open>LOG_DEBUG\<close> also the name of
  the function, \<open>LOG_SYSERR\<close> and \<open>LOG_SYSFATAL\<close> only whether to abort.
\<close>

datatype log_stmt = LogAt LogLevel | LogFunc LogLevel "string option" | LogErrno bool

definition logger_make :: "log_env \<Rightarrow> string \<Rightarrow> string \<Rightarrow> int \<Rightarrow> log_stmt \<Rightarrow> log_tls \<Rightarrow> logger \<times> log_tls" where
  "logger_make le junk file line st t =
     (case st of LogAt lv \<Rightarrow> logger_new le junk file line lv t
      | LogFunc lv f \<Rightarrow> logger_new_func le junk file line lv f t
      | LogErrno ab \<Rightarrow> logger_new_sys le junk file line ab t)"

text \<open>The destructor: the line handed to the backend and whether the process aborts.\<close>

definition tail_items :: "logger \<Rightarrow> log_item list" where
  "tail_items l = [LCStr (Some '' - ''), LCStr (Some (lg_file l)), LChar (CHR '':''), LInt (lg_line l), LChar (CHR 0x0A)]"

definition logger_destroy :: "logger \<Rightarrow> string \<times> bool" where
  "logger_destroy l = (fb_contents (foldl put_item (lg_stream l) (tail_items l)), lg_level l = FATAL \<or> lg_abort l)"

text \<open>The tests of the macros, with the compile-time minimum \<open>m\<close> and the run-time level \<open>g\<close>.\<close>

fun log_enabled :: "int \<Rightarrow> LogLevel \<Rightarrow> LogLevel \<Rightarrow> bool" where
  "log_enabled m g TRACE \<longleftrightarrow> \<not> m > 0 \<and> g \<le> TRACE"
| "log_enabled m g DEBUG \<longleftrightarrow> \<not> m > 1 \<and> g \<le> DEBUG"
| "log_enabled m g INFO \<longleftrightarrow> \<not> m > 2 \<and> g \<le> INFO"
| "log_enabled m g WARN \<longleftrightarrow> True"
| "log_enabled m g ERROR \<longleftrightarrow> True"
| "log_enabled m g FATAL \<longleftrightarrow> True"

text \<open>The run-time level, a static atomic.\<close>

definition global_level_init :: LogLevel where
  "global_level_init = INFO"

definition set_global_level :: "LogLevel \<Rightarrow> LogLevel \<Rightarrow> LogLevel" where
  "set_global_level lv g = lv"

section \<open>Properties\<close>

lemma default_level: "log_enabled m global_level_init DEBUG = False" "log_enabled 0 global_level_init INFO"
  by (simp_all add: global_level_init_def less_eq_LogLevel_def less_LogLevel_def)

text \<open>With the level at its lowest all statements the compiler kept are logged.\<close>

lemma lowest_level: "m \<le> 0 \<Longrightarrow> log_enabled m (set_global_level TRACE g) l"
  by (cases l) (simp_all add: set_global_level_def less_eq_LogLevel_def less_LogLevel_def)


lemma slash_after_some:
  "slash_after arr n = Some k \<Longrightarrow> n \<le> length arr \<Longrightarrow>
   0 < k \<and> k \<le> n \<and> arr ! (k - 1) = CHR ''/'' \<and> (\<forall>i. k \<le> i \<and> i < n \<longrightarrow> arr ! i \<noteq> CHR ''/'')"
  by (induction arr n rule: slash_after.induct) (auto split: if_splits simp: less_Suc_eq)

lemma slash_after_none: "slash_after arr n = None \<Longrightarrow> i < n \<Longrightarrow> arr ! i \<noteq> CHR ''/''"
  by (induction arr n rule: slash_after.induct) (auto split: if_splits simp: less_Suc_eq)

text \<open>The file shown in a log line is the part of the path after its last slash, the
  whole path when it has none.\<close>

theorem source_file_is_basename:
  "CHR ''/'' \<notin> set (source_file arr) \<and> (\<exists>dir. arr = dir @ source_file arr \<and> (dir = [] \<or> last dir = CHR ''/''))"
proof (cases "slash_after arr (length arr)")
  case None
  then show ?thesis using slash_after_none [OF None] by (auto simp: source_file_def in_set_conv_nth)
next
  case (Some k)
  note k = slash_after_some [OF Some order_refl]
  have "CHR ''/'' \<notin> set (drop k arr)"
    using k by (auto simp: in_set_conv_nth)
  moreover have "last (take k arr) = CHR ''/''" 
    using k by (subst last_conv_nth) (auto simp: min_def)
  ultimately show ?thesis using Some by (auto simp: source_file_def intro!: exI [of _ "take k arr"])
qed

text \<open>The cache of the second: what it holds is the text of the second it was made for.\<close>

definition tls_ok :: "log_env \<Rightarrow> log_tls \<Rightarrow> bool" where
  "tls_ok le t \<longleftrightarrow> (last_second t \<noteq> 0 \<longrightarrow> time_str t = take 31 (le_local le (last_second t)))
     \<and> (cached_tid t \<noteq> 0 \<longrightarrow> cached_tid t = le_tid le \<and> tid_str t = pad_left (CHR '' '') 5 (convert (le_tid le)))"

definition line_prefix :: "log_env \<Rightarrow> LogLevel \<Rightarrow> string" where
  "line_prefix le level = take 31 (le_local le (le_sec le)) @ ''.'' @ pad_left (CHR ''0'') 6 (convert (c_div (le_nsec le) 1000))
     @ '' '' @ pad_left (CHR '' '') 5 (convert (le_tid le)) @ '' '' @ log_level_name (level_val level)"

lemma format_prefix_result:
  assumes "tls_ok le t" and "le_sec le \<noteq> 0" and "fb_ok small_size b"
    and "length (fb_contents b) + length (line_prefix le level) \<le> small_size"
  shows "\<exists>b' t'. format_prefix le level b t = (b', t') \<and> fb_ok small_size b'
    \<and> fb_contents b' = fb_contents b @ line_prefix le level \<and> tls_ok le t'"
proof -
  obtain ts t1 where ts: "format_timestamp le t = (ts, t1)" by fastforce
  have t1: "ts = take 31 (le_local le (le_sec le)) @ ''.'' @ pad_left (CHR ''0'') 6 (convert (c_div (le_nsec le) 1000)) @ '' ''"
      "tls_ok le t1"
    using ts assms(1,2) by (auto simp: format_timestamp_def Let_def tls_ok_def split: if_splits)
  have t2: "tid_str (cache_tid le t1) = pad_left (CHR '' '') 5 (convert (le_tid le))" "tls_ok le (cache_tid le t1)"
    using t1(2) by (auto simp: cache_tid_def tls_ok_def)
  have nm: "take 6 (log_level_name (level_val level)) = log_level_name (level_val level)"
    by (cases level) (simp_all add: log_level_name_def level_names_def)
  let ?ss = "[ts, tid_str (cache_tid le t1), '' '', log_level_name (level_val level)]"
  have pf: "concat ?ss = line_prefix le level" by (simp add: line_prefix_def t1(1) t2(1))
  have "fb_contents (foldl fb_append b ?ss) = fb_contents b @ concat ?ss"
    using fb.puts_view [OF assms(3), of ?ss] assms(4) unfolding pf by simp
  then show ?thesis using fb.puts_inv [OF assms(3), of ?ss] t2(2)
    by (simp add: format_prefix_def ts Let_def nm pf [symmetric])
qed

text \<open>What a statement says of itself: its level, and the text its constructor puts before the operands.\<close>

fun stmt_level :: "log_stmt \<Rightarrow> LogLevel" where
  "stmt_level (LogAt lv) = lv"
| "stmt_level (LogFunc lv f) = lv"
| "stmt_level (LogErrno ab) = (if ab then FATAL else ERROR)"

fun stmt_intro :: "log_env \<Rightarrow> log_stmt \<Rightarrow> string" where
  "stmt_intro le (LogAt lv) = []"
| "stmt_intro le (LogFunc lv f) = (case f of None \<Rightarrow> [] | Some g \<Rightarrow> g @ '' '')"
| "stmt_intro le (LogErrno ab) = ''(errno='' @ convert (le_errno le) @ '': ''
     @ (case le_strerror le (le_errno le) of Some es \<Rightarrow> es | None \<Rightarrow> ''?'') @ '') ''"

text \<open>Every constructor formats the prefix and streams its introduction.\<close>

lemma logger_make_stream:
  assumes "logger_make le junk file line st t = (l, t')"
  obtains b its where "format_prefix le (stmt_level st) (fb_new junk) t = (b, t')"
    "l = \<lparr>lg_stream = foldl put_item b its, lg_level = stmt_level st, lg_line = line, lg_file = source_file file, lg_abort = (st = LogErrno True)\<rparr>"
    "concat (map render its) = stmt_intro le st"
proof -
  obtain b t1 where b: "format_prefix le (stmt_level st) (fb_new junk) t = (b, t1)" by fastforce
  let ?l = "\<lambda>its. \<lparr>lg_stream = foldl put_item b its, lg_level = stmt_level st, lg_line = line, lg_file = source_file file, lg_abort = (st = LogErrno True)\<rparr>"
  have "\<exists>its. l = ?l its \<and> t' = t1 \<and> concat (map render its) = stmt_intro le st"
  proof (cases st)
    case (LogAt lv)
    then show ?thesis using assms b by (intro exI [of _ "[]"]) (auto simp: logger_make_def logger_new_def)
  next
    case (LogFunc lv f)
    then show ?thesis using assms b
      by (intro exI [of _ "case f of None \<Rightarrow> [] | Some g \<Rightarrow> [LCStr (Some g), LChar (CHR '' '')]"])
        (auto simp: logger_make_def logger_new_func_def logger_new_def split: option.splits)
  next
    case (LogErrno ab)
    then show ?thesis using assms b
      by (intro exI [of _ "[LCStr (Some ''(errno=''), LInt (le_errno le), LCStr (Some '': ''),
            LCStr (Some (case le_strerror le (le_errno le) of Some es \<Rightarrow> es | None \<Rightarrow> ''?'')), LCStr (Some '') '')]"])
        (auto simp: logger_make_def logger_new_sys_def logger_new_def)
  qed
  then show thesis using that b by blast
qed

text \<open>C35: A complete log line.  A statement of any kind whose line stays 48 bytes below the buffer
  size hands the backend exactly: time, thread id and level of its own second and thread, what its
  constructor adds - nothing, the name of the function, or number and text of the last error - then
  the streamed values, and the file and line it stands in, ended by a newline.  The process aborts
  afterwards exactly for \<open>LOG_FATAL\<close> and \<open>LOG_SYSFATAL\<close>, and the object of the latter carries the flag
  for it.\<close>

theorem log_line_complete:
  assumes "tls_ok le t" and "le_sec le \<noteq> 0" and "length junk = small_size"
    and "logger_make le junk file line st t = (l, t')"
    and "text = line_prefix le (stmt_level st) @ stmt_intro le st @ concat (map render its)
           @ '' - '' @ source_file file @ '':'' @ convert line @ [CHR 0x0A]"
    and "length text + kMaxNumericSize \<le> small_size"
  shows "logger_destroy (l\<lparr>lg_stream := foldl put_item (lg_stream l) its\<rparr>) = (text, st \<in> {LogAt FATAL, LogErrno True} \<or> (\<exists>f. st = LogFunc FATAL f))
    \<and> lg_abort l = (st = LogErrno True) \<and> tls_ok le t'"
proof -
  have n: "fb_ok small_size (fb_new junk)" "fb_contents (fb_new junk) = []" using fb_new_ok [OF assms(3)] by simp_all
  obtain b intro where i: "format_prefix le (stmt_level st) (fb_new junk) t = (b, t')"
    "l = \<lparr>lg_stream = foldl put_item b intro, lg_level = stmt_level st, lg_line = line, lg_file = source_file file, lg_abort = (st = LogErrno True)\<rparr>"
    "concat (map render intro) = stmt_intro le st" by (rule logger_make_stream [OF assms(4)])
  obtain b: "fb_ok small_size b" "fb_contents b = line_prefix le (stmt_level st)" "tls_ok le t'"
    using format_prefix_result [OF assms(1,2) n(1), of "stmt_level st"] assms(5,6) n(2) i(1) by auto
  let ?its = "intro @ its @ tail_items l"
  have ti: "concat (map render (tail_items l)) = '' - '' @ source_file file @ '':'' @ convert line @ [CHR 0x0A]"
    by (simp add: tail_items_def i(2))
  have tx: "fb_contents b @ concat (map render ?its) = text" by (simp add: assms(5) ti i(3) b(2))
  have "fb_contents (foldl put_item b ?its) = fb_contents b @ concat (map render ?its)"
    by (rule put_items_exact [OF b(1)]) (use assms(6) tx in \<open>simp add: length_append [symmetric] del: length_append\<close>)
  then have "fb_contents (foldl put_item b ?its) = text" unfolding tx .
  moreover have "stmt_level st = FATAL \<or> st = LogErrno True \<longleftrightarrow> st \<in> {LogAt FATAL, LogErrno True} \<or> (\<exists>f. st = LogFunc FATAL f)"
    by (cases st) auto
  ultimately show ?thesis using b(3) by (simp add: logger_destroy_def i(2) tail_items_def)
qed

text \<open>A line that fills the buffer loses its end: once 4000 bytes are in, the destructor
  adds neither the position nor the newline, so the next line continues it.\<close>

theorem full_line_has_no_newline:
  assumes "fb_ok small_size (lg_stream l)" and "length (fb_contents (lg_stream l)) = small_size"
  shows "fst (logger_destroy l) = fb_contents (lg_stream l)"
proof -
  have "put_item b it = b \<or> put_item b it = fb_append b (render it)" for b it by (simp add: put_item_cases)
  moreover have "fb_contents (fb_append b s) = fb_contents b \<and> fb_ok small_size (fb_append b s)"
    if "fb_ok small_size b" "length (fb_contents b) = small_size" for b s
    using that by (simp add: fb_append_ok fb_append_contents)
  ultimately have step: "fb_contents (put_item b it) = fb_contents b \<and> fb_ok small_size (put_item b it)"
    if "fb_ok small_size b" "length (fb_contents b) = small_size" for b it
    using that by metis
  have "fb_contents (foldl put_item b its) = fb_contents b"
    if "fb_ok small_size b" "length (fb_contents b) = small_size" for b its
    using that by (induction its arbitrary: b) (simp_all add: step)
  then show ?thesis using assms by (simp add: logger_destroy_def)
qed

text \<open>The run-time level only filters trace, debug and info statements: whatever it is
  set to, warnings are logged.\<close>

theorem level_does_not_filter_warnings:
  "(g \<le> l \<and> m \<le> 0 \<longrightarrow> log_enabled m g l) \<and> log_enabled m FATAL WARN \<and> WARN < FATAL
   \<and> (l < g \<and> l < WARN \<longrightarrow> \<not> log_enabled m g l)"
  by (cases l; cases g) (simp_all add: less_eq_LogLevel_def less_LogLevel_def)

section \<open>A concrete line\<close>

definition demo_le :: log_env where
  "demo_le = \<lparr>le_tid = 42, le_sec = 1, le_nsec = 5000, le_local = (\<lambda>s. ''20240101 00:00:00''), le_errno = 2,
     le_strerror = (\<lambda>e. None)\<rparr>"

lemma demo_convert: "convert 42 = ''42''" "convert 5 = ''5''" "convert 7 = ''7''"
  by (simp_all add: convert_def convert_loop.simps Let_def c_div_def c_mod_def zero_at_def digits_def)

lemma demo_prefix: "line_prefix demo_le INFO = ''20240101 00:00:00.000005    42 INFO  ''"
  by (simp add: line_prefix_def demo_le_def pad_left_def c_div_def demo_convert log_level_name_def level_names_def
      numeral_eq_Suc)

lemma demo_tls: "tls_ok demo_le tls_init" "le_sec demo_le \<noteq> 0"
  by (simp_all add: tls_ok_def tls_init_def demo_le_def)

lemma demo_source: "source_file ''src/a.cc'' = ''a.cc''"
  by (simp add: source_file_def numeral_eq_Suc)

lemma demo_prefix_fatal: "line_prefix demo_le FATAL = ''20240101 00:00:00.000005    42 FATAL ''"
  by (simp add: line_prefix_def demo_le_def pad_left_def c_div_def demo_convert log_level_name_def level_names_def
      numeral_eq_Suc)

theorem log_line_complete_witness:
  "\<exists>l t'. logger_make demo_le (replicate small_size (CHR 0x00)) ''src/a.cc'' 7 (LogErrno True) tls_init = (l, t')
    \<and> logger_destroy (l\<lparr>lg_stream := foldl put_item (lg_stream l) [LStr ''hi'']\<rparr>)
      = (''20240101 00:00:00.000005    42 FATAL (errno=2: ?) hi - a.cc:7'' @ [CHR 0x0A], True)"
proof -
  obtain l t' where l: "logger_make demo_le (replicate small_size (CHR 0x00)) ''src/a.cc'' 7 (LogErrno True) tls_init = (l, t')"
    by fastforce
  have "convert 2 = ''2''"
    by (simp add: convert_def convert_loop.simps Let_def c_div_def c_mod_def zero_at_def digits_def)
  moreover have "le_errno demo_le = 2" "le_strerror demo_le 2 = None" by (simp_all add: demo_le_def)
  ultimately show ?thesis
    using log_line_complete [OF demo_tls _ l refl, of "[LStr ''hi'']"] l
    by (simp add: demo_source demo_prefix_fatal demo_convert small_size_def kMaxNumericSize_def)
qed

definition demo_full_logger :: logger where
  "demo_full_logger = \<lparr>lg_stream = demo_full, lg_level = INFO, lg_line = 7, lg_file = ''a.cc'', lg_abort = False\<rparr>"

theorem full_line_has_no_newline_witness: "fst (logger_destroy demo_full_logger) = replicate 4000 (CHR ''x'')"
  using full_line_has_no_newline [of demo_full_logger] demo_full_ok by (simp add: demo_full_logger_def small_size_def)

theorem level_does_not_filter_warnings_witness: "log_enabled 0 FATAL WARN"
  using level_does_not_filter_warnings [of FATAL WARN 0] by blast

end
