(* ===== verification/Async_Logger.thy ===== *)
theory Async_Logger
  imports Log_File Logger
begin

text \<open>
  \<open>AsyncLogger\<close> (\<open>log/async_logger.hpp\<close>, \<open>src/log/async_logger.cc\<close>): the double
  buffering between logging threads and the backend thread.  The steps of the backend
  (\<open>backend_step\<close>) interleave with those of the logging threads and of the threads that start
  and stop it (\<open>front_step\<close>).  A section under the mutex is one step; the backend's is cut in two
  where \<open>wait_for\<close> releases the mutex, and its test of \<open>running_\<close> is a step before it, so a stop
  may come between any two of them and its notification may find nobody waiting.
  The output is the contract \<open>log_sink\<close>, met by \<open>LogFile\<close>.
\<close>

section \<open>State\<close>

type_synonym buf_ptr = "fixed_buffer option"      \<comment> \<open>\<open>unique_ptr\<close>, may be null\<close>

datatype backend_loc =
    BNone         \<comment> \<open>no backend thread\<close>
  | BTop          \<comment> \<open>the test of \<open>running_\<close>\<close>
  | BEnter        \<comment> \<open>test passed, before the lock\<close>
  | BWait         \<comment> \<open>in \<open>wait_for\<close>, mutex released\<close>
  | BWriting      \<comment> \<open>buffers swapped out, mutex released\<close>
  | BFinal        \<comment> \<open>loop left\<close>
  | BFlush        \<comment> \<open>last buffers collected, mutex released\<close>
  | BDone

datatype al_error = NullDeref | EmptyBack | NoReturn

record 'f alog =
  al_current :: buf_ptr
  al_next :: buf_ptr
  al_buffers :: "buf_ptr list"
  al_started :: bool
  al_running :: bool
  al_terminating :: bool
  al_new1 :: buf_ptr
  al_new2 :: buf_ptr
  al_to_write :: "buf_ptr list"
  al_loc :: backend_loc
  al_woken :: bool                \<comment> \<open>the latest wait is over: notified, or timed out\<close>
  al_basename :: string
  al_roll_size :: int
  al_flush_interval :: int
  al_out :: 'f                    \<comment> \<open>output of the latest backend\<close>
  al_stderr :: "string list"
  al_pending :: "string list"     \<comment> \<open>lines of threads between the tests and the lock\<close>
  al_accepted :: "string list"    \<comment> \<open>history: lines put into a buffer\<close>
  al_old :: "'f list"             \<comment> \<open>history: outputs of earlier backends\<close>
  al_dropped :: bool              \<comment> \<open>history: the backend discarded buffers\<close>
  al_late :: bool                 \<comment> \<open>history: a line came after the last buffers were collected\<close>

definition al_init_state :: "'f \<Rightarrow> 'f alog" where
  "al_init_state f = \<lparr>al_current = None, al_next = None, al_buffers = [], al_started = False, al_running = False,
     al_terminating = False, al_new1 = None, al_new2 = None, al_to_write = [], al_loc = BNone,
     al_woken = False, al_basename = [], al_roll_size = 64 * 1024 * 1024, al_flush_interval = 3, al_out = f,
     al_stderr = [], al_pending = [], al_accepted = [], al_old = [], al_dropped = False, al_late = False\<rparr>"

section \<open>Operations\<close>

text \<open>
  \<open>init\<close>, \<open>start_locked\<close> and the locals of the new backend thread; \<open>mk\<close> opens its
  output.  \<open>init_logger\<close> of \<open>log.hpp\<close> has default arguments, \<open>None\<close> here.
\<close>

definition start_locked :: "(string \<Rightarrow> int \<Rightarrow> int \<Rightarrow> 'f) \<Rightarrow> string \<Rightarrow> 'f alog \<Rightarrow> 'f alog" where
  "start_locked mk junk s =
     s\<lparr>al_current := Some (fb_new junk), al_next := Some (fb_new junk), al_running := True, al_started := True,
       al_new1 := Some (fb_new junk), al_new2 := Some (fb_new junk), al_to_write := [], al_loc := BTop,
       al_old := al_old s @ [al_out s], al_out := mk (al_basename s) (al_roll_size s) (al_flush_interval s)\<rparr>"

definition al_start :: "(string \<Rightarrow> int \<Rightarrow> int \<Rightarrow> 'f) \<Rightarrow> string \<Rightarrow> string \<Rightarrow> int \<Rightarrow> int \<Rightarrow> 'f alog \<Rightarrow> 'f alog" where
  "al_start mk junk b rs fi s =
     (if al_started s then s
      else start_locked mk junk (s\<lparr>al_basename := b, al_roll_size := rs, al_flush_interval := fi\<rparr>))"

definition init_logger :: "(string \<Rightarrow> int \<Rightarrow> int \<Rightarrow> 'f) \<Rightarrow> string \<Rightarrow> string \<Rightarrow> int option \<Rightarrow> int option \<Rightarrow> 'f alog \<Rightarrow> 'f alog" where
  "init_logger mk junk b rs fi s =
     al_start mk junk b (case rs of None \<Rightarrow> 64 * 1024 * 1024 | Some r \<Rightarrow> r) (case fi of None \<Rightarrow> 3 | Some i \<Rightarrow> i) s"

text \<open>\<open>notify_one\<close> and \<open>notify_all\<close> of the one waiting thread; without it they have no effect
  that lasts, since a wait begins with \<open>al_woken\<close> cleared.\<close>

definition al_notify :: "'f alog \<Rightarrow> 'f alog" where
  "al_notify s = s\<lparr>al_woken := True\<rparr>"

text \<open>\<open>append\<close>: the tests, then the part under the lock.\<close>

definition al_append_check :: "string \<Rightarrow> 'f alog \<Rightarrow> 'f alog" where
  "al_append_check line s =
     (if al_terminating s then s\<lparr>al_stderr := al_stderr s @ [line]\<rparr>
      else if \<not> al_started s then s\<lparr>al_stderr := al_stderr s @ [line]\<rparr>
      else s\<lparr>al_pending := al_pending s @ [line]\<rparr>)"

definition al_append_locked :: "string \<Rightarrow> string \<Rightarrow> 'f alog \<Rightarrow> al_error + 'f alog" where
  "al_append_locked junk line s =
     (case al_current s of
        None \<Rightarrow> Inl NullDeref
      | Some c \<Rightarrow>
          if fb_avail c > length line then Inr (s\<lparr>al_current := Some (fb_append c line)\<rparr>)
          else let n = (case al_next s of Some n \<Rightarrow> n | None \<Rightarrow> fb_new junk)
               in Inr (al_notify (s\<lparr>al_buffers := al_buffers s @ [Some c], al_next := None,
                         al_current := Some (fb_append n line)\<rparr>)))"

text \<open>The critical section of the backend loop: the wait, which is skipped when there are full
  buffers, then the exchange.\<close>

definition backend_wait :: "'f alog \<Rightarrow> 'f alog" where
  "backend_wait s = s\<lparr>al_woken := False, al_loc := BWait\<rparr>"

definition backend_timeout :: "'f alog \<Rightarrow> 'f alog" where
  "backend_timeout s = s\<lparr>al_woken := True\<rparr>"

definition backend_swap :: "'f alog \<Rightarrow> 'f alog" where
  "backend_swap s =
     (let s1 = s\<lparr>al_to_write := al_buffers s @ [al_current s], al_buffers := [],
                 al_current := al_new1 s, al_new1 := None, al_loc := BWriting\<rparr>
      in if al_next s1 = None then s1\<lparr>al_next := al_new2 s1, al_new2 := None\<rparr> else s1)"

definition kMaxBuffers :: nat where
  "kMaxBuffers = 25"

definition drop_warning :: "nat \<Rightarrow> string" where
  "drop_warning n = ''Dropped '' @ convert (int n - 2) @ '' log buffers (over backpressure limit)'' @ [CHR 0x0A]"

text \<open>Writing a list of buffers; a null pointer in it is dereferenced.\<close>

fun write_buffers :: "('f \<Rightarrow> string \<Rightarrow> 'f option) \<Rightarrow> buf_ptr list \<Rightarrow> 'f \<Rightarrow> al_error + 'f" where
  "write_buffers app [] f = Inr f"
| "write_buffers app (None # bs) f = Inl NullDeref"
| "write_buffers app (Some b # bs) f =
     (case app f (fb_contents b) of None \<Rightarrow> Inl NoReturn | Some f' \<Rightarrow> write_buffers app bs f')"

text \<open>Taking the last buffer back for reuse.\<close>

definition take_back :: "buf_ptr list \<Rightarrow> al_error + (fixed_buffer \<times> buf_ptr list)" where
  "take_back bs =
     (if bs = [] then Inl EmptyBack
      else case last bs of None \<Rightarrow> Inl NullDeref | Some b \<Rightarrow> Inr (fb_reset b, butlast bs))"

definition recycle :: "buf_ptr list \<Rightarrow> buf_ptr \<Rightarrow> buf_ptr \<Rightarrow> al_error + (buf_ptr \<times> buf_ptr)" where
  "recycle bs n1 n2 =
     (let bs0 = take 2 bs in
      rbind (if n1 = None then rbind (take_back bs0) (\<lambda>(b, r). Inr (Some b, r)) else Inr (n1, bs0)) (\<lambda>(n1', bs1).
      if n2 = None \<and> bs1 \<noteq> []
      then rbind (take_back bs1) (\<lambda>(b, r). Inr (n1', Some b))
      else Inr (n1', n2)))"

definition backend_write :: "('f \<Rightarrow> string \<Rightarrow> 'f option) \<Rightarrow> ('f \<Rightarrow> 'f) \<Rightarrow> 'f alog \<Rightarrow> al_error + 'f alog" where
  "backend_write app flush s =
     (let over = (length (al_to_write s) > kMaxBuffers);
          bs = (if over then take 2 (al_to_write s) else al_to_write s) in
      rbind (if over then (case app (al_out s) (drop_warning (length (al_to_write s))) of None \<Rightarrow> Inl NoReturn | Some f \<Rightarrow> Inr f)
             else Inr (al_out s)) (\<lambda>f0.
      rbind (write_buffers app bs f0) (\<lambda>f1.
      rbind (recycle bs (al_new1 s) (al_new2 s)) (\<lambda>(n1, n2).
      Inr (s\<lparr>al_out := flush f1, al_new1 := n1, al_new2 := n2, al_to_write := [],
             al_dropped := (al_dropped s \<or> over), al_loc := BTop\<rparr>)))))"

definition backend_final :: "'f alog \<Rightarrow> 'f alog" where
  "backend_final s =
     (case al_current s of
        Some c \<Rightarrow> if fb_length c > 0
                  then s\<lparr>al_buffers := al_buffers s @ [Some c], al_current := None, al_loc := BFlush\<rparr>
                  else s\<lparr>al_loc := BFlush\<rparr>
      | None \<Rightarrow> s\<lparr>al_loc := BFlush\<rparr>)"

definition backend_flush :: "('f \<Rightarrow> string \<Rightarrow> 'f option) \<Rightarrow> ('f \<Rightarrow> 'f) \<Rightarrow> 'f alog \<Rightarrow> al_error + 'f alog" where
  "backend_flush app flush s =
     rbind (write_buffers app (filter (\<lambda>b. b \<noteq> None) (al_buffers s)) (al_out s)) (\<lambda>f.
     Inr (s\<lparr>al_out := flush f, al_buffers := [], al_loc := BDone\<rparr>))"

text \<open>
  \<open>shutdown\<close>, \<open>flush_and_stop\<close> and the destructor first clear \<open>running_\<close>, then notify
  (\<open>al_notify\<close>), without the mutex, and then wait for the thread.
\<close>

definition al_stop :: "'f alog \<Rightarrow> 'f alog" where
  "al_stop s = s\<lparr>al_running := False\<rparr>"

definition al_joined :: "'f alog \<Rightarrow> 'f alog" where
  "al_joined s = s\<lparr>al_started := False, al_loc := BNone\<rparr>"

datatype stop_call = Shutdown | FlushAndStop | Destructor

text \<open>
  The part of a call up to the notification, and whether it gets there; the part after the join (which
  is skipped when the thread is not joinable).
\<close>

definition stop_begin :: "stop_call \<Rightarrow> 'f alog \<Rightarrow> bool \<times> 'f alog" where
  "stop_begin c s =
     (case c of
        Shutdown \<Rightarrow> (al_running s, al_stop s)
      | FlushAndStop \<Rightarrow> if al_started s then (True, al_stop s) else (False, s)
      | Destructor \<Rightarrow> let s1 = s\<lparr>al_terminating := True\<rparr>
                      in if al_started s1 then (True, al_stop s1) else (False, s1))"

definition stop_end :: "stop_call \<Rightarrow> 'f alog \<Rightarrow> 'f alog" where
  "stop_end c s = (if c = Destructor then s\<lparr>al_loc := BNone\<rparr> else al_joined s)"

definition shutdown_logger :: "'f alog \<Rightarrow> bool \<times> 'f alog" where
  "shutdown_logger s = stop_begin Shutdown s"

section \<open>Interleaving\<close>

definition after_collect :: "backend_loc \<Rightarrow> bool" where
  "after_collect l \<longleftrightarrow> l = BFlush \<or> l = BDone \<or> l = BNone"

inductive backend_step :: "('f \<Rightarrow> string \<Rightarrow> 'f option) \<Rightarrow> ('f \<Rightarrow> 'f) \<Rightarrow> 'f alog \<Rightarrow> 'f alog \<Rightarrow> bool"
  for app flush where
  bk_test: "al_loc s = BTop \<Longrightarrow> al_running s \<Longrightarrow> backend_step app flush s (s\<lparr>al_loc := BEnter\<rparr>)"
| bk_wait: "al_loc s = BEnter \<Longrightarrow> al_buffers s = [] \<Longrightarrow> backend_step app flush s (backend_wait s)"
| bk_timeout: "al_loc s = BWait \<Longrightarrow> \<not> al_woken s \<Longrightarrow> backend_step app flush s (backend_timeout s)"
| bk_swap: "al_loc s = BEnter \<and> al_buffers s \<noteq> [] \<or> al_loc s = BWait \<and> al_woken s \<Longrightarrow>
    backend_step app flush s (backend_swap s)"
| bk_write: "al_loc s = BWriting \<Longrightarrow> backend_write app flush s = Inr s' \<Longrightarrow> backend_step app flush s s'"
| bk_leave: "al_loc s = BTop \<Longrightarrow> \<not> al_running s \<Longrightarrow> backend_step app flush s (s\<lparr>al_loc := BFinal\<rparr>)"
| bk_final: "al_loc s = BFinal \<Longrightarrow> backend_step app flush s (backend_final s)"
| bk_flush: "al_loc s = BFlush \<Longrightarrow> backend_flush app flush s = Inr s' \<Longrightarrow> backend_step app flush s s'"

inductive front_step :: "(string \<Rightarrow> int \<Rightarrow> int \<Rightarrow> 'f) \<Rightarrow> string \<Rightarrow> 'f alog \<Rightarrow> 'f alog \<Rightarrow> bool"
  for mk junk where
  al_init: "al_loc s = BNone \<Longrightarrow> front_step mk junk s (al_start mk junk b rs fi s)"
| al_check: "length line \<le> small_size \<Longrightarrow> front_step mk junk s (al_append_check line s)"
| al_locked: "line \<in> set (al_pending s) \<Longrightarrow> al_append_locked junk line s = Inr s' \<Longrightarrow>
    front_step mk junk s (s'\<lparr>al_pending := remove1 line (al_pending s), al_accepted := al_accepted s @ [line],
      al_late := (al_late s \<or> after_collect (al_loc s))\<rparr>)"
| al_stopping: "front_step mk junk s (al_stop s)"
| al_notifying: "front_step mk junk s (al_notify s)"
| al_terminate: "front_step mk junk s (s\<lparr>al_terminating := True\<rparr>)"
| al_join: "al_loc s = BDone \<or> al_loc s = BNone \<Longrightarrow> front_step mk junk s (al_joined s)"
| al_destroyed: "al_loc s = BDone \<or> al_loc s = BNone \<Longrightarrow> front_step mk junk s (s\<lparr>al_loc := BNone\<rparr>)"

definition al_step :: "('f \<Rightarrow> string \<Rightarrow> 'f option) \<Rightarrow> ('f \<Rightarrow> 'f) \<Rightarrow> (string \<Rightarrow> int \<Rightarrow> int \<Rightarrow> 'f) \<Rightarrow> string
    \<Rightarrow> 'f alog \<Rightarrow> 'f alog \<Rightarrow> bool" where
  "al_step app flush mk junk s s' \<longleftrightarrow> backend_step app flush s s' \<or> front_step mk junk s s'"

lemma al_backend: "backend_step app flush s s' \<Longrightarrow> al_step app flush mk junk s s'"
  by (simp add: al_step_def)

lemma al_front: "front_step mk junk s s' \<Longrightarrow> al_step app flush mk junk s s'"
  by (simp add: al_step_def)

lemma al_step_cases [consumes 1, case_names backend front]:
  assumes "al_step app flush mk junk s s'"
  obtains "backend_step app flush s s'" | "front_step mk junk s s'"
  using assms by (auto simp: al_step_def)

definition al_reach :: "('f \<Rightarrow> string \<Rightarrow> 'f option) \<Rightarrow> ('f \<Rightarrow> 'f) \<Rightarrow> (string \<Rightarrow> int \<Rightarrow> int \<Rightarrow> 'f) \<Rightarrow> string \<Rightarrow> 'f \<Rightarrow> 'f alog \<Rightarrow> bool" where
  "al_reach app flush mk junk f s \<longleftrightarrow> (al_step app flush mk junk)\<^sup>*\<^sup>* (al_init_state f) s"

text \<open>The calls that stop the logger consist of these steps.\<close>

lemma stop_begin_steps: "(al_step app flush mk junk)\<^sup>*\<^sup>* s (snd (stop_begin c s))"
proof (cases c)
  case Destructor
  have "al_step app flush mk junk s (s\<lparr>al_terminating := True\<rparr>)" by (rule al_front [OF al_terminate])
  also have "(al_step app flush mk junk)\<^sup>*\<^sup>* (s\<lparr>al_terminating := True\<rparr>) (snd (stop_begin c s))"
    using al_front [OF al_stopping, of app flush mk junk "s\<lparr>al_terminating := True\<rparr>"] Destructor by (auto simp: stop_begin_def Let_def)
  finally show ?thesis .
qed (use al_front [OF al_stopping, of app flush mk junk s] in \<open>auto simp: stop_begin_def\<close>)

lemma stop_end_front: "al_loc s = BDone \<or> al_loc s = BNone \<Longrightarrow> front_step mk junk s (stop_end c s)"
  using al_join [of s mk junk] al_destroyed [of s mk junk] by (simp add: stop_end_def)

lemmas stop_end_step = al_front [OF stop_end_front]

text \<open>
  \<open>shutdown\<close> may be called again, but two stops of different kinds, or two of
  \<open>flush_and_stop\<close>, both go on to join the one thread.
\<close>

lemma shutdown_again: "\<not> fst (stop_begin Shutdown (snd (stop_begin c s)))" if "al_started s \<or> \<not> al_running s"
  using that by (cases c) (auto simp: stop_begin_def al_stop_def Let_def)

lemma two_stops_join_twice:
  assumes "al_started s" and "c \<noteq> Shutdown" and "al_running s"
  shows "fst (stop_begin d s) \<and> fst (stop_begin c (snd (stop_begin d s)))"
  using assms by (cases c; cases d) (auto simp: stop_begin_def al_stop_def Let_def)


section \<open>Invariant\<close>

definition ptr_ok :: "buf_ptr \<Rightarrow> bool" where
  "ptr_ok p \<longleftrightarrow> (\<exists>b. p = Some b \<and> fb_ok large_size b)"

definition empty_ok :: "buf_ptr \<Rightarrow> bool" where
  "empty_ok p \<longleftrightarrow> (\<exists>b. p = Some b \<and> fb_ok large_size b \<and> fb_contents b = [])"

definition bufs_text :: "buf_ptr list \<Rightarrow> string" where
  "bufs_text ps = concat (map (\<lambda>p. case p of None \<Rightarrow> [] | Some b \<Rightarrow> fb_contents b) ps)"

lemma bufs_text_simps [simp]:
  "bufs_text [] = []" "bufs_text (None # ps) = bufs_text ps" "bufs_text (Some b # ps) = fb_contents b @ bufs_text ps"
  "bufs_text (ps @ qs) = bufs_text ps @ bufs_text qs"
  by (simp_all add: bufs_text_def)

lemma ptr_ok_simps [simp]: "\<not> ptr_ok None" "ptr_ok (Some b) \<longleftrightarrow> fb_ok large_size b"
  by (simp_all add: ptr_ok_def)

lemma empty_ok_simps [simp]: "\<not> empty_ok None" "empty_ok (Some b) \<longleftrightarrow> fb_ok large_size b \<and> fb_contents b = []"
  by (simp_all add: empty_ok_def)

lemma empty_ok_ptr: "empty_ok p \<Longrightarrow> ptr_ok p \<and> bufs_text [p] = []"
  by (cases p) auto

definition live_loc :: "backend_loc \<Rightarrow> bool" where
  "live_loc l \<longleftrightarrow> \<not> after_collect l"

lemma live_loc_simps [simp]:
  "live_loc BTop" "live_loc BEnter" "live_loc BWait" "live_loc BWriting" "live_loc BFinal" "\<not> live_loc BFlush" "\<not> live_loc BDone" "\<not> live_loc BNone"
  by (simp_all add: live_loc_def after_collect_def)

text \<open>The buffers the logging threads see.\<close>

definition front_inv :: "'f alog \<Rightarrow> bool" where
  "front_inv s \<longleftrightarrow> (al_current s = None \<or> ptr_ok (al_current s)) \<and> (al_next s = None \<or> empty_ok (al_next s))
     \<and> (\<forall>p \<in> set (al_buffers s). ptr_ok p) \<and> (\<forall>l \<in> set (al_pending s). length l \<le> small_size)
     \<and> (live_loc (al_loc s) \<longrightarrow> al_current s \<noteq> None \<and> (al_next s = None \<longrightarrow> al_buffers s \<noteq> []))"

text \<open>The buffers of the backend, by location.\<close>

definition back_inv :: "'f alog \<Rightarrow> bool" where
  "back_inv s \<longleftrightarrow>
     (al_loc s = BTop \<or> al_loc s = BEnter \<or> al_loc s = BWait \<longrightarrow> empty_ok (al_new1 s) \<and> empty_ok (al_new2 s))
   \<and> (al_loc s = BWriting \<longrightarrow> al_new1 s = None \<and> al_to_write s \<noteq> [] \<and> (\<forall>p \<in> set (al_to_write s). ptr_ok p)
        \<and> (al_new2 s = None \<and> 2 \<le> length (al_to_write s) \<or> empty_ok (al_new2 s)))
   \<and> (al_loc s \<noteq> BWriting \<longrightarrow> al_to_write s = [])"

lemmas al_inv_defs = front_inv_def back_inv_def

lemma append_locked_inv:
  assumes "front_inv s" and "length junk = large_size" and "length line \<le> small_size"
    and "al_append_locked junk line s = Inr s'"
  shows "front_inv s' \<and> bufs_text (al_buffers s' @ [al_current s']) = bufs_text (al_buffers s @ [al_current s]) @ line"
proof -
  obtain c where c: "al_current s = Some c" "fb_ok large_size c"
    using assms(1,4) by (auto simp: al_append_locked_def front_inv_def split: option.splits)
  show ?thesis
  proof (cases "fb_avail c > length line")
    case True
    then have "fb_contents (fb_append c line) = fb_contents c @ line"
      by (intro fb.put_fits [OF c(2)]) (use c(2) fb_contents_length [OF c(2)] in \<open>simp add: fb_ok_def fb_avail_def\<close>)
    then show ?thesis using True assms(1,4) c by (auto simp: al_append_locked_def front_inv_def fb_append_ok)
  next
    case False
    let ?n = "case al_next s of Some n \<Rightarrow> n | None \<Rightarrow> fb_new junk"
    have n: "fb_ok large_size ?n" "fb_contents ?n = []"
      using assms(1) fb_new_ok [OF assms(2)] by (auto simp: front_inv_def split: option.splits)
    have "fb_contents (fb_append ?n line) = line"
      using fb.put_fits [OF n(1), of line] n(2) assms(3) by (simp add: small_size_def large_size_def)
    moreover have "s' = al_notify (s\<lparr>al_buffers := al_buffers s @ [Some c], al_next := None, al_current := Some (fb_append ?n line)\<rparr>)"
      using False assms(4) c(1) by (simp add: al_append_locked_def)
    ultimately show ?thesis using assms(1) c n(1) by (auto simp: al_notify_def front_inv_def fb_append_ok)
  qed
qed

lemma swap_inv:
  assumes "front_inv s" and "back_inv s" and "al_loc s = BEnter \<or> al_loc s = BWait"
  shows "front_inv (backend_swap s) \<and> back_inv (backend_swap s)
    \<and> bufs_text (al_to_write (backend_swap s)) = bufs_text (al_buffers s @ [al_current s])
    \<and> bufs_text (al_buffers (backend_swap s) @ [al_current (backend_swap s)]) = []"
proof -
  have n1: "empty_ok (al_new1 s)" "empty_ok (al_new2 s)" using assms(2,3) by (simp_all add: back_inv_def)
  obtain c where c: "al_current s = Some c" "fb_ok large_size c"
    using assms(1,3) by (auto simp: front_inv_def)
  have p: "\<forall>p \<in> set (al_buffers s @ [al_current s]). ptr_ok p" using assms(1) c by (auto simp: front_inv_def)
  show ?thesis
    using assms(1,3) n1 p empty_ok_ptr [OF n1(1)]
    by (auto simp: backend_swap_def Let_def front_inv_def back_inv_def empty_ok_def Suc_le_eq)
qed

lemma take_back_ok:
  assumes "bs \<noteq> []" and "\<forall>p \<in> set bs. ptr_ok p"
  shows "\<exists>b. take_back bs = Inr (b, butlast bs) \<and> empty_ok (Some b)"
proof -
  have "ptr_ok (last bs)" using assms by simp
  then obtain b where "last bs = Some b" "fb_ok large_size b" by (auto simp: ptr_ok_def)
  then show ?thesis using assms(1) fb_reset_ok by (auto simp: take_back_def)
qed

lemma recycle_ok:
  assumes "bs \<noteq> []" and p: "\<forall>p \<in> set bs. ptr_ok p" and n2: "n2 = None \<and> 2 \<le> length bs \<or> empty_ok n2"
  shows "\<exists>m1 m2. recycle bs None n2 = Inr (m1, m2) \<and> empty_ok m1 \<and> empty_ok m2"
proof -
  have bs: "take 2 bs \<noteq> []" "\<forall>p \<in> set (take 2 bs). ptr_ok p" using assms(1) p by (auto dest: in_set_takeD)
  obtain b1 where b1: "take_back (take 2 bs) = Inr (b1, butlast (take 2 bs))" "empty_ok (Some b1)"
    using take_back_ok [OF bs] by blast
  have p1: "\<forall>p \<in> set (butlast (take 2 bs)). ptr_ok p" using bs(2) by (auto dest: in_set_butlastD)
  show ?thesis
  proof (cases "n2 = None")
    case True
    then have "length (butlast (take 2 bs)) = 1" using n2 by auto
    then have "butlast (take 2 bs) \<noteq> []" by (metis length_0_conv zero_neq_one)
    from take_back_ok [OF this p1] True b1 this show ?thesis by (auto simp: recycle_def Let_def)
  next
    case False
    then show ?thesis using n2 b1 by (auto simp: recycle_def Let_def)
  qed
qed

text \<open>
  What a round of the backend loop takes and what it writes of it: above the limit, a warning
  and the first two buffers.  The last collection is written whole.
\<close>

datatype batch = Round "buf_ptr list" | Last "buf_ptr list"

fun batch_taken :: "batch \<Rightarrow> string" where
  "batch_taken (Round bs) = bufs_text bs"
| "batch_taken (Last bs) = bufs_text bs"

fun batch_over :: "batch \<Rightarrow> bool" where
  "batch_over (Round bs) \<longleftrightarrow> length bs > kMaxBuffers"
| "batch_over (Last bs) \<longleftrightarrow> False"

fun batch_written :: "batch \<Rightarrow> string" where
  "batch_written (Round bs) =
     (if batch_over (Round bs) then drop_warning (length bs) @ bufs_text (take 2 bs) else bufs_text bs)"
| "batch_written (Last bs) = bufs_text bs"

lemma batches_not_over: "\<forall>b \<in> set bt. \<not> batch_over b \<Longrightarrow> map batch_written bt = map batch_taken bt"
proof (induction bt)
  case (Cons b bt)
  then show ?case by (cases b) simp_all
qed simp

context log_sink
begin

lemma write_buffers_law:
  "inv f \<Longrightarrow> \<forall>p \<in> set bs. ptr_ok p \<Longrightarrow>
   \<exists>f'. write_buffers app bs f = Inr f' \<and> inv f' \<and> wtext f' = wtext f @ bufs_text bs"
proof (induction bs arbitrary: f)
  case Nil
  then show ?case by simp
next
  case (Cons p bs)
  obtain b where b: "p = Some b" using Cons.prems(2) by (auto simp: ptr_ok_def)
  obtain f1 where f1: "app f (fb_contents b) = Some f1" "inv f1" "wtext f1 = wtext f @ fb_contents b"
    using append_law [OF Cons.prems(1)] by blast
  show ?case using Cons.IH [OF f1(2)] Cons.prems(2) f1 b by auto
qed

lemma backend_write_law:
  assumes "inv (al_out s)" and "back_inv s" and "al_loc s = BWriting"
  shows "\<exists>s'. backend_write app flush s = Inr s' \<and> back_inv s' \<and> inv (al_out s') \<and> al_loc s' = BTop
    \<and> al_current s' = al_current s \<and> al_next s' = al_next s \<and> al_buffers s' = al_buffers s
    \<and> al_pending s' = al_pending s \<and> al_accepted s' = al_accepted s \<and> al_old s' = al_old s \<and> al_late s' = al_late s
    \<and> al_dropped s' = (al_dropped s \<or> batch_over (Round (al_to_write s)))
    \<and> wtext (al_out s') = wtext (al_out s) @ batch_written (Round (al_to_write s))"
proof -
  let ?over = "length (al_to_write s) > kMaxBuffers"
  let ?bs = "if ?over then take 2 (al_to_write s) else al_to_write s"
  have B: "al_new1 s = None" "al_to_write s \<noteq> []" "\<forall>p \<in> set (al_to_write s). ptr_ok p"
      "al_new2 s = None \<and> 2 \<le> length (al_to_write s) \<or> empty_ok (al_new2 s)"
    using assms(2,3) by (simp_all add: back_inv_def)
  have bs: "?bs \<noteq> []" "\<forall>p \<in> set ?bs. ptr_ok p" "al_new2 s = None \<and> 2 \<le> length ?bs \<or> empty_ok (al_new2 s)"
    using B(2-4) by (auto dest: in_set_takeD simp: kMaxBuffers_def)
  obtain m1 m2 where r: "recycle ?bs None (al_new2 s) = Inr (m1, m2)" "empty_ok m1" "empty_ok m2"
    using recycle_ok [OF bs] by blast
  let ?warn = "if ?over then drop_warning (length (al_to_write s)) else []"
  obtain fw where "app (al_out s) (drop_warning (length (al_to_write s))) = Some fw" "inv fw"
      "wtext fw = wtext (al_out s) @ drop_warning (length (al_to_write s))"
    using append_law [OF assms(1)] by blast
  then obtain f0 where f0: "(if ?over then (case app (al_out s) (drop_warning (length (al_to_write s))) of None \<Rightarrow> Inl NoReturn | Some f \<Rightarrow> Inr f)
             else Inr (al_out s)) = Inr f0" "inv f0" "wtext f0 = wtext (al_out s) @ ?warn"
    using assms(1) by (cases ?over) auto
  obtain f1 where f1: "write_buffers app ?bs f0 = Inr f1" "inv f1" "wtext f1 = wtext f0 @ bufs_text ?bs"
    using write_buffers_law [OF f0(2) bs(2)] by blast
  let ?s = "s\<lparr>al_out := flush f1, al_new1 := m1, al_new2 := m2, al_to_write := [],
             al_dropped := (al_dropped s \<or> ?over), al_loc := BTop\<rparr>"
  have "backend_write app flush s = Inr ?s"
    unfolding backend_write_def Let_def f0(1) rbind_Inr f1(1) B(1) r(1) prod.case ..
  moreover have "back_inv ?s" using r by (simp add: back_inv_def)
  moreover have "inv (flush f1)" "wtext (flush f1) = wtext f0 @ bufs_text ?bs" using flush_law [OF f1(2)] f1(3) by auto
  ultimately show ?thesis using f0(3) by simp
qed

lemma backend_flush_law:
  assumes "inv (al_out s)" and "front_inv s"
  shows "\<exists>f. backend_flush app flush s = Inr (s\<lparr>al_out := f, al_buffers := [], al_loc := BDone\<rparr>)
    \<and> inv f \<and> wtext f = wtext (al_out s) @ bufs_text (al_buffers s)"
proof -
  have p: "\<forall>p \<in> set (al_buffers s). ptr_ok p" using assms(2) by (simp add: front_inv_def)
  then have fl: "filter (\<lambda>b. b \<noteq> None) (al_buffers s) = al_buffers s" by (auto simp: filter_id_conv ptr_ok_def)
  obtain f where "write_buffers app (al_buffers s) (al_out s) = Inr f" "inv f"
      "wtext f = wtext (al_out s) @ bufs_text (al_buffers s)"
    using write_buffers_law [OF assms(1) p] by blast
  then show ?thesis using flush_law unfolding backend_flush_def fl by auto
qed

text \<open>
  The whole invariant: buffers, and where every accepted line is.  \<open>held s bt\<close>: the backend has
  taken the batches \<open>bt\<close>; what they contain and the buffers still hold are the accepted lines.
\<close>

definition held :: "'f alog \<Rightarrow> batch list \<Rightarrow> bool" where
  "held s bt \<longleftrightarrow> concat (map wtext (al_old s)) @ wtext (al_out s) = concat (map batch_written bt)
     \<and> concat (map batch_taken bt) @ bufs_text (al_to_write s) @ bufs_text (al_buffers s @ [al_current s]) = concat (al_accepted s)
     \<and> (al_dropped s \<longleftrightarrow> (\<exists>b \<in> set bt. batch_over b))"

definition accounted :: "'f alog \<Rightarrow> bool" where
  "accounted s \<longleftrightarrow> (\<exists>bt. held s bt)"

definition al_inv :: "'f alog \<Rightarrow> bool" where
  "al_inv s \<longleftrightarrow> inv (al_out s) \<and> front_inv s \<and> back_inv s
     \<and> (\<not> al_late s \<longrightarrow> accounted s
        \<and> (after_collect (al_loc s) \<longrightarrow> bufs_text [al_current s] = [])
        \<and> (al_loc s = BDone \<or> al_loc s = BNone \<longrightarrow> al_buffers s = []))"

lemma al_inv_init: "inv f \<Longrightarrow> wtext f = [] \<Longrightarrow> al_inv (al_init_state f)"
  by (auto simp: al_inv_def al_init_state_def al_inv_defs accounted_def held_def intro: exI [of _ "[]"])

text \<open>Steps that move no text.\<close>

lemma held_same:
  assumes "held s bt" and "al_old u = al_old s" and "al_out u = al_out s" and "al_to_write u = al_to_write s"
    and "bufs_text (al_buffers u @ [al_current u]) = bufs_text (al_buffers s @ [al_current s])"
    and "al_accepted u = al_accepted s" and "al_dropped u = al_dropped s"
  shows "held u bt"
  using assms by (simp add: held_def)

lemma al_inv_same:
  assumes "al_inv s" and "front_inv s \<Longrightarrow> front_inv u" and "back_inv s \<Longrightarrow> back_inv u"
    and "al_old u = al_old s" and "al_out u = al_out s" and "al_to_write u = al_to_write s"
    and "al_buffers u = al_buffers s" and "al_current u = al_current s"
    and "al_accepted u = al_accepted s" and "al_dropped u = al_dropped s" and "al_late u = al_late s"
    and "after_collect (al_loc u) \<Longrightarrow> after_collect (al_loc s)"
    and "al_loc u = BDone \<or> al_loc u = BNone \<Longrightarrow> al_loc s = BDone \<or> al_loc s = BNone"
  shows "al_inv u"
proof -
  have "accounted s \<Longrightarrow> accounted u" using held_same assms(4-10) unfolding accounted_def by metis
  then show ?thesis using assms unfolding al_inv_def by auto
qed

lemma al_start_inv:
  assumes "al_inv s" and "al_loc s = BNone" and "length junk = large_size"
    and "inv (mk b rs fi) \<and> wtext (mk b rs fi) = []"
  shows "al_inv (al_start mk junk b rs fi s)"
proof (cases "al_started s")
  case True
  then show ?thesis using assms(1) by (simp add: al_start_def)
next
  case False
  let ?u = "al_start mk junk b rs fi s"
  have n: "fb_ok large_size (fb_new junk)" "fb_contents (fb_new junk) = []" using fb_new_ok [OF assms(3)] by simp_all
  have B: "back_inv s" "front_inv s" using assms(1) by (simp_all add: al_inv_def)
  have u: "al_old ?u = al_old s @ [al_out s]" "al_out ?u = mk b rs fi" "al_to_write ?u = []" "al_buffers ?u = al_buffers s"
      "al_current ?u = Some (fb_new junk)" "al_next ?u = Some (fb_new junk)" "al_new1 ?u = Some (fb_new junk)"
      "al_new2 ?u = Some (fb_new junk)" "al_accepted ?u = al_accepted s" "al_dropped ?u = al_dropped s"
      "al_late ?u = al_late s" "al_loc ?u = BTop" "al_pending ?u = al_pending s"
    using False by (simp_all add: al_start_def start_locked_def)
  have "accounted ?u" if "accounted s" "al_buffers s = []" "bufs_text [al_current s] = []"
    using that B(1) n assms(2,4) by (simp add: accounted_def held_def u back_inv_def)
  then show ?thesis using assms(1,2,4) n B(2) unfolding al_inv_def al_inv_defs u
    by (auto simp: after_collect_def)
qed

lemma al_locked_inv:
  assumes inv: "al_inv s" and line: "line \<in> set (al_pending s)" and len: "length junk = large_size"
    and l: "al_append_locked junk line s = Inr s'"
  shows "al_inv (s'\<lparr>al_pending := remove1 line (al_pending s), al_accepted := al_accepted s @ [line],
      al_late := (al_late s \<or> after_collect (al_loc s))\<rparr>)" (is "al_inv ?s")
proof -
  have F: "front_inv s" using inv by (simp add: al_inv_def)
  then have "length line \<le> small_size" using line by (simp add: front_inv_def)
  note A = append_locked_inv [OF F len this l]
  have same: "al_old s' = al_old s" "al_out s' = al_out s" "al_loc s' = al_loc s" "al_new1 s' = al_new1 s" "al_new2 s' = al_new2 s"
      "al_to_write s' = al_to_write s" "al_dropped s' = al_dropped s" "al_pending s' = al_pending s"
    using l by (auto simp: al_append_locked_def al_notify_def split: option.splits if_splits)
  have "front_inv ?s" using A by (auto simp: front_inv_def same dest: notin_set_remove1)
  moreover have "back_inv ?s" using inv by (simp add: al_inv_def back_inv_def same)
  moreover have "held ?s bt" if "held s bt" for bt
    using that conjunct2 [OF A] unfolding held_def by (simp add: same)
  then have "accounted s \<Longrightarrow> accounted ?s" unfolding accounted_def by blast
  ultimately show ?thesis using inv unfolding al_inv_def by (auto simp: same after_collect_def)
qed

lemma al_swap_inv:
  assumes "al_inv s" and "al_loc s = BEnter \<or> al_loc s = BWait"
  shows "al_inv (backend_swap s)"
proof -
  have same: "al_old (backend_swap s) = al_old s" "al_out (backend_swap s) = al_out s" "al_loc (backend_swap s) = BWriting"
      "al_dropped (backend_swap s) = al_dropped s" "al_late (backend_swap s) = al_late s"
      "al_accepted (backend_swap s) = al_accepted s"
    by (simp_all add: backend_swap_def Let_def)
  have I: "front_inv s" "back_inv s" "al_to_write s = []" using assms by (auto simp: al_inv_def back_inv_def)
  note W = swap_inv [OF I(1,2) assms(2)]
  have "held (backend_swap s) bt" if "held s bt" for bt
    using that W unfolding held_def same I(3) by simp
  then have "accounted s \<Longrightarrow> accounted (backend_swap s)" unfolding accounted_def by blast
  with W assms show ?thesis unfolding al_inv_def same by (auto simp: after_collect_def)
qed

lemma al_final_inv:
  assumes "al_inv s" and "al_loc s = BFinal"
  shows "al_inv (backend_final s)"
proof -
  obtain c where c: "al_current s = Some c" "fb_ok large_size c" "al_to_write s = []"
    using assms by (auto simp: al_inv_def al_inv_defs)
  have z: "fb_length c = 0 \<Longrightarrow> fb_contents c = []" using fb_contents_length [OF c(2)] by (simp add: fb_length_def)
  have same: "al_old (backend_final s) = al_old s" "al_out (backend_final s) = al_out s" "al_loc (backend_final s) = BFlush"
      "al_to_write (backend_final s) = al_to_write s" "al_dropped (backend_final s) = al_dropped s"
      "al_late (backend_final s) = al_late s" "al_accepted (backend_final s) = al_accepted s"
      "bufs_text (al_buffers (backend_final s) @ [al_current (backend_final s)]) = bufs_text (al_buffers s @ [al_current s])"
      "bufs_text [al_current (backend_final s)] = []"
    using c z by (simp_all add: backend_final_def)
  have "held (backend_final s) bt" if "held s bt" for bt by (rule held_same [OF that same(1,2,4,8,7,5)])
  then have "accounted s \<Longrightarrow> accounted (backend_final s)" unfolding accounted_def by blast
  moreover have "front_inv (backend_final s) \<and> back_inv (backend_final s)"
    using assms c by (auto simp: backend_final_def al_inv_def al_inv_defs)
  ultimately show ?thesis using assms unfolding al_inv_def same by auto
qed

lemma backend_step_inv:
  assumes "backend_step app flush s s'" and inv: "al_inv s"
  shows "al_inv s'"
  using assms(1)
proof cases
  case bk_swap
  then show ?thesis using al_swap_inv inv by auto
next
  case bk_write
  have I: "inv (al_out s)" "front_inv s" "back_inv s" using inv by (simp_all add: al_inv_def)
  obtain s1 where s1: "backend_write app flush s = Inr s1" "back_inv s1" "inv (al_out s1)" "al_loc s1 = BTop"
      "al_current s1 = al_current s" "al_next s1 = al_next s" "al_buffers s1 = al_buffers s"
      "al_pending s1 = al_pending s" "al_accepted s1 = al_accepted s" "al_old s1 = al_old s" "al_late s1 = al_late s"
      "al_dropped s1 = (al_dropped s \<or> batch_over (Round (al_to_write s)))"
      "wtext (al_out s1) = wtext (al_out s) @ batch_written (Round (al_to_write s))"
    using backend_write_law [OF I(1,3) bk_write(1)] by blast
  have F: "front_inv s1" using I(2) bk_write(1) s1 by (simp add: front_inv_def)
  have "al_to_write s1 = []" using s1(2,4) by (simp add: back_inv_def)
  then have "held s1 (bt @ [Round (al_to_write s)])" if "held s bt" for bt
    using that unfolding held_def s1(5-13) append.assoc [symmetric]
    by (simp del: batch_over.simps batch_written.simps) blast
  then have "accounted s \<Longrightarrow> accounted s1" unfolding accounted_def by blast
  then show ?thesis using s1 F bk_write inv by (auto simp: al_inv_def after_collect_def)
next
  case bk_final
  then show ?thesis using al_final_inv inv by simp
next
  case bk_flush
  have I: "inv (al_out s)" "front_inv s" using inv by (simp_all add: al_inv_def)
  obtain f where f: "s' = s\<lparr>al_out := f, al_buffers := [], al_loc := BDone\<rparr>" "inv f"
      "wtext f = wtext (al_out s) @ bufs_text (al_buffers s)"
    using backend_flush_law [OF I] bk_flush(2) by auto
  have "al_to_write s = []" using inv bk_flush(1) by (simp add: al_inv_def back_inv_def)
  then have "held s' (bt @ [Last (al_buffers s)])" if "held s bt" for bt
  proof -
    have "concat (map wtext (al_old s)) @ wtext f = concat (map batch_written bt) @ bufs_text (al_buffers s)"
      using that unfolding held_def f(3) append.assoc [symmetric] by simp
    then show ?thesis using that \<open>al_to_write s = []\<close> by (simp add: held_def f(1))
  qed
  then have "accounted s \<Longrightarrow> accounted s'" unfolding accounted_def by blast
  then show ?thesis using f inv bk_flush(1) by (auto simp: al_inv_def al_inv_defs after_collect_def)
next
  case bk_test
  show ?thesis by (rule al_inv_same [OF inv]) (use bk_test in \<open>auto simp: al_inv_defs after_collect_def\<close>)
next
  case bk_wait
  show ?thesis by (rule al_inv_same [OF inv]) (simp_all add: bk_wait backend_wait_def al_inv_defs after_collect_def)
next
  case bk_timeout
  show ?thesis by (rule al_inv_same [OF inv]) (simp_all add: bk_timeout backend_timeout_def al_inv_defs after_collect_def)
next
  case bk_leave
  show ?thesis by (rule al_inv_same [OF inv]) (use bk_leave in \<open>auto simp: al_inv_defs after_collect_def\<close>)
qed

lemma front_step_inv:
  assumes "front_step mk junk s s'" and inv: "al_inv s" and len: "length junk = large_size"
    and mk: "\<And>b rs fi. inv (mk b rs fi) \<and> wtext (mk b rs fi) = []"
  shows "al_inv s'"
  using assms(1)
proof cases
  case al_init
  then show ?thesis using al_start_inv inv len mk by simp
next
  case (al_locked line s1)
  then show ?thesis using al_locked_inv [OF inv _ len] by simp
next
  case (al_check line)
  show ?thesis by (rule al_inv_same [OF inv]) (use al_check in \<open>auto simp: al_append_check_def al_inv_defs split: if_splits\<close>)
next
  case al_stopping
  show ?thesis by (rule al_inv_same [OF inv]) (simp_all add: al_stopping al_stop_def al_inv_defs)
next
  case al_notifying
  show ?thesis by (rule al_inv_same [OF inv]) (simp_all add: al_notifying al_notify_def al_inv_defs)
next
  case al_terminate
  show ?thesis by (rule al_inv_same [OF inv]) (simp_all add: al_terminate al_inv_defs)
next
  case al_join
  show ?thesis by (rule al_inv_same [OF inv]) (use al_join in \<open>auto simp: al_joined_def al_inv_defs after_collect_def\<close>)
next
  case al_destroyed
  show ?thesis by (rule al_inv_same [OF inv]) (use al_destroyed in \<open>auto simp: al_inv_defs after_collect_def\<close>)
qed

lemma al_step_inv:
  assumes "al_step app flush mk junk s s'" and inv: "al_inv s" and len: "length junk = large_size"
    and mk: "\<And>b rs fi. inv (mk b rs fi) \<and> wtext (mk b rs fi) = []"
  shows "al_inv s'"
  using assms(1) by (cases rule: al_step_cases) (use backend_step_inv front_step_inv inv len mk in blast)+

lemma al_reach_inv:
  assumes "al_reach app flush mk junk f s" and "inv f" and "wtext f = []" and "length junk = large_size"
    and "\<And>b rs fi. inv (mk b rs fi) \<and> wtext (mk b rs fi) = []"
  shows "al_inv s"
  using assms(1) unfolding al_reach_def
  by (induction rule: rtranclp_induct) (use al_inv_init assms(2-5) al_step_inv in blast)+

end


section \<open>Properties\<close>

text \<open>
  The logger on top of \<open>LogFile\<close>: any number of calls of \<open>init\<close> with any configuration.
  Before the first one \<open>al_out\<close> is a file nobody writes.
\<close>

definition new_output :: "file_env \<Rightarrow> string \<Rightarrow> int \<Rightarrow> int \<Rightarrow> log_file" where
  "new_output fe b rs fi = lf_new fe b rs fi 1024"

definition log_start :: "file_env \<Rightarrow> log_file alog" where
  "log_start fe = al_init_state (new_output fe [] (64 * 1024 * 1024) 3)"

definition log_reach :: "file_env \<Rightarrow> string \<Rightarrow> log_file alog \<Rightarrow> bool" where
  "log_reach fe junk s \<longleftrightarrow>
     (al_step (\<lambda>f s. lf_append fe s f) lf_flush (new_output fe) junk)\<^sup>*\<^sup>* (log_start fe) s"

lemma log_reach_inv:
  assumes "files_work fe" and "0 \<le> fe_clock fe 0" and "length junk = large_size"
    and "log_reach fe junk s"
  shows "lfile.al_inv fe s"
proof -
  have new: "(lf_inv (new_output fe b rs fi) \<and> files_work fe) \<and> lf_text (new_output fe b rs fi) = []" for b rs fi
    using lf_new_inv [OF assms(1,2)] assms(1) by (simp add: new_output_def)
  have "al_reach (\<lambda>f s. lf_append fe s f) lf_flush (new_output fe) junk (new_output fe [] (64 * 1024 * 1024) 3) s"
    using assms(4) by (simp add: log_reach_def log_start_def al_reach_def)
  from lfile.al_reach_inv [OF this _ _ assms(3) new] new show ?thesis by blast
qed

text \<open>C39: Logging keeps order, and what it loses is known.  While no line has been accepted after
  the backend's last collection, the lines accepted so far are, in the order they were accepted and
  across restarts, the text of the batches the backend has taken followed by what the buffers hold,
  and the files hold what was written of each batch: all of it, except that a round that took more
  than 25 buffers wrote a warning with the number of buffers and the first two of them.  So if no
  round was over that limit nothing is lost or duplicated, and once the backend has ended the files
  hold exactly the accepted lines.\<close>

theorem async_log_keeps_order:
  assumes "files_work fe" and "0 \<le> fe_clock fe 0" and "length junk = large_size"
    and "log_reach fe junk s" and "\<not> al_late s"
  shows "\<exists>bt. concat (map lf_text (al_old s)) @ lf_text (al_out s) = concat (map batch_written bt)
    \<and> concat (map batch_taken bt) @ bufs_text (al_to_write s) @ bufs_text (al_buffers s @ [al_current s]) = concat (al_accepted s)
    \<and> (al_dropped s \<longleftrightarrow> (\<exists>b \<in> set bt. batch_over b))
    \<and> (\<not> al_dropped s \<longrightarrow> concat (map batch_written bt) = concat (map batch_taken bt))
    \<and> (al_loc s = BDone \<or> al_loc s = BNone \<longrightarrow> concat (map batch_taken bt) = concat (al_accepted s))"
proof -
  have I: "lfile.al_inv fe s" by (rule log_reach_inv [OF assms(1-4)])
  then obtain bt where bt: "lfile.held s bt" using assms(5) unfolding lfile.al_inv_def lfile.accounted_def by blast
  have "\<not> al_dropped s \<longrightarrow> concat (map batch_written bt) = concat (map batch_taken bt)"
    using bt batches_not_over [of bt] unfolding lfile.held_def by metis
  moreover have "concat (map batch_taken bt) = concat (al_accepted s)" if "al_loc s = BDone \<or> al_loc s = BNone"
    using that bt I assms(5) by (auto simp: lfile.held_def lfile.al_inv_def back_inv_def after_collect_def)
  ultimately show ?thesis using bt unfolding lfile.held_def by blast
qed

text \<open>No null buffer.  While the backend loop runs, a logging thread always finds a
  current buffer, and the backend's writing and recycling never meet a null or missing buffer.\<close>

theorem async_log_buffers_never_null:
  assumes "files_work fe" and "0 \<le> fe_clock fe 0" and "length junk = large_size"
    and "log_reach fe junk s"
  shows "(live_loc (al_loc s) \<longrightarrow> (\<exists>s'. al_append_locked junk line s = Inr s'))
    \<and> (al_loc s = BWriting \<longrightarrow> (\<exists>s'. backend_write (\<lambda>f s. lf_append fe s f) lf_flush s = Inr s'))
    \<and> (al_loc s = BFlush \<longrightarrow> (\<exists>s'. backend_flush (\<lambda>f s. lf_append fe s f) lf_flush s = Inr s'))"
proof -
  have I: "lfile.al_inv fe s" by (rule log_reach_inv [OF assms(1-4)])
  then have J: "lf_inv (al_out s) \<and> files_work fe" "front_inv s" "back_inv s" by (simp_all add: lfile.al_inv_def)
  show ?thesis
    using lfile.backend_write_law [OF J(1,3)] lfile.backend_flush_law [OF J(1,2)] J(2)
    by (auto simp: al_append_locked_def front_inv_def)
qed

text \<open>A race at shutdown.  Between the backend collecting the last buffers and
  \<open>started_\<close> being cleared, a logging thread that has passed the tests finds no current
  buffer: such a state is reachable, and its append dereferences a null pointer.\<close>

theorem append_during_shutdown_derefs_null:
  assumes "length junk = large_size"
  shows "\<exists>s. log_reach fe junk s \<and> al_started s \<and> \<not> al_terminating s \<and> al_pending s = [''b'']
    \<and> al_append_locked junk ''b'' s = Inl NullDeref"
proof -
  let ?st = "al_step (\<lambda>f s. lf_append fe s f) lf_flush (new_output fe) junk"
  let ?s0 = "log_start fe"
  let ?n = "Some (fb_new junk)" and ?c = "Some (fb_append (fb_new junk) ''a'')"
  let ?s1 = "?s0\<lparr>al_basename := b, al_roll_size := rs, al_flush_interval := fi, al_current := ?n, al_next := ?n,
             al_running := True, al_started := True, al_new1 := ?n, al_new2 := ?n, al_to_write := [], al_loc := BTop,
             al_old := [al_out ?s0], al_out := new_output fe b rs fi\<rparr>"
  note [simp] = log_start_def
  let ?s2 = "?s1\<lparr>al_pending := [''a'']\<rparr>"
  let ?s3 = "?s1\<lparr>al_current := ?c, al_accepted := [''a'']\<rparr>"
  let ?s4 = "?s3\<lparr>al_running := False\<rparr>"
  let ?s5 = "?s4\<lparr>al_pending := [''b'']\<rparr>"
  let ?s6 = "?s5\<lparr>al_loc := BFinal\<rparr>"
  let ?s7 = "?s6\<lparr>al_buffers := [?c], al_current := None, al_loc := BFlush\<rparr>"
  have av: "fb_avail (fb_new junk) = large_size" using assms by (simp add: fb_avail_def fb_new_def)
  have len: "fb_length (fb_append (fb_new junk) ''a'') = 1"
    using assms by (simp add: fb_length_def fb_append_def fb_avail_def fb_new_def Let_def large_size_def)
  have lock: "al_append_locked junk ''a'' ?s2 = Inr (?s2\<lparr>al_current := ?c\<rparr>)"
    using av by (simp add: al_append_locked_def large_size_def)
  have "?st\<^sup>*\<^sup>* ?s0 ?s1"
    using al_front [OF al_init, of ?s0 "\<lambda>f s. lf_append fe s f" lf_flush "new_output fe" junk b rs fi]
    by (auto simp: al_start_def start_locked_def al_init_state_def)
  also have "?st ?s1 ?s2"
    using al_front [OF al_check, of "''a''" _ _ _ _ ?s1] by (simp add: al_append_check_def al_init_state_def small_size_def)
  also have "?st ?s2 ?s3"
    using al_front [OF al_locked [OF _ lock], where app = "\<lambda>f s. lf_append fe s f" and flush = lf_flush]
    by (simp add: al_init_state_def after_collect_def)
  also have "?st ?s3 ?s4" using al_front [OF al_stopping, of _ _ _ _ ?s3] by (simp add: al_stop_def)
  also have "?st ?s4 ?s5"
    using al_front [OF al_check, of "''b''" _ _ _ _ ?s4] by (simp add: al_append_check_def al_init_state_def small_size_def)
  also have "?st ?s5 ?s6" using al_backend [OF bk_leave, of ?s5] by simp
  also have "?st ?s6 ?s7" using al_backend [OF bk_final, of ?s6] len by (simp add: backend_final_def al_init_state_def)
  finally have "log_reach fe junk ?s7" by (simp add: log_reach_def)
  then show ?thesis by (intro exI [of _ ?s7]) (simp add: al_append_locked_def al_init_state_def)
qed


section \<open>A concrete run\<close>

definition demo_log :: "string \<Rightarrow> log_file alog" where
  "demo_log junk = al_start (new_output demo_fe) junk ''log'' 100 3 (log_start demo_fe)"

lemma demo_log_reach: "log_reach demo_fe junk (demo_log junk)"
  unfolding log_reach_def demo_log_def
  by (intro r_into_rtranclp al_front al_init) (simp add: log_start_def al_init_state_def)

lemma demo_fe_start: "0 \<le> fe_clock demo_fe 0"
  by (simp add: demo_fe_def)

lemma demo_log_fields:
  "al_current (demo_log junk) = Some (fb_new junk)" "al_started (demo_log junk)" "al_running (demo_log junk)"
  "\<not> al_terminating (demo_log junk)" "al_loc (demo_log junk) = BTop" "al_pending (demo_log junk) = []"
  "al_accepted (demo_log junk) = []" "al_buffers (demo_log junk) = []" "\<not> al_late (demo_log junk)" "\<not> al_dropped (demo_log junk)"
  "al_next (demo_log junk) = Some (fb_new junk)" "al_new1 (demo_log junk) = Some (fb_new junk)"
  "al_to_write (demo_log junk) = []"
  by (simp_all add: demo_log_def al_start_def start_locked_def log_start_def al_init_state_def)

text \<open>A thread logs a line, the backend tests \<open>running_\<close> and waits, a stop clears \<open>running_\<close>, the
  wait times out, and the backend takes the buffer.\<close>

lemma demo_round:
  fixes junk :: string
  defines "junk \<equiv> replicate large_size (CHR 0x00)"
  shows "\<exists>s. log_reach demo_fe junk s \<and> al_accepted s = [''hi''] \<and> \<not> al_running s \<and> al_loc s = BWriting
    \<and> \<not> al_late s \<and> \<not> al_dropped s \<and> al_buffers s = [] \<and> al_current s = Some (fb_new junk)"
proof -
  let ?st = "al_step (\<lambda>f s. lf_append demo_fe s f) lf_flush (new_output demo_fe) junk"
  let ?s0 = "demo_log junk"
  let ?s1 = "?s0\<lparr>al_pending := [''hi'']\<rparr>"
  let ?s2 = "?s0\<lparr>al_current := Some (fb_append (fb_new junk) ''hi''), al_pending := [], al_accepted := [''hi''], al_late := False\<rparr>"
  let ?s3 = "?s2\<lparr>al_loc := BEnter\<rparr>"
  let ?s4 = "al_stop (backend_wait ?s3)"
  have av: "fb_avail (fb_new junk) = large_size" by (simp add: fb_avail_def fb_new_def junk_def)
  have "?st ?s0 ?s1"
    using al_front [OF al_check, of "''hi''" _ _ _ _ ?s0] by (simp add: al_append_check_def demo_log_fields small_size_def)
  then have "?st\<^sup>*\<^sup>* ?s0 ?s1" ..
  also have "?st ?s1 ?s2"
  proof -
    have "al_append_locked junk ''hi'' ?s1 = Inr (?s1\<lparr>al_current := Some (fb_append (fb_new junk) ''hi'')\<rparr>)"
      using av by (simp add: al_append_locked_def demo_log_fields large_size_def)
    from al_front [OF al_locked [OF _ this], where mk = "new_output demo_fe"] show ?thesis
      by (simp add: demo_log_fields after_collect_def)
  qed
  also have "?st ?s2 ?s3" using al_backend [OF bk_test, of ?s2] by (simp add: demo_log_fields)
  also have "?st ?s3 (backend_wait ?s3)" using al_backend [OF bk_wait, of ?s3] by (simp add: demo_log_fields)
  also have "?st (backend_wait ?s3) ?s4" by (rule al_front [OF al_stopping])
  also have "?st ?s4 (backend_timeout ?s4)"
    using al_backend [OF bk_timeout, of ?s4] by (simp add: al_stop_def backend_wait_def)
  also have "?st (backend_timeout ?s4) (backend_swap (backend_timeout ?s4))"
    by (rule al_backend [OF bk_swap]) (simp add: backend_timeout_def al_stop_def backend_wait_def)
  finally have "log_reach demo_fe junk (backend_swap (backend_timeout ?s4))"
    using demo_log_reach [of junk] unfolding log_reach_def by (rule rtranclp_trans [rotated])
  then show ?thesis
    by (intro exI [of _ "backend_swap (backend_timeout ?s4)"])
      (simp add: backend_swap_def backend_timeout_def al_stop_def backend_wait_def demo_log_fields)
qed

theorem async_log_keeps_order_witness:
  "\<exists>s bt. log_reach demo_fe (replicate large_size (CHR 0x00)) s \<and> al_accepted s = [''hi''] \<and> al_loc s = BWriting
     \<and> concat (map lf_text (al_old s)) @ lf_text (al_out s) = concat (map batch_taken bt)
     \<and> concat (map batch_taken bt) @ bufs_text (al_to_write s) = ''hi''"
proof -
  let ?junk = "replicate large_size (CHR 0x00)"
  obtain s where s: "log_reach demo_fe ?junk s" "al_accepted s = [''hi'']" "al_loc s = BWriting" "\<not> al_late s" "\<not> al_dropped s"
      "al_buffers s = []" "al_current s = Some (fb_new ?junk)"
    using demo_round by blast
  have "bufs_text [Some (fb_new ?junk)] = []" using fb_new_ok [of ?junk large_size] by simp
  with async_log_keeps_order [OF demo_fe_works demo_fe_start _ s(1,4)] s show ?thesis
    by (intro exI [of _ s]) auto
qed

theorem async_log_buffers_never_null_witness:
  "\<exists>s'. al_append_locked (replicate large_size (CHR 0x00)) ''x'' (demo_log (replicate large_size (CHR 0x00))) = Inr s'"
  using async_log_buffers_never_null [OF demo_fe_works demo_fe_start _ demo_log_reach, of "replicate large_size (CHR 0x00)" "''x''"]
  by (simp add: demo_log_fields)

theorem append_during_shutdown_derefs_null_witness:
  "\<exists>s. log_reach demo_fe (replicate large_size (CHR 0x00)) s \<and> al_started s
    \<and> al_append_locked (replicate large_size (CHR 0x00)) ''b'' s = Inl NullDeref"
  using append_during_shutdown_derefs_null [of "replicate large_size (CHR 0x00)" demo_fe] by auto

end
