(* ===== verification/Log_Path.thy ===== *)
theory Log_Path
  imports Async_Logger
begin

text \<open>
  The way of a log statement: \<open>Logger::~Logger\<close> (\<open>src/log/logger.cc\<close>) hands its line to the
  asynchronous logger and, for a fatal statement, stops the logger, waits for its thread and aborts.
  The thread that does so runs beside other logging threads, the backend and other calls that start
  or stop the logger.
\<close>

section \<open>The destructor of a statement\<close>

text \<open>What has become of the line: on \<open>stderr\<close>, taken while the backend still collected, or after that.\<close>

datatype fate = ToStderr | InTime | TooLate

datatype log_call =
    CAppend logger                \<comment> \<open>at the call of \<open>append\<close>, the line complete\<close>
  | CLock string bool             \<comment> \<open>in \<open>append\<close>, before the lock; whether the statement is fatal\<close>
  | CStop fate                    \<comment> \<open>at the call of \<open>flush_and_stop\<close>\<close>
  | CNotify fate                  \<comment> \<open>\<open>running_\<close> cleared, before \<open>notify_all\<close>\<close>
  | CJoin fate                    \<comment> \<open>waiting for the backend thread\<close>
  | CEnded fate                   \<comment> \<open>returned\<close>
  | CAborted fate                 \<comment> \<open>\<open>std::abort\<close>\<close>

definition after_append :: "bool \<Rightarrow> fate \<Rightarrow> log_call" where
  "after_append fatal w = (if fatal then CStop w else CEnded w)"

definition call_append :: "logger \<Rightarrow> 'f alog \<Rightarrow> log_call \<times> 'f alog" where
  "call_append l s =
     (let (line, fatal) = logger_destroy l
      in (if al_terminating s \<or> \<not> al_started s then after_append fatal ToStderr else CLock line fatal, al_append_check line s))"

definition call_lock :: "string \<Rightarrow> string \<Rightarrow> bool \<Rightarrow> 'f alog \<Rightarrow> al_error + (log_call \<times> 'f alog)" where
  "call_lock junk line fatal s =
     rbind (al_append_locked junk line s) (\<lambda>s'. Inr
       (after_append fatal (if after_collect (al_loc s) then TooLate else InTime),
        s'\<lparr>al_pending := remove1 line (al_pending s), al_accepted := al_accepted s @ [line],
           al_late := (al_late s \<or> after_collect (al_loc s))\<rparr>))"

definition call_stop :: "fate \<Rightarrow> 'f alog \<Rightarrow> log_call \<times> 'f alog" where
  "call_stop w s = (let (joins, s') = stop_begin FlushAndStop s in (if joins then CNotify w else CAborted w, s'))"

definition call_joined :: "fate \<Rightarrow> 'f alog \<Rightarrow> log_call \<times> 'f alog" where
  "call_joined w s = (CAborted w, stop_end FlushAndStop s)"

text \<open>An aborted process makes no further step.\<close>

inductive call_step :: "('f \<Rightarrow> string \<Rightarrow> 'f option) \<Rightarrow> ('f \<Rightarrow> 'f) \<Rightarrow> (string \<Rightarrow> int \<Rightarrow> int \<Rightarrow> 'f) \<Rightarrow> string
    \<Rightarrow> log_call \<times> 'f alog \<Rightarrow> log_call \<times> 'f alog \<Rightarrow> bool"
  for app flush mk junk where
  at_append: "call_step app flush mk junk (CAppend l, s) (call_append l s)"
| at_lock: "line \<in> set (al_pending s) \<Longrightarrow> call_lock junk line fatal s = Inr r \<Longrightarrow>
    call_step app flush mk junk (CLock line fatal, s) r"
| at_stop: "call_step app flush mk junk (CStop w, s) (call_stop w s)"
| at_notify: "call_step app flush mk junk (CNotify w, s) (CJoin w, al_notify s)"
| at_join: "al_loc s = BDone \<or> al_loc s = BNone \<Longrightarrow> call_step app flush mk junk (CJoin w, s) (call_joined w s)"
| beside: "(\<And>w. c \<noteq> CAborted w) \<Longrightarrow> al_step app flush mk junk s s' \<Longrightarrow> call_step app flush mk junk (c, s) (c, s')"

text \<open>A line has at most the size of the statement's buffer, so the destructor only makes steps of the logger.\<close>

definition call_fits :: "log_call \<Rightarrow> bool" where
  "call_fits c = (case c of CAppend l \<Rightarrow> fb_ok small_size (lg_stream l) | _ \<Rightarrow> True)"

lemma line_fits: "fb_ok small_size (lg_stream l) \<Longrightarrow> length (fst (logger_destroy l)) \<le> small_size"
  using fb_contents_length put_items_ok unfolding logger_destroy_def fst_conv by (metis fb_ok_def)

lemma call_step_steps:
  assumes "call_step app flush mk junk (c, s) (c', s')" and "call_fits c"
  shows "(al_step app flush mk junk)\<^sup>*\<^sup>* s s' \<and> call_fits c'"
  using assms(1)
proof cases
  case (at_append l)
  obtain line fatal where d: "logger_destroy l = (line, fatal)" by fastforce
  have s': "s' = al_append_check line s" and c': "call_fits c'"
    using at_append d by (auto simp: call_append_def call_fits_def after_append_def split: if_splits)
  have "length line \<le> small_size" using at_append assms(2) line_fits [of l] d by (simp add: call_fits_def)
  then have "al_step app flush mk junk s s'" unfolding s' by (rule al_front [OF al_check])
  then show ?thesis using c' by blast
next
  case (at_lock line fatal)
  then obtain t where t: "al_append_locked junk line s = Inr t"
      "s' = t\<lparr>al_pending := remove1 line (al_pending s), al_accepted := al_accepted s @ [line],
           al_late := (al_late s \<or> after_collect (al_loc s))\<rparr>"
      "c' = after_append fatal (if after_collect (al_loc s) then TooLate else InTime)"
    by (auto simp: call_lock_def rbind_eq_Inr)
  have "al_step app flush mk junk s s'" unfolding t(2) by (rule al_front [OF al_locked [OF at_lock(2) t(1)]])
  moreover have "call_fits c'" by (simp add: t(3) call_fits_def after_append_def)
  ultimately show ?thesis by blast
next
  case (at_stop w)
  then show ?thesis using stop_begin_steps [of app flush mk junk s FlushAndStop]
    by (auto simp: call_stop_def call_fits_def split: prod.splits if_splits)
next
  case (at_notify w)
  have "al_step app flush mk junk s s'" unfolding at_notify by (rule al_front [OF al_notifying])
  then show ?thesis by (auto simp: at_notify call_fits_def)
next
  case (at_join w)
  have "al_step app flush mk junk s s'" using stop_end_step [OF at_join(3)] at_join by (simp add: call_joined_def)
  then show ?thesis using at_join by (auto simp: call_joined_def call_fits_def)
next
  case beside
  then show ?thesis using assms(2) by auto
qed

lemma call_run_steps:
  assumes "(call_step app flush mk junk)\<^sup>*\<^sup>* (c, s) (c', s')" and "call_fits c"
  shows "(al_step app flush mk junk)\<^sup>*\<^sup>* s s'"
proof -
  have "(al_step app flush mk junk)\<^sup>*\<^sup>* s (snd r) \<and> call_fits (fst r)" if "(call_step app flush mk junk)\<^sup>*\<^sup>* (c, s) r" for r
    using that
  proof (induction rule: rtranclp_induct)
    case (step x y)
    obtain d t d' t' where xy: "x = (d, t)" "y = (d', t')" by fastforce
    show ?case using call_step_steps [OF step(2) [unfolded xy]] step(3) unfolding xy fst_conv snd_conv by auto
  qed (use assms(2) in simp)
  from this [OF assms(1)] show ?thesis by simp
qed

section \<open>What the logger holds\<close>

text \<open>Histories only grow.\<close>

lemma al_step_grows:
  assumes "al_step app flush mk junk s u"
  shows "set (al_stderr s) \<subseteq> set (al_stderr u) \<and> (al_late s \<longrightarrow> al_late u) \<and> (al_dropped s \<longrightarrow> al_dropped u)
    \<and> prefix (al_old s) (al_old u)"
  using assms
proof (cases rule: al_step_cases)
  case backend
  then show ?thesis
  proof cases
    case bk_write
    then show ?thesis by (auto simp: backend_write_def Let_def rbind_eq_Inr split: prod.splits)
  qed (auto simp: backend_wait_def backend_timeout_def backend_swap_def backend_final_def backend_flush_def Let_def
      rbind_eq_Inr split: option.splits if_splits)
next
  case front
  then show ?thesis
    by cases (auto simp: al_start_def start_locked_def al_append_check_def al_append_locked_def al_notify_def al_stop_def
      al_joined_def Let_def split: option.splits if_splits)
qed

text \<open>A logger that is not started has no thread.\<close>

definition idle_ok :: "'f alog \<Rightarrow> bool" where
  "idle_ok s \<longleftrightarrow> al_started s \<or> al_loc s = BNone"

lemma al_step_idle:
  assumes "al_step app flush mk junk s u" and "idle_ok s" shows "idle_ok u"
  using assms(1)
proof (cases rule: al_step_cases)
  case backend
  then show ?thesis
  proof cases
    case bk_write
    then show ?thesis using assms(2) by (auto simp: idle_ok_def backend_write_def Let_def rbind_eq_Inr split: prod.splits)
  qed (use assms(2) in \<open>auto simp: idle_ok_def backend_wait_def backend_timeout_def backend_swap_def backend_final_def
      backend_flush_def Let_def rbind_eq_Inr split: option.splits if_splits\<close>)
next
  case front
  then show ?thesis
    by cases (use assms(2) in \<open>auto simp: idle_ok_def al_start_def start_locked_def al_append_check_def al_append_locked_def
      al_notify_def al_stop_def al_joined_def Let_def split: option.splits if_splits\<close>)
qed

context log_sink
begin

text \<open>Everything the logger holds, in the order in which it reaches the files.\<close>

definition in_files :: "'f alog \<Rightarrow> string" where
  "in_files s = concat (map wtext (al_old s)) @ wtext (al_out s)"

definition al_text :: "'f alog \<Rightarrow> string" where
  "al_text s = in_files s @
     (if al_loc s = BDone \<or> al_loc s = BNone then []
      else if al_loc s = BFlush then bufs_text (al_buffers s)
      else bufs_text (al_to_write s) @ bufs_text (al_buffers s @ [al_current s]))"

lemma al_locked_text:
  assumes "al_inv s" and "line \<in> set (al_pending s)" and "length junk = large_size" and "al_append_locked junk line s = Inr t"
  shows "prefix (al_text s) (al_text t)" and "live_loc (al_loc s) \<Longrightarrow> al_text t = al_text s @ line"
proof -
  have F: "front_inv s" using assms(1) by (simp add: al_inv_def)
  then have "length line \<le> small_size" using assms(2) by (simp add: front_inv_def)
  from append_locked_inv [OF F assms(3) this assms(4)]
  have T: "bufs_text (al_buffers t @ [al_current t]) = bufs_text (al_buffers s @ [al_current s]) @ line" by blast
  have same: "al_old t = al_old s" "al_out t = al_out s" "al_loc t = al_loc s" "al_to_write t = al_to_write s"
      "prefix (bufs_text (al_buffers s)) (bufs_text (al_buffers t))"
    using assms(4) by (auto simp: al_append_locked_def al_notify_def split: option.splits if_splits)
  show "al_text t = al_text s @ line" if "live_loc (al_loc s)"
    using T that by (auto simp: al_text_def in_files_def same live_loc_def after_collect_def)
  show "prefix (al_text s) (al_text t)"
    using T same(5) by (simp add: al_text_def in_files_def same(1-4))
qed

text \<open>Without discarding, no step takes anything away.\<close>

lemma backend_step_text:
  assumes "backend_step app flush s u" and inv: "al_inv s" and "\<not> al_dropped u"
  shows "prefix (al_text s) (al_text u)"
  using assms(1)
proof cases
  case bk_swap
  then have L: "al_loc s = BEnter \<or> al_loc s = BWait" by blast
  have I: "al_to_write s = []" "front_inv s" "back_inv s" using inv L by (auto simp: al_inv_def back_inv_def)
  note W = swap_inv [OF I(2,3) L]
  have same: "al_old u = al_old s" "al_out u = al_out s" "al_loc u = BWriting"
    by (simp_all add: bk_swap(1) backend_swap_def Let_def)
  show ?thesis using W L I(1) unfolding al_text_def in_files_def same by (auto simp: bk_swap(1))
next
  case bk_write
  have I: "inv (al_out s)" "back_inv s" using inv by (simp_all add: al_inv_def)
  obtain s1 where s1: "backend_write app flush s = Inr s1" "back_inv s1" "al_loc s1 = BTop"
      "al_current s1 = al_current s" "al_buffers s1 = al_buffers s" "al_old s1 = al_old s"
      "al_dropped s1 = (al_dropped s \<or> batch_over (Round (al_to_write s)))"
      "wtext (al_out s1) = wtext (al_out s) @ batch_written (Round (al_to_write s))"
    using backend_write_law [OF I bk_write(1)] by blast
  moreover have "al_to_write s1 = []" using s1(2,3) by (simp add: back_inv_def)
  ultimately show ?thesis using bk_write assms(3) by (simp add: al_text_def in_files_def)
next
  case bk_final
  obtain c where c: "al_current s = Some c" "fb_ok large_size c" "al_to_write s = []"
    using inv bk_final(2) by (auto simp: al_inv_def al_inv_defs)
  have "fb_length c = 0 \<Longrightarrow> fb_contents c = []" using fb_contents_length [OF c(2)] by (simp add: fb_length_def)
  then show ?thesis using c bk_final by (simp add: backend_final_def al_text_def in_files_def)
next
  case bk_flush
  have I: "inv (al_out s)" "front_inv s" using inv by (simp_all add: al_inv_def)
  obtain f where "u = s\<lparr>al_out := f, al_buffers := [], al_loc := BDone\<rparr>"
      "wtext f = wtext (al_out s) @ bufs_text (al_buffers s)"
    using backend_flush_law [OF I] bk_flush(2) by auto
  then show ?thesis using bk_flush(1) by (simp add: al_text_def in_files_def)
qed (simp_all add: backend_wait_def backend_timeout_def al_text_def in_files_def)

lemma front_step_text:
  assumes "front_step mk junk s u" and inv: "al_inv s" and "length junk = large_size"
    and mk: "\<And>b rs fi. inv (mk b rs fi) \<and> wtext (mk b rs fi) = []"
  shows "prefix (al_text s) (al_text u)"
  using assms(1)
proof cases
  case (al_init b rs fi)
  then show ?thesis by (auto simp: al_start_def start_locked_def al_text_def in_files_def)
next
  case (al_check line)
  then show ?thesis by (simp add: al_append_check_def al_text_def in_files_def)
next
  case (al_locked line t)
  have "al_text u = al_text t" by (simp add: al_locked(1) al_text_def in_files_def)
  with al_locked_text(1) [OF inv al_locked(2) assms(3) al_locked(3)] show ?thesis by simp
qed (auto simp: al_notify_def al_stop_def al_joined_def al_text_def in_files_def)

lemma al_step_text:
  assumes "al_step app flush mk junk s u" and inv: "al_inv s" and "length junk = large_size" and "\<not> al_dropped u"
    and mk: "\<And>b rs fi. inv (mk b rs fi) \<and> wtext (mk b rs fi) = []"
  shows "prefix (al_text s) (al_text u)"
  using assms(1) by (cases rule: al_step_cases) (use backend_step_text front_step_text inv assms(3,4) mk in blast)+

text \<open>A line is safe when it is part of that.\<close>

definition line_kept :: "string \<Rightarrow> fate \<Rightarrow> 'f alog \<Rightarrow> bool" where
  "line_kept line w s =
     (case w of ToStderr \<Rightarrow> line \<in> set (al_stderr s)
      | InTime \<Rightarrow> al_dropped s \<or> (\<exists>x. prefix (x @ line) (al_text s))
      | TooLate \<Rightarrow> al_late s)"

lemma line_kept_step:
  assumes "al_step app flush mk junk s u" and "al_inv s" and "length junk = large_size"
    and "\<And>b rs fi. inv (mk b rs fi) \<and> wtext (mk b rs fi) = []" and "line_kept line w s"
  shows "line_kept line w u"
proof (cases w)
  case InTime
  note g = al_step_grows [OF assms(1)]
  show ?thesis
  proof (cases "al_dropped u")
    case False
    then obtain x where "prefix (x @ line) (al_text s)" using g assms(5) InTime by (auto simp: line_kept_def)
    then have "prefix (x @ line) (al_text u)"
      using al_step_text [OF assms(1-3) False assms(4)] prefix_order.order_trans by blast
    then show ?thesis using InTime by (auto simp: line_kept_def)
  qed (simp add: InTime line_kept_def)
qed (use al_step_grows [OF assms(1)] assms(5) in \<open>auto simp: line_kept_def\<close>)

text \<open>Where the destructor is and what it knows about its line.\<close>

definition call_inv :: "logger \<Rightarrow> log_call \<times> 'f alog \<Rightarrow> bool" where
  "call_inv l = (\<lambda>(c, s). al_inv s \<and> idle_ok s \<and> (case c of
      CAppend l' \<Rightarrow> l' = l \<and> fb_ok small_size (lg_stream l)
    | CLock line fatal \<Rightarrow> logger_destroy l = (line, fatal)
    | CStop w \<Rightarrow> snd (logger_destroy l) \<and> line_kept (fst (logger_destroy l)) w s
    | CNotify w \<Rightarrow> snd (logger_destroy l) \<and> line_kept (fst (logger_destroy l)) w s
    | CJoin w \<Rightarrow> snd (logger_destroy l) \<and> line_kept (fst (logger_destroy l)) w s
    | CEnded w \<Rightarrow> \<not> snd (logger_destroy l) \<and> line_kept (fst (logger_destroy l)) w s
    | CAborted w \<Rightarrow> snd (logger_destroy l) \<and> line_kept (fst (logger_destroy l)) w s \<and> al_loc s = BNone))"

lemma call_inv_fits: "call_inv l (c, s) \<Longrightarrow> call_fits c"
  by (cases c) (auto simp: call_inv_def call_fits_def)

lemma al_steps_inv:
  assumes "(al_step app flush mk junk)\<^sup>*\<^sup>* s u" and "al_inv s \<and> idle_ok s" and "length junk = large_size"
    and "\<And>b rs fi. inv (mk b rs fi) \<and> wtext (mk b rs fi) = []"
  shows "al_inv u \<and> idle_ok u" and "line_kept line w s \<Longrightarrow> line_kept line w u"
proof -
  have "(al_inv u \<and> idle_ok u) \<and> (line_kept line w s \<longrightarrow> line_kept line w u)"
    using assms(1)
  proof (induction rule: rtranclp_induct)
    case (step t u)
    then show ?case
      using al_step_inv [OF step(2) _ assms(3,4)] al_step_idle [OF step(2)] line_kept_step [OF step(2) _ assms(3,4)] by blast
  qed (use assms(2) in blast)
  then show "al_inv u \<and> idle_ok u" "line_kept line w s \<Longrightarrow> line_kept line w u" by blast+
qed

lemma call_step_inv:
  assumes "call_step app flush mk junk (c, s) (c', s')" and C: "call_inv l (c, s)" and "length junk = large_size"
    and "\<And>b rs fi. inv (mk b rs fi) \<and> wtext (mk b rs fi) = []"
  shows "call_inv l (c', s')"
proof -
  have I: "al_inv s \<and> idle_ok s" using C by (simp add: call_inv_def)
  have S: "(al_step app flush mk junk)\<^sup>*\<^sup>* s s'" using call_step_steps [OF assms(1) call_inv_fits [OF C]] by blast
  note J = al_steps_inv(1) [OF S I assms(3,4)] and K = al_steps_inv(2) [OF S I assms(3,4)]
  from assms(1) show ?thesis
  proof cases
    case (at_append l')
    obtain line fatal where d: "logger_destroy l = (line, fatal)" by fastforce
    have "l' = l" using C at_append by (simp add: call_inv_def)
    then show ?thesis using at_append J d
      by (auto simp: call_inv_def call_append_def after_append_def al_append_check_def line_kept_def)
  next
    case (at_lock line fatal)
    have d: "logger_destroy l = (line, fatal)" using C at_lock by (simp add: call_inv_def)
    obtain t where t: "al_append_locked junk line s = Inr t"
        "s' = t\<lparr>al_pending := remove1 line (al_pending s), al_accepted := al_accepted s @ [line],
           al_late := (al_late s \<or> after_collect (al_loc s))\<rparr>"
        "c' = after_append fatal (if after_collect (al_loc s) then TooLate else InTime)"
      using at_lock(3) by (auto simp: call_lock_def rbind_eq_Inr)
    have "line_kept line (if after_collect (al_loc s) then TooLate else InTime) s'"
    proof (cases "after_collect (al_loc s)")
      case False
      then have "al_text t = al_text s @ line"
        using al_locked_text(2) [OF _ at_lock(2) assms(3) t(1)] I by (simp add: live_loc_def)
      moreover have "al_text s' = al_text t" by (simp add: t(2) al_text_def in_files_def)
      ultimately have "prefix (al_text s @ line) (al_text s')" by simp
      then show ?thesis using False by (auto simp: line_kept_def)
    qed (simp add: line_kept_def t(2))
    then show ?thesis using J d by (auto simp: call_inv_def t(3) after_append_def)
  next
    case (at_stop w)
    have w: "snd (logger_destroy l)" "line_kept (fst (logger_destroy l)) w s" using C at_stop by (simp_all add: call_inv_def)
    then show ?thesis using at_stop(2) J K [OF w(2)] I
      by (auto simp: call_inv_def call_stop_def stop_begin_def idle_ok_def split: if_splits)
  next
    case (at_notify w)
    have w: "snd (logger_destroy l)" "line_kept (fst (logger_destroy l)) w s" using C at_notify by (simp_all add: call_inv_def)
    then show ?thesis using at_notify J K [OF w(2)] by (auto simp: call_inv_def)
  next
    case (at_join w)
    have w: "snd (logger_destroy l)" "line_kept (fst (logger_destroy l)) w s" using C at_join by (simp_all add: call_inv_def)
    then show ?thesis using at_join(2) J K [OF w(2)]
      by (auto simp: call_inv_def call_joined_def stop_end_def al_joined_def)
  next
    case beside
    then show ?thesis using C J K by (cases c) (auto simp: call_inv_def)
  qed
qed

lemma call_run_inv:
  assumes "(call_step app flush mk junk)\<^sup>*\<^sup>* r r'" and "call_inv l r" and "length junk = large_size"
    and "\<And>b rs fi. inv (mk b rs fi) \<and> wtext (mk b rs fi) = []"
  shows "call_inv l r'"
  using assms(1)
proof (induction rule: rtranclp_induct)
  case (step x y)
  obtain c s c' s' where xy: "x = (c, s)" "y = (c', s')" by fastforce
  show ?case using call_step_inv [OF step(2,3) [unfolded xy] assms(3,4)] by (simp add: xy)
qed (rule assms(2))

end

section \<open>The backend ends\<close>

text \<open>Runs of the logger, counting the steps of the backend.\<close>

inductive al_run :: "('f \<Rightarrow> string \<Rightarrow> 'f option) \<Rightarrow> ('f \<Rightarrow> 'f) \<Rightarrow> (string \<Rightarrow> int \<Rightarrow> int \<Rightarrow> 'f) \<Rightarrow> string
    \<Rightarrow> nat \<Rightarrow> 'f alog \<Rightarrow> 'f alog \<Rightarrow> bool"
  for app flush mk junk where
  ar_nil: "al_run app flush mk junk 0 s s"
| ar_back: "al_run app flush mk junk k s t \<Longrightarrow> backend_step app flush t u \<Longrightarrow> al_run app flush mk junk (Suc k) s u"
| ar_front: "al_run app flush mk junk k s t \<Longrightarrow> front_step mk junk t u \<Longrightarrow> al_run app flush mk junk k s u"

lemma al_run_steps: "al_run app flush mk junk k s u \<Longrightarrow> (al_step app flush mk junk)\<^sup>*\<^sup>* s u"
  by (induction rule: al_run.induct) (auto intro: rtranclp.rtrancl_into_rtrancl al_backend al_front)

definition moves_left :: "'f alog \<Rightarrow> nat" where
  "moves_left s = (case al_loc s of BEnter \<Rightarrow> 7 | BWait \<Rightarrow> if al_woken s then 5 else 6 | BWriting \<Rightarrow> 4 | BTop \<Rightarrow> 3
     | BFinal \<Rightarrow> 2 | BFlush \<Rightarrow> 1 | BDone \<Rightarrow> 0 | BNone \<Rightarrow> 0)"

lemma moves_left_7: "moves_left s \<le> 7"
  by (simp add: moves_left_def split: backend_loc.split)

text \<open>While no new backend is started, \<open>running_\<close> stays false and each step of the backend comes
  nearer to the end.\<close>

lemma backend_step_moves:
  assumes "backend_step app flush s u" and "\<not> al_running s"
  shows "\<not> al_running u \<and> al_old u = al_old s \<and> moves_left u < moves_left s"
  using assms(1)
proof cases
  case bk_write
  then show ?thesis using assms(2) by (auto simp: moves_left_def backend_write_def Let_def rbind_eq_Inr split: prod.splits)
qed (use assms(2) in \<open>auto simp: moves_left_def backend_wait_def backend_timeout_def backend_swap_def backend_final_def
    backend_flush_def Let_def rbind_eq_Inr split: option.splits if_splits\<close>)

lemma front_step_moves:
  assumes "front_step mk junk s u" and "\<not> al_running s" and "al_old u = al_old s"
  shows "\<not> al_running u \<and> moves_left u \<le> moves_left s"
  using assms(1)
proof cases
  case (al_init b rs fi)
  then show ?thesis using assms(2,3) by (auto simp: al_start_def start_locked_def split: if_splits)
qed (use assms(2) in \<open>auto simp: moves_left_def al_append_check_def al_append_locked_def al_notify_def
    al_stop_def al_joined_def Let_def split: option.splits if_splits backend_loc.splits\<close>)

lemma al_run_moves:
  "al_run app flush mk junk k s u \<Longrightarrow> \<not> al_running s \<Longrightarrow>
   prefix (al_old s) (al_old u) \<and> (al_old u = al_old s \<longrightarrow> \<not> al_running u \<and> k + moves_left u \<le> moves_left s)"
proof (induction rule: al_run.induct)
  case (ar_back k s t u)
  have p: "prefix (al_old s) (al_old t)" "prefix (al_old t) (al_old u)"
    using ar_back al_step_grows [OF al_backend [OF ar_back(2)]] by auto
  moreover have "\<not> al_running u \<and> Suc k + moves_left u \<le> moves_left s" if "al_old u = al_old s"
  proof -
    have "al_old t = al_old s" using p that by (simp add: prefix_order.antisym)
    then show ?thesis using backend_step_moves [OF ar_back(2)] ar_back.IH ar_back.prems by auto
  qed
  ultimately show ?case using prefix_order.order_trans by blast
next
  case (ar_front k s t u)
  have p: "prefix (al_old s) (al_old t)" "prefix (al_old t) (al_old u)"
    using ar_front al_step_grows [OF al_front [OF ar_front(2)]] by auto
  moreover have "\<not> al_running u \<and> k + moves_left u \<le> moves_left s" if "al_old u = al_old s"
  proof -
    have "al_old t = al_old s" using p that by (simp add: prefix_order.antisym)
    then show ?thesis using front_step_moves [OF ar_front(2)] ar_front.IH ar_front.prems that by auto
  qed
  ultimately show ?case using prefix_order.order_trans by blast
qed simp

context log_sink
begin

text \<open>A backend that has not ended can always make a step of its own: none of them needs a notification.\<close>

lemma backend_can_move:
  assumes I: "al_inv s" and "al_loc s \<noteq> BDone" and "al_loc s \<noteq> BNone"
  shows "\<exists>u. backend_step app flush s u"
proof -
  have J: "inv (al_out s)" "front_inv s" "back_inv s" using I by (simp_all add: al_inv_def)
  consider "al_loc s = BTop" | "al_loc s = BEnter" | "al_loc s = BWait" | "al_loc s = BWriting" | "al_loc s = BFinal" | "al_loc s = BFlush"
    using assms(2,3) by (cases "al_loc s") auto
  then show ?thesis
  proof cases
    case 4
    then show ?thesis using backend_write_law [OF J(1,3) 4] bk_write by blast
  next
    case 6
    then show ?thesis using backend_flush_law [OF J(1,2)] bk_flush by blast
  qed (use bk_test bk_leave bk_wait bk_timeout bk_swap bk_final in blast)+
qed

end

section \<open>On disk\<close>

text \<open>Nothing of the open file is left in the buffer of its stream; files rolled away are closed.\<close>

definition lf_on_disk :: "log_file \<Rightarrow> bool" where
  "lf_on_disk lf \<longleftrightarrow> (\<forall>f. lf_file lf = Some f \<longrightarrow> af_fp f \<longrightarrow> af_flushed f = length (af_data f))"

lemma lf_flush_on_disk: "lf_on_disk (lf_flush lf)"
  by (auto simp: lf_on_disk_def lf_flush_def af_flush_def split: option.splits)

lemma lf_new_on_disk: "lf_on_disk (new_output fe b rs fi)"
  by (auto simp: lf_on_disk_def new_output_def lf_new_def roll_file_def make_filename_def af_new_def Let_def)

definition logs_on_disk :: "log_file alog \<Rightarrow> bool" where
  "logs_on_disk s \<longleftrightarrow> (\<forall>f \<in> set (al_old s). lf_on_disk f) \<and> (al_loc s = BDone \<or> al_loc s = BNone \<longrightarrow> lf_on_disk (al_out s))"

lemma al_step_on_disk:
  assumes "al_step app lf_flush mk junk s u" and "logs_on_disk s"
  shows "logs_on_disk u"
  using assms(1)
proof (cases rule: al_step_cases)
  case backend
  then show ?thesis
  proof cases
    case bk_write
    then show ?thesis using assms(2)
      by (auto simp: logs_on_disk_def backend_write_def Let_def rbind_eq_Inr split: prod.splits)
  next
    case bk_flush
    then show ?thesis using assms(2) lf_flush_on_disk by (auto simp: logs_on_disk_def backend_flush_def rbind_eq_Inr)
  qed (use assms(2) in \<open>auto simp: logs_on_disk_def backend_wait_def backend_timeout_def backend_swap_def backend_final_def
      Let_def split: option.splits if_splits\<close>)
next
  case front
  then show ?thesis
    by cases (use assms(2) in \<open>auto simp: logs_on_disk_def al_start_def start_locked_def al_append_check_def
      al_append_locked_def al_notify_def al_stop_def al_joined_def Let_def split: option.splits if_splits\<close>)
qed

lemma al_steps_on_disk: "(al_step app lf_flush mk junk)\<^sup>*\<^sup>* s u \<Longrightarrow> logs_on_disk s \<Longrightarrow> logs_on_disk u"
  by (induction rule: rtranclp_induct) (auto intro: al_step_on_disk)

lemma log_start_on_disk: "logs_on_disk (log_start fe)"
  using lf_new_on_disk by (simp add: logs_on_disk_def log_start_def al_init_state_def)

lemma log_reach_idle: "log_reach fe junk s \<Longrightarrow> idle_ok s"
  unfolding log_reach_def
proof (induction rule: rtranclp_induct)
  case base
  show ?case by (simp add: idle_ok_def log_start_def al_init_state_def)
next
  case (step t u)
  then show ?case using al_step_idle by blast
qed

section \<open>Properties\<close>

text \<open>
  C37: A fatal line is not lost.  When the process aborts in the destructor of a statement, whatever
  other threads log, start or stop meanwhile, the statement is fatal and its line has been written:
  to \<open>stderr\<close> if the logger was not started, otherwise it is in the log files, in one piece and out of
  the buffers of the C library, unless the backend discarded buffers; only a line that comes when
  another stop has already collected the last buffers may miss the files.
\<close>

theorem fatal_line_reaches_its_file:
  assumes "files_work fe" and "0 \<le> fe_clock fe 0" and "length junk = large_size"
    and "log_reach fe junk s" and "fb_ok small_size (lg_stream l)" and "logger_destroy l = (line, fatal)"
    and "(call_step (\<lambda>f s. lf_append fe s f) lf_flush (new_output fe) junk)\<^sup>*\<^sup>* (CAppend l, s) (CAborted w, u)"
  shows "fatal \<and> (w = ToStderr \<longrightarrow> line \<in> set (al_stderr u)) \<and> (w = TooLate \<longrightarrow> al_late u)
    \<and> (w = InTime \<and> \<not> al_dropped u \<longrightarrow> sublist line (concat (map lf_text (al_old u)) @ lf_text (al_out u))
         \<and> (\<forall>f \<in> set (al_out u # al_old u). lf_on_disk f))"
proof -
  let ?app = "\<lambda>f s. lf_append fe s f"
  have new: "(lf_inv (new_output fe b rs fi) \<and> files_work fe) \<and> lf_text (new_output fe b rs fi) = []" for b rs fi
    using lf_new_inv [OF assms(1,2)] assms(1) by (simp add: new_output_def)
  have C: "lfile.call_inv fe l (CAppend l, s)"
    using log_reach_inv [OF assms(1-4)] log_reach_idle [OF assms(4)] assms(5) by (simp add: lfile.call_inv_def)
  have U: "lfile.call_inv fe l (CAborted w, u)" by (rule lfile.call_run_inv [OF assms(7) C assms(3) new])
  then have u: "fatal" "lfile.line_kept line w u" "al_loc u = BNone" by (simp_all add: lfile.call_inv_def assms(6))
  have "(al_step ?app lf_flush (new_output fe) junk)\<^sup>*\<^sup>* s u"
    by (rule call_run_steps [OF assms(7)]) (simp add: call_fits_def assms(5))
  with assms(4) have "(al_step ?app lf_flush (new_output fe) junk)\<^sup>*\<^sup>* (log_start fe) u" by (simp add: log_reach_def)
  from al_steps_on_disk [OF this log_start_on_disk] have disk: "\<forall>f \<in> set (al_out u # al_old u). lf_on_disk f"
    using u(3) by (simp add: logs_on_disk_def)
  have T: "lfile.al_text u = concat (map lf_text (al_old u)) @ lf_text (al_out u)"
    using u(3) by (simp add: lfile.al_text_def lfile.in_files_def)
  have "sublist line (concat (map lf_text (al_old u)) @ lf_text (al_out u))" if p: "w = InTime" "\<not> al_dropped u"
  proof -
    obtain x where "prefix (x @ line) (lfile.al_text u)" using u(2) p by (auto simp: lfile.line_kept_def)
    then show ?thesis unfolding T by (metis append.assoc prefix_def sublist_appendI)
  qed
  with u(1,2) disk show ?thesis by (auto simp: lfile.line_kept_def)
qed

text \<open>
  C38: A stop ends the backend.  Once \<open>running_\<close> has been cleared, and until a new start, the backend
  makes at most seven more steps, whatever other threads do: the longest way is that of a backend that
  had passed its test just before, finds no full buffer, waits, times out because the notification came
  too early, exchanges and writes the buffers, and then leaves and writes the rest.  Until it has ended
  it can always make its next step by itself, without a notification and with no buffer missing; then
  the join of \<open>shutdown\<close>, \<open>flush_and_stop\<close> and the destructor can return.
\<close>

theorem stop_lets_backend_end:
  assumes "files_work fe" and "0 \<le> fe_clock fe 0" and "length junk = large_size"
    and "log_reach fe junk s" and "\<not> al_running s"
    and "al_run (\<lambda>f s. lf_append fe s f) lf_flush (new_output fe) junk k s u" and "al_old u = al_old s"
  shows "k + moves_left u \<le> moves_left s \<and> k \<le> 7
    \<and> (if al_loc u = BDone \<or> al_loc u = BNone then front_step (new_output fe) junk u (stop_end c u)
       else (\<exists>v. backend_step (\<lambda>f s. lf_append fe s f) lf_flush u v \<and> moves_left v < moves_left u))"
proof -
  have M: "\<not> al_running u" "k + moves_left u \<le> moves_left s"
    using al_run_moves [OF assms(6,5)] assms(7) by simp_all
  have "log_reach fe junk u" using assms(4) al_run_steps [OF assms(6)] unfolding log_reach_def by simp
  from log_reach_inv [OF assms(1-3) this] have I: "lfile.al_inv fe u" .
  have "\<exists>v. backend_step (\<lambda>f s. lf_append fe s f) lf_flush u v \<and> moves_left v < moves_left u"
    if "\<not> (al_loc u = BDone \<or> al_loc u = BNone)"
    using lfile.backend_can_move [OF I] that backend_step_moves M(1) by blast
  moreover have "k \<le> 7" using M(2) moves_left_7 [of s] by linarith
  ultimately show ?thesis using M(2) stop_end_front [of u] by auto
qed

section \<open>A concrete run\<close>

text \<open>A fatal statement on a running logger, with nothing beside it.\<close>

definition demo_fatal :: logger where
  "demo_fatal = \<lparr>lg_stream = fb_new (replicate small_size (CHR 0x00)), lg_level = FATAL, lg_line = 7, lg_file = ''a.cc'', lg_abort = False\<rparr>"

lemma demo_fatal_ok: "fb_ok small_size (lg_stream demo_fatal)" "snd (logger_destroy demo_fatal)"
  by (simp_all add: demo_fatal_def logger_destroy_def fb_new_ok)

lemma demo_fatal_run:
  fixes junk line :: string
  defines "junk \<equiv> replicate large_size (CHR 0x00)" and "line \<equiv> fst (logger_destroy demo_fatal)"
  shows "\<exists>u. (call_step (\<lambda>f s. lf_append demo_fe s f) lf_flush (new_output demo_fe) junk)\<^sup>*\<^sup>* (CAppend demo_fatal, demo_log junk) (CAborted InTime, u)
    \<and> \<not> al_dropped u"
proof -
  let ?st = "call_step (\<lambda>f s. lf_append demo_fe s f) lf_flush (new_output demo_fe) junk"
  let ?n = "Some (fb_new junk)" and ?c = "Some (fb_append (fb_new junk) line)"
  let ?s0 = "demo_log junk"
  let ?s1 = "?s0\<lparr>al_pending := [line]\<rparr>"
  let ?s2 = "?s0\<lparr>al_current := ?c, al_accepted := [line]\<rparr>"
  let ?s3 = "al_notify (?s2\<lparr>al_running := False\<rparr>)"
  let ?s4 = "?s3\<lparr>al_loc := BFinal\<rparr>"
  let ?s5 = "backend_final ?s4"
  have s0: "al_current ?s0 = ?n" "al_started ?s0" "\<not> al_terminating ?s0" "al_loc ?s0 = BTop" "al_pending ?s0 = []"
      "al_accepted ?s0 = []" "\<not> al_late ?s0" "\<not> al_dropped ?s0"
    by (simp_all add: demo_log_def al_start_def start_locked_def log_start_def al_init_state_def)
  have d: "logger_destroy demo_fatal = (line, True)" using demo_fatal_ok(2) by (simp add: line_def prod_eq_iff)
  have len: "length line \<le> small_size" unfolding line_def by (rule line_fits [OF demo_fatal_ok(1)])
  have "call_append demo_fatal ?s0 = (CLock line True, ?s1)" using s0 d by (simp add: call_append_def al_append_check_def)
  then have "?st\<^sup>*\<^sup>* (CAppend demo_fatal, ?s0) (CLock line True, ?s1)" using at_append by (metis r_into_rtranclp)
  also have "?st (CLock line True, ?s1) (CStop InTime, ?s2)"
  proof (rule at_lock)
    have "fb_avail (fb_new junk) = large_size" by (simp add: fb_avail_def fb_new_def junk_def)
    then have "al_append_locked junk line ?s1 = Inr (?s1\<lparr>al_current := ?c\<rparr>)"
      using s0(1) len by (simp add: al_append_locked_def small_size_def large_size_def)
    then show "call_lock junk line True ?s1 = Inr (CStop InTime, ?s2)"
      using s0 by (simp add: call_lock_def after_append_def after_collect_def)
  qed simp
  also have "?st (CStop InTime, ?s2) (CNotify InTime, ?s2\<lparr>al_running := False\<rparr>)"
    using at_stop [of _ _ _ _ InTime ?s2] s0(2) by (simp add: call_stop_def stop_begin_def al_stop_def)
  also have "?st (CNotify InTime, ?s2\<lparr>al_running := False\<rparr>) (CJoin InTime, ?s3)" by (rule at_notify)
  also have "?st (CJoin InTime, ?s3) (CJoin InTime, ?s4)"
    by (rule beside, simp, rule al_backend, rule bk_leave) (simp_all add: s0 al_notify_def)
  also have "?st (CJoin InTime, ?s4) (CJoin InTime, ?s5)"
    by (rule beside, simp, rule al_backend, rule bk_final) simp
  finally have run: "?st\<^sup>*\<^sup>* (CAppend demo_fatal, ?s0) (CJoin InTime, ?s5)" .
  have "call_fits (CAppend demo_fatal)" by (simp add: call_fits_def demo_fatal_ok)
  from call_run_steps [OF run this] demo_log_reach [of junk] have "log_reach demo_fe junk ?s5"
    unfolding log_reach_def by (rule rtranclp_trans [rotated])
  from log_reach_inv [OF demo_fe_works demo_fe_start _ this] have I: "lfile.al_inv demo_fe ?s5" by (simp add: junk_def)
  have loc: "al_loc ?s5 = BFlush" "\<not> al_dropped ?s5" by (simp_all add: backend_final_def s0 al_notify_def split: option.split)
  have J: "lf_inv (al_out ?s5) \<and> files_work demo_fe" "front_inv ?s5" using I by (simp_all add: lfile.al_inv_def)
  obtain f where f: "backend_flush (\<lambda>f s. lf_append demo_fe s f) lf_flush ?s5 = Inr (?s5\<lparr>al_out := f, al_buffers := [], al_loc := BDone\<rparr>)"
    using lfile.backend_flush_law [OF J] by blast
  let ?s6 = "?s5\<lparr>al_out := f, al_buffers := [], al_loc := BDone\<rparr>"
  have "?st (CJoin InTime, ?s5) (CJoin InTime, ?s6)" by (rule beside, simp, rule al_backend, rule bk_flush [OF loc(1) f])
  moreover have "?st (CJoin InTime, ?s6) (CAborted InTime, stop_end FlushAndStop ?s6)"
    using at_join [of ?s6 _ _ _ _ InTime] by (simp add: call_joined_def)
  ultimately have "?st\<^sup>*\<^sup>* (CAppend demo_fatal, ?s0) (CAborted InTime, stop_end FlushAndStop ?s6)"
    using run by (meson rtranclp.rtrancl_into_rtrancl)
  moreover have "\<not> al_dropped (stop_end FlushAndStop ?s6)" using loc(2) by (simp add: stop_end_def al_joined_def)
  ultimately show ?thesis by blast
qed

text \<open>
  A fatal line that comes between the last collection of another stop and the end of the backend is
  lost: it goes into the current buffer, which nobody writes any more, and the process aborts.
\<close>

lemma demo_fatal_line: "fst (logger_destroy demo_fatal) \<noteq> []"
proof -
  define b where "b = lg_stream demo_fatal"
  have n: "fb_ok small_size b" "fb_contents b = []" by (simp_all add: b_def demo_fatal_def fb_new_ok)
  have t: "tail_items demo_fatal = [LCStr (Some '' - ''), LCStr (Some ''a.cc''), LChar (CHR '':''), LInt 7, LChar (CHR 0x0A)]"
    by (simp add: tail_items_def demo_fatal_def)
  have "fb_contents (foldl put_item b (tail_items demo_fatal)) = fb_contents b @ concat (map render (tail_items demo_fatal))"
    by (rule put_items_exact [OF n(1)]) (simp_all add: n(2) t demo_convert small_size_def kMaxNumericSize_def)
  moreover have "concat (map render (tail_items demo_fatal)) \<noteq> []" by (simp add: t)
  ultimately show ?thesis by (simp add: logger_destroy_def b_def)
qed

lemma late_fatal_line_is_lost:
  fixes junk :: string
  defines "junk \<equiv> replicate large_size (CHR 0x00)"
  shows "\<exists>u. (call_step (\<lambda>f s. lf_append demo_fe s f) lf_flush (new_output demo_fe) junk)\<^sup>*\<^sup>* (CAppend demo_fatal, demo_log junk) (CAborted TooLate, u)
    \<and> al_stderr u = [] \<and> concat (map lf_text (al_old u)) @ lf_text (al_out u) = [] \<and> al_accepted u = [fst (logger_destroy demo_fatal)]"
proof -
  let ?st = "call_step (\<lambda>f s. lf_append demo_fe s f) lf_flush (new_output demo_fe) junk"
  define line where "line = fst (logger_destroy demo_fatal)"
  let ?n = "Some (fb_new junk)" and ?c = "Some (fb_append (fb_new junk) line)"
  let ?s0 = "demo_log junk"
  let ?s1 = "?s0\<lparr>al_pending := [line]\<rparr>"
  let ?s2 = "?s1\<lparr>al_running := False\<rparr>"
  let ?s3 = "?s2\<lparr>al_loc := BFinal\<rparr>"
  let ?s4 = "?s2\<lparr>al_loc := BFlush\<rparr>"
  let ?s5 = "?s0\<lparr>al_running := False, al_loc := BFlush, al_current := ?c, al_accepted := [line], al_late := True\<rparr>"
  let ?s5' = "?s5\<lparr>al_woken := True\<rparr>"
  let ?s6 = "?s5'\<lparr>al_out := lf_flush (al_out ?s0), al_loc := BDone\<rparr>"
  have s0: "al_current ?s0 = ?n" "al_started ?s0" "\<not> al_terminating ?s0" "al_loc ?s0 = BTop" "al_pending ?s0 = []"
      "al_accepted ?s0 = []" "al_buffers ?s0 = []" "al_stderr ?s0 = []" "al_old ?s0 = [al_out (log_start demo_fe)]"
      "al_out ?s0 = new_output demo_fe ''log'' 100 3" "al_running ?s0"
    by (simp_all add: demo_log_def al_start_def start_locked_def log_start_def al_init_state_def)
  have len: "length line \<le> small_size" unfolding line_def by (rule line_fits [OF demo_fatal_ok(1)])
  have d: "logger_destroy demo_fatal = (line, True)" using demo_fatal_ok(2) by (simp add: line_def prod_eq_iff)
  have "call_append demo_fatal ?s0 = (CLock line True, ?s1)" using s0 d by (simp add: call_append_def al_append_check_def)
  then have "?st\<^sup>*\<^sup>* (CAppend demo_fatal, ?s0) (CLock line True, ?s1)" using at_append by (metis r_into_rtranclp)
  also have "?st (CLock line True, ?s1) (CLock line True, ?s2)"
    using beside [OF _ al_front [OF al_stopping], of "CLock line True" _ _ _ _ ?s1] by (simp add: al_stop_def)
  also have "?st (CLock line True, ?s2) (CLock line True, ?s3)"
    by (rule beside, simp, rule al_backend, rule bk_leave) (simp_all add: s0)
  also have "?st (CLock line True, ?s3) (CLock line True, ?s4)"
  proof -
    have "backend_final ?s3 = ?s4" by (simp add: backend_final_def s0 fb_length_def fb_new_def)
    moreover have "?st (CLock line True, ?s3) (CLock line True, backend_final ?s3)" by (rule beside, simp, rule al_backend, rule bk_final) simp
    ultimately show ?thesis by simp
  qed
  also have "?st (CLock line True, ?s4) (CStop TooLate, ?s5)"
  proof (rule at_lock)
    have "fb_avail (fb_new junk) = large_size" by (simp add: fb_avail_def fb_new_def junk_def)
    then have "al_append_locked junk line ?s4 = Inr (?s4\<lparr>al_current := ?c\<rparr>)"
      using s0(1) len by (simp add: al_append_locked_def small_size_def large_size_def)
    then show "call_lock junk line True ?s4 = Inr (CStop TooLate, ?s5)"
      using s0 by (simp add: call_lock_def after_append_def after_collect_def)
  qed simp
  also have "?st (CStop TooLate, ?s5) (CNotify TooLate, ?s5)"
  proof -
    have "al_stop ?s5 = ?s5" by (rule alog.equality) (simp_all add: al_stop_def)
    then have "call_stop TooLate ?s5 = (CNotify TooLate, ?s5)" using s0(2) by (simp add: call_stop_def stop_begin_def)
    then show ?thesis using at_stop by metis
  qed
  also have "?st (CNotify TooLate, ?s5) (CJoin TooLate, ?s5')" using at_notify by (simp add: al_notify_def)
  also have "?st (CJoin TooLate, ?s5') (CJoin TooLate, ?s6)"
    by (rule beside, simp, rule al_backend, rule bk_flush) (simp_all add: backend_flush_def s0)
  also have "?st (CJoin TooLate, ?s6) (CAborted TooLate, stop_end FlushAndStop ?s6)"
    using at_join [of ?s6 _ _ _ _ TooLate] by (simp add: call_joined_def)
  finally have "?st\<^sup>*\<^sup>* (CAppend demo_fatal, ?s0) (CAborted TooLate, stop_end FlushAndStop ?s6)" .
  moreover have new: "lf_inv (new_output demo_fe b rs fi) \<and> lf_text (new_output demo_fe b rs fi) = []" for b rs fi
    using lf_new_inv [OF demo_fe_works demo_fe_start] by (simp add: new_output_def)
  moreover have "lf_text (lf_flush (al_out ?s0)) = []" using lf_flush_law new by (simp add: s0)
  moreover have "lf_text (al_out (log_start demo_fe)) = []" using new by (simp add: log_start_def al_init_state_def)
  ultimately show ?thesis
    by (intro exI [of _ "stop_end FlushAndStop ?s6"]) (simp add: stop_end_def al_joined_def s0 line_def)
qed

theorem fatal_line_reaches_its_file_witness:
  "\<exists>u. (call_step (\<lambda>f s. lf_append demo_fe s f) lf_flush (new_output demo_fe) (replicate large_size (CHR 0x00)))\<^sup>*\<^sup>*
        (CAppend demo_fatal, demo_log (replicate large_size (CHR 0x00))) (CAborted InTime, u)
     \<and> sublist (fst (logger_destroy demo_fatal)) (concat (map lf_text (al_old u)) @ lf_text (al_out u)) \<and> lf_on_disk (al_out u)"
proof -
  obtain u where u: "(call_step (\<lambda>f s. lf_append demo_fe s f) lf_flush (new_output demo_fe) (replicate large_size (CHR 0x00)))\<^sup>*\<^sup>*
        (CAppend demo_fatal, demo_log (replicate large_size (CHR 0x00))) (CAborted InTime, u)" "\<not> al_dropped u"
    using demo_fatal_run by blast
  from fatal_line_reaches_its_file [OF demo_fe_works demo_fe_start _ demo_log_reach demo_fatal_ok(1) prod.collapse [symmetric] u(1)] u
  show ?thesis by auto
qed

text \<open>The backend has passed its test when the stop comes, and nobody is waiting for the notification.\<close>

theorem stop_lets_backend_end_witness:
  "\<exists>s. \<not> al_running s \<and> al_loc s = BWait \<and> \<not> al_woken s
    \<and> (\<exists>v. backend_step (\<lambda>f s. lf_append demo_fe s f) lf_flush s v \<and> moves_left v < moves_left s)"
proof -
  let ?junk = "replicate large_size (CHR 0x00)"
  let ?st = "al_step (\<lambda>f s. lf_append demo_fe s f) lf_flush (new_output demo_fe) ?junk"
  let ?e = "(demo_log ?junk)\<lparr>al_loc := BEnter\<rparr>"
  let ?s = "al_notify (al_stop ?e)"
  let ?u = "backend_wait ?s"
  have "?st (demo_log ?junk) ?e" using al_backend [OF bk_test, of "demo_log ?junk"] by (simp add: demo_log_fields)
  with demo_log_reach [of ?junk] have "log_reach demo_fe ?junk ?e" unfolding log_reach_def by (rule rtranclp.rtrancl_into_rtrancl)
  with al_front [OF al_stopping] have "log_reach demo_fe ?junk (al_stop ?e)" unfolding log_reach_def by (metis rtranclp.rtrancl_into_rtrancl)
  with al_front [OF al_notifying] have r: "log_reach demo_fe ?junk ?s" unfolding log_reach_def by (metis rtranclp.rtrancl_into_rtrancl)
  have b: "backend_step (\<lambda>f s. lf_append demo_fe s f) lf_flush ?s ?u"
    by (rule bk_wait) (simp_all add: al_notify_def al_stop_def demo_log_fields)
  have s: "\<not> al_running ?s" "al_old ?u = al_old ?s" by (simp_all add: al_notify_def al_stop_def backend_wait_def)
  from stop_lets_backend_end [OF demo_fe_works demo_fe_start _ r s(1) ar_back [OF ar_nil b] s(2)]
  show ?thesis by (intro exI [of _ ?u]) (simp add: al_notify_def al_stop_def backend_wait_def)
qed

end
