(* ===== verification/Thread_Pool.thy ===== *)
theory Thread_Pool
  imports Scheduler
begin

text \<open>
  \<open>CoroThreadPool\<close> and \<open>SubmitAwaiter\<close> (\<open>thread_pool.hpp\<close>,
  \<open>src/thread_pool/coro_thread_pool.cc\<close>, \<open>submit_awaiter.hpp\<close>): a queue under a
  mutex, a condition variable, and worker threads.  The steps of the workers, of the threads that
  submit and of the thread that stops the pool interleave; the test of the wait predicate and
  the blocking that follows are separate steps, as the mutex does not protect \<open>stopping_\<close>.
\<close>

section \<open>State\<close>

type_synonym task = nat

datatype worker =
    WWant          \<comment> \<open>about to lock the mutex\<close>
  | WTest          \<comment> \<open>holds the mutex, about to evaluate the predicate\<close>
  | WBlocking      \<comment> \<open>holds the mutex, predicate was false, about to block\<close>
  | WWaiting       \<comment> \<open>blocked on the condition variable\<close>
  | WRun task
  | WExited

datatype stopper = SIdle | SNotify | SJoin

record tpool =
  target_threads :: nat
  tp_workers :: "worker list"
  tp_mu :: "nat option"             \<comment> \<open>the worker that holds the mutex\<close>
  tp_queue :: "task list"
  tp_stopping :: bool
  tp_started :: bool
  tp_notify :: nat                  \<comment> \<open>\<open>notify_one\<close> calls still to come\<close>
  tp_stopper :: stopper
  tp_enqueued :: "task list"        \<comment> \<open>history\<close>
  tp_executed :: "task list"        \<comment> \<open>history\<close>
  tp_at_stop :: "task list"         \<comment> \<open>history: all that had been queued at the last stop request\<close>

definition tpool_new :: "nat \<Rightarrow> tpool" where
  "tpool_new threads = \<lparr>target_threads = (if threads = 0 then 1 else threads), tp_workers = [], tp_mu = None,
     tp_queue = [], tp_stopping = False, tp_started = False, tp_notify = 0, tp_stopper = SIdle,
     tp_enqueued = [], tp_executed = [], tp_at_stop = []\<rparr>"

section \<open>Operations\<close>

definition tpool_start :: "tpool \<Rightarrow> tpool" where
  "tpool_start p =
     (if tp_started p then p
      else p\<lparr>tp_started := True, tp_stopping := False, tp_workers := tp_workers p @ replicate (target_threads p) WWant\<rparr>)"

definition enqueue_push :: "task \<Rightarrow> tpool \<Rightarrow> tpool" where
  "enqueue_push t p = p\<lparr>tp_queue := tp_queue p @ [t], tp_notify := Suc (tp_notify p),
     tp_enqueued := tp_enqueued p @ [t]\<rparr>"

definition set_worker :: "nat \<Rightarrow> worker \<Rightarrow> tpool \<Rightarrow> tpool" where
  "set_worker i w p = p\<lparr>tp_workers := (tp_workers p)[i := w]\<rparr>"

text \<open>One evaluation of the predicate of \<open>cv_.wait\<close> and what follows it in \<open>worker_loop\<close>.\<close>

definition worker_test :: "nat \<Rightarrow> tpool \<Rightarrow> tpool" where
  "worker_test i p =
     (if \<not> (tp_queue p \<noteq> [] \<or> tp_stopping p) then set_worker i WBlocking p
      else case tp_queue p of
             [] \<Rightarrow> (set_worker i WExited p)\<lparr>tp_mu := None\<rparr>
           | t # q \<Rightarrow> (set_worker i (WRun t) p)\<lparr>tp_mu := None, tp_queue := q, tp_executed := tp_executed p @ [t]\<rparr>)"

definition stop_flag :: "tpool \<Rightarrow> tpool" where
  "stop_flag p = (if tp_started p then p\<lparr>tp_stopping := True, tp_stopper := SNotify, tp_at_stop := tp_enqueued p\<rparr> else p)"

definition stop_notify_all :: "tpool \<Rightarrow> tpool" where
  "stop_notify_all p = p\<lparr>tp_workers := map (\<lambda>w. if w = WWaiting then WWant else w) (tp_workers p), tp_stopper := SJoin\<rparr>"

definition stop_joined :: "tpool \<Rightarrow> tpool" where
  "stop_joined p = p\<lparr>tp_workers := [], tp_started := False, tp_stopper := SIdle\<rparr>"

text \<open>The destructor begins a stop if the pool is running; the stop then goes its way.\<close>

definition tpool_destroy :: "tpool \<Rightarrow> tpool" where
  "tpool_destroy p = (if tp_started p then stop_flag p else p)"

section \<open>Interleaving\<close>

definition worker_at :: "tpool \<Rightarrow> nat \<Rightarrow> worker \<Rightarrow> bool" where
  "worker_at p i w \<longleftrightarrow> i < length (tp_workers p) \<and> tp_workers p ! i = w"

inductive tp_step :: "tpool \<Rightarrow> tpool \<Rightarrow> bool" where
  tp_start: "tp_step p (tpool_start p)"
| tp_lock: "worker_at p i WWant \<Longrightarrow> tp_mu p = None \<Longrightarrow> tp_step p ((set_worker i WTest p)\<lparr>tp_mu := Some i\<rparr>)"
| tp_test: "worker_at p i WTest \<Longrightarrow> tp_step p (worker_test i p)"
| tp_block: "worker_at p i WBlocking \<Longrightarrow> tp_step p ((set_worker i WWaiting p)\<lparr>tp_mu := None\<rparr>)"
| tp_task_end: "worker_at p i (WRun t) \<Longrightarrow> tp_step p (set_worker i WWant p)"
| tp_spurious: "worker_at p i WWaiting \<Longrightarrow> tp_step p (set_worker i WWant p)"
| tp_enqueue: "tp_mu p = None \<Longrightarrow> tp_step p (enqueue_push t p)"
| tp_notify_some: "tp_notify p = Suc n \<Longrightarrow> worker_at p i WWaiting \<Longrightarrow>
    tp_step p ((set_worker i WWant p)\<lparr>tp_notify := n\<rparr>)"
| tp_notify_none: "tp_notify p = Suc n \<Longrightarrow> WWaiting \<notin> set (tp_workers p) \<Longrightarrow> tp_step p (p\<lparr>tp_notify := n\<rparr>)"
| tp_stop: "tp_stopper p = SIdle \<Longrightarrow> tp_step p (stop_flag p)"
| tp_stop_notify: "tp_stopper p = SNotify \<Longrightarrow> tp_step p (stop_notify_all p)"
| tp_stop_join: "tp_stopper p = SJoin \<Longrightarrow> set (tp_workers p) \<subseteq> {WExited} \<Longrightarrow> tp_step p (stop_joined p)"

definition tp_reach :: "nat \<Rightarrow> tpool \<Rightarrow> bool" where
  "tp_reach n p \<longleftrightarrow> tp_step\<^sup>*\<^sup>* (tpool_new n) p"

section \<open>Invariant\<close>

definition holds_mu :: "worker \<Rightarrow> bool" where
  "holds_mu w \<longleftrightarrow> w = WTest \<or> w = WBlocking"

definition tp_inv :: "tpool \<Rightarrow> bool" where
  "tp_inv p \<longleftrightarrow>
     tp_executed p @ tp_queue p = tp_enqueued p
   \<and> (\<forall>i. i < length (tp_workers p) \<longrightarrow> holds_mu (tp_workers p ! i) \<longrightarrow> tp_mu p = Some i)
   \<and> (WBlocking \<in> set (tp_workers p) \<longrightarrow> tp_queue p = [])
   \<and> (set (tp_workers p) \<subseteq> {WWaiting, WExited} \<longrightarrow> WWaiting \<in> set (tp_workers p) \<longrightarrow> tp_queue p \<noteq> [] \<longrightarrow> 0 < tp_notify p)
   \<and> (tp_stopper p = SIdle \<longleftrightarrow> \<not> (tp_started p \<and> tp_stopping p))
   \<and> (tp_started p \<longrightarrow> tp_workers p \<noteq> [])
   \<and> (\<not> tp_started p \<longrightarrow> tp_workers p = [])
   \<and> (WExited \<in> set (tp_workers p) \<longrightarrow> tp_stopping p \<and> prefix (tp_at_stop p) (tp_executed p))
   \<and> 0 < target_threads p
   \<and> prefix (tp_at_stop p) (tp_enqueued p)"

lemma tp_invI:
  assumes "tp_executed p @ tp_queue p = tp_enqueued p"
    and "\<And>i. i < length (tp_workers p) \<Longrightarrow> holds_mu (tp_workers p ! i) \<Longrightarrow> tp_mu p = Some i"
    and "WBlocking \<in> set (tp_workers p) \<Longrightarrow> tp_queue p = []"
    and "set (tp_workers p) \<subseteq> {WWaiting, WExited} \<Longrightarrow> WWaiting \<in> set (tp_workers p) \<Longrightarrow> tp_queue p \<noteq> [] \<Longrightarrow> 0 < tp_notify p"
    and "tp_stopper p = SIdle \<longleftrightarrow> \<not> (tp_started p \<and> tp_stopping p)"
    and "tp_started p \<Longrightarrow> tp_workers p \<noteq> []"
    and "\<not> tp_started p \<Longrightarrow> tp_workers p = []"
    and "WExited \<in> set (tp_workers p) \<Longrightarrow> tp_stopping p \<and> prefix (tp_at_stop p) (tp_executed p)"
    and "0 < target_threads p"
    and "prefix (tp_at_stop p) (tp_enqueued p)"
  shows "tp_inv p"
  using assms unfolding tp_inv_def by blast

lemma tp_invD:
  assumes "tp_inv p"
  shows "tp_executed p @ tp_queue p = tp_enqueued p"
    and "\<And>i. i < length (tp_workers p) \<Longrightarrow> holds_mu (tp_workers p ! i) \<Longrightarrow> tp_mu p = Some i"
    and "WBlocking \<in> set (tp_workers p) \<Longrightarrow> tp_queue p = []"
    and "set (tp_workers p) \<subseteq> {WWaiting, WExited} \<Longrightarrow> WWaiting \<in> set (tp_workers p) \<Longrightarrow> tp_queue p \<noteq> [] \<Longrightarrow> 0 < tp_notify p"
    and "tp_stopper p = SIdle \<longleftrightarrow> \<not> (tp_started p \<and> tp_stopping p)"
    and "tp_started p \<Longrightarrow> tp_workers p \<noteq> []"
    and "\<not> tp_started p \<Longrightarrow> tp_workers p = []"
    and "WExited \<in> set (tp_workers p) \<Longrightarrow> tp_stopping p \<and> prefix (tp_at_stop p) (tp_executed p)"
    and "0 < target_threads p"
    and "prefix (tp_at_stop p) (tp_enqueued p)"
  using assms unfolding tp_inv_def by blast+

lemma set_worker_simps [simp]:
  "tp_mu (set_worker i w p) = tp_mu p" "tp_queue (set_worker i w p) = tp_queue p"
  "tp_stopping (set_worker i w p) = tp_stopping p" "tp_started (set_worker i w p) = tp_started p"
  "tp_notify (set_worker i w p) = tp_notify p" "tp_stopper (set_worker i w p) = tp_stopper p"
  "tp_enqueued (set_worker i w p) = tp_enqueued p" "tp_executed (set_worker i w p) = tp_executed p"
  "tp_at_stop (set_worker i w p) = tp_at_stop p" "target_threads (set_worker i w p) = target_threads p"
  "tp_workers (set_worker i w p) = (tp_workers p)[i := w]"
  by (simp_all add: set_worker_def)

lemma worker_at_upd:
  assumes "worker_at p i w"
  shows "v \<in> set ((tp_workers p)[i := v])"
    and "x \<in> set ((tp_workers p)[i := v]) \<Longrightarrow> x \<noteq> v \<Longrightarrow> x \<in> set (tp_workers p)"
  using assms set_update_subset_insert [of "tp_workers p" i v]
  by (auto simp: worker_at_def set_update_memI)


text \<open>A worker that does not hold the mutex moves to a state that does not hold it either.\<close>

lemma tp_inv_wake:
  assumes inv: "tp_inv p" and w: "worker_at p i w" and "\<not> holds_mu w" and n: "n = tp_notify p \<or> w = WWaiting"
  shows "tp_inv ((set_worker i WWant p)\<lparr>tp_notify := n\<rparr>)" (is "tp_inv ?p")
proof -
  note I = tp_invD [OF inv]
  note U = worker_at_upd [OF w, where v = WWant]
  have ne: "tp_workers p \<noteq> []" using w by (auto simp: worker_at_def)
  show ?thesis
  proof (rule tp_invI)
    show "tp_mu ?p = Some j" if "j < length (tp_workers ?p)" "holds_mu (tp_workers ?p ! j)" for j
      using that I(2) [of j] w by (cases "j = i") (auto simp: worker_at_def holds_mu_def)
    show "0 < tp_notify ?p" if "set (tp_workers ?p) \<subseteq> {WWaiting, WExited}"
      using that U(1) by auto
    show "tp_queue ?p = []" if "WBlocking \<in> set (tp_workers ?p)" using that U(2) I(3) by auto
    show "tp_stopping ?p \<and> prefix (tp_at_stop ?p) (tp_executed ?p)" if "WExited \<in> set (tp_workers ?p)"
      using that U(2) I(8) by auto
  qed (use I ne in auto)
qed

lemma tp_inv_test:
  assumes inv: "tp_inv p" and w: "worker_at p i WTest"
  shows "tp_inv (worker_test i p)"
proof -
  note I = tp_invD [OF inv]
  have mu: "tp_mu p = Some i" using I(2) [of i] w by (simp add: worker_at_def holds_mu_def)
  have ne: "tp_workers p \<noteq> []" using w by (auto simp: worker_at_def)
  have only: "j = i" if "j < length (tp_workers p)" "holds_mu (tp_workers p ! j)" for j
    using I(2) [OF that] mu by simp
  have nb: "WBlocking \<notin> set (tp_workers p)"
  proof
    assume "WBlocking \<in> set (tp_workers p)"
    then obtain j where "j < length (tp_workers p)" "tp_workers p ! j = WBlocking" by (auto simp: in_set_conv_nth)
    then show False using only [of j] w by (auto simp: worker_at_def holds_mu_def)
  qed
  have held: "j = i" if "j < length (tp_workers p)" "holds_mu ((tp_workers p)[i := v] ! j)" for j v
    using only [of j] that by (cases "j = i") auto
  consider "tp_queue p = []" "\<not> tp_stopping p" | "tp_queue p = []" "tp_stopping p"
    | u q where "tp_queue p = u # q" by (cases "tp_queue p") auto
  then show ?thesis
  proof cases
    case 1
    then have t: "worker_test i p = set_worker i WBlocking p" by (simp add: worker_test_def)
    show ?thesis unfolding t
    proof (rule tp_invI)
      show "tp_mu (set_worker i WBlocking p) = Some j"
        if "j < length (tp_workers (set_worker i WBlocking p))" "holds_mu (tp_workers (set_worker i WBlocking p) ! j)" for j
        using held [of j WBlocking] that mu by simp
      show "tp_stopping (set_worker i WBlocking p) \<and> prefix (tp_at_stop (set_worker i WBlocking p)) (tp_executed (set_worker i WBlocking p))"
        if "WExited \<in> set (tp_workers (set_worker i WBlocking p))"
        using that worker_at_upd(2) [OF w, of WExited] I(8) by auto
    qed (use I 1 ne in auto)
  next
    case 2
    then have t: "worker_test i p = (set_worker i WExited p)\<lparr>tp_mu := None\<rparr>" by (simp add: worker_test_def)
    show ?thesis unfolding t
    proof (rule tp_invI)
      show "tp_mu ((set_worker i WExited p)\<lparr>tp_mu := None\<rparr>) = Some j"
        if "j < length (tp_workers ((set_worker i WExited p)\<lparr>tp_mu := None\<rparr>))"
          "holds_mu (tp_workers ((set_worker i WExited p)\<lparr>tp_mu := None\<rparr>) ! j)" for j
        using held [of j WExited] that by (auto simp: holds_mu_def)
    qed (use I 2 ne in auto)
  next
    case 3
    let ?p = "(set_worker i (WRun u) p)\<lparr>tp_mu := None, tp_queue := q, tp_executed := tp_executed p @ [u]\<rparr>"
    have t: "worker_test i p = ?p" using 3 by (simp add: worker_test_def)
    note U = worker_at_upd [OF w, where v = "WRun u"]
    show ?thesis unfolding t
    proof (rule tp_invI)
      show "tp_executed ?p @ tp_queue ?p = tp_enqueued ?p" using I(1) 3 by simp
      show "tp_mu ?p = Some j" if "j < length (tp_workers ?p)" "holds_mu (tp_workers ?p ! j)" for j
        using held [of j "WRun u"] that by (auto simp: holds_mu_def)
      show "tp_queue ?p = []" if "WBlocking \<in> set (tp_workers ?p)" using that U(2) nb by auto
      show "0 < tp_notify ?p" if "set (tp_workers ?p) \<subseteq> {WWaiting, WExited}" using that U(1) by auto
      show "tp_stopping ?p \<and> prefix (tp_at_stop ?p) (tp_executed ?p)" if "WExited \<in> set (tp_workers ?p)"
        using that U(2) I(8) 3 by (auto intro: prefix_prefix)
    qed (use I ne in auto)
  qed
qed

lemma tp_inv_lock:
  assumes inv: "tp_inv p" and w: "worker_at p i WWant" and mu: "tp_mu p = None"
  shows "tp_inv ((set_worker i WTest p)\<lparr>tp_mu := Some i\<rparr>)" (is "tp_inv ?p")
proof -
  note I = tp_invD [OF inv]
  note U = worker_at_upd [OF w, where v = WTest]
  have nh: "\<not> holds_mu (tp_workers p ! j)" if "j < length (tp_workers p)" for j using I(2) [OF that] mu by auto
  show ?thesis
  proof (rule tp_invI)
    show "tp_mu ?p = Some j" if "j < length (tp_workers ?p)" "holds_mu (tp_workers ?p ! j)" for j
      using that nh [of j] by (cases "j = i") auto
    show "0 < tp_notify ?p" if "set (tp_workers ?p) \<subseteq> {WWaiting, WExited}" using that U(1) by auto
    show "tp_queue ?p = []" if "WBlocking \<in> set (tp_workers ?p)" using that U(2) I(3) by auto
    show "tp_stopping ?p \<and> prefix (tp_at_stop ?p) (tp_executed ?p)" if "WExited \<in> set (tp_workers ?p)"
      using that U(2) I(8) by auto
  qed (use I w in \<open>auto simp: worker_at_def\<close>)
qed

lemma tp_inv_block:
  assumes inv: "tp_inv p" and w: "worker_at p i WBlocking"
  shows "tp_inv ((set_worker i WWaiting p)\<lparr>tp_mu := None\<rparr>)" (is "tp_inv ?p")
proof -
  note I = tp_invD [OF inv]
  have mu: "tp_mu p = Some i" using I(2) [of i] w by (simp add: worker_at_def holds_mu_def)
  have q: "tp_queue p = []" using I(3) w nth_mem [of i "tp_workers p"] by (simp add: worker_at_def)
  show ?thesis
  proof (rule tp_invI)
    show "tp_mu ?p = Some j" if "j < length (tp_workers ?p)" "holds_mu (tp_workers ?p ! j)" for j
      using that I(2) [of j] mu w by (cases "j = i") (auto simp: holds_mu_def)
    show "tp_stopping ?p \<and> prefix (tp_at_stop ?p) (tp_executed ?p)" if "WExited \<in> set (tp_workers ?p)"
      using that worker_at_upd(2) [OF w, of WExited WWaiting] I(8) by auto
  qed (use I q w in \<open>auto simp: worker_at_def\<close>)
qed

lemma tp_inv_enqueue:
  assumes inv: "tp_inv p" and mu: "tp_mu p = None"
  shows "tp_inv (enqueue_push t p)"
proof -
  note I = tp_invD [OF inv]
  have "WBlocking \<notin> set (tp_workers p)"
    using I(2) mu by (force simp: in_set_conv_nth holds_mu_def)
  then show ?thesis
    by (intro tp_invI) (use I in \<open>auto simp: enqueue_push_def\<close>)
qed

lemma tp_step_inv:
  assumes "tp_step p p'" and inv: "tp_inv p"
  shows "tp_inv p'"
  using assms(1)
proof cases
  case tp_start
  note I = tp_invD [OF inv]
  show ?thesis
  proof (cases "tp_started p")
    case True
    then show ?thesis using tp_start inv by (simp add: tpool_start_def)
  next
    case False
    then show ?thesis using tp_start I
      by (intro tp_invI) (auto simp: tpool_start_def holds_mu_def)
  qed
next
  case (tp_lock i)
  then show ?thesis using tp_inv_lock inv by simp
next
  case (tp_test i)
  then show ?thesis using tp_inv_test inv by simp
next
  case (tp_block i)
  then show ?thesis using tp_inv_block inv by simp
next
  case (tp_task_end i t)
  then show ?thesis using tp_inv_wake [OF inv tp_task_end(2), of "tp_notify p"]
    by (simp add: holds_mu_def set_worker_def)
next
  case (tp_spurious i)
  then show ?thesis using tp_inv_wake [OF inv tp_spurious(2), of "tp_notify p"]
    by (simp add: holds_mu_def set_worker_def)
next
  case (tp_enqueue t)
  then show ?thesis using tp_inv_enqueue inv by simp
next
  case (tp_notify_some n i)
  then show ?thesis using tp_inv_wake [OF inv tp_notify_some(3), of n] by (simp add: holds_mu_def)
next
  case (tp_notify_none n)
  note I = tp_invD [OF inv]
  show ?thesis unfolding tp_notify_none(1) by (rule tp_invI) (use I tp_notify_none(3) in auto)
next
  case tp_stop
  note I = tp_invD [OF inv]
  show ?thesis unfolding tp_stop(1) by (rule tp_invI) (use I tp_stop(2) in \<open>auto simp: stop_flag_def split: if_splits\<close>)
next
  case tp_stop_notify
  note I = tp_invD [OF inv]
  show ?thesis unfolding tp_stop_notify(1)
    by (rule tp_invI) (use I tp_stop_notify(2) in \<open>auto simp: stop_notify_all_def holds_mu_def split: if_splits\<close>)
next
  case tp_stop_join
  note I = tp_invD [OF inv]
  show ?thesis unfolding tp_stop_join(1) by (rule tp_invI) (use I in \<open>auto simp: stop_joined_def\<close>)
qed


lemma tpool_new_inv: "tp_inv (tpool_new n)"
  by (rule tp_invI) (simp_all add: tpool_new_def)

lemma tp_reach_inv: "tp_reach n p \<Longrightarrow> tp_inv p"
  unfolding tp_reach_def
  by (induction rule: rtranclp_induct) (blast intro: tpool_new_inv tp_step_inv)+

section \<open>SubmitAwaiter\<close>

text \<open>The variant \<open>result_\<close>; \<open>'x\<close> are the exceptions the submitted function may throw.\<close>

datatype ('r, 'x) slot = Unset | Value 'r | Raised 'x

record ('r, 'x) submit_awaiter =
  sa_result :: "('r, 'x) slot"
  sa_handle :: handle
  sa_src :: "sched option"          \<comment> \<open>the scheduler suspended on, null outside of any\<close>

datatype submit_error = NullScheduler

datatype 'x resume_error = Rethrown 'x | BadVariantAccess

definition submit_new :: "('r, 'x) submit_awaiter" where
  "submit_new = \<lparr>sa_result = Unset, sa_handle = 0, sa_src = None\<rparr>"

text \<open>\<open>CoroThreadPool::submit\<close> only makes the awaiter; the task is queued when it is awaited.\<close>

definition tpool_submit :: "tpool \<Rightarrow> ('r, 'x) submit_awaiter \<times> tpool" where
  "tpool_submit p = (submit_new, p)"

definition submit_await_ready :: "('r, 'x) submit_awaiter \<Rightarrow> bool" where
  "submit_await_ready a = False"

definition submit_await_suspend :: "handle \<Rightarrow> sched option \<Rightarrow> task \<Rightarrow> ('r, 'x) submit_awaiter \<Rightarrow> tpool
    \<Rightarrow> ('r, 'x) submit_awaiter \<times> tpool" where
  "submit_await_suspend h cur t a p = (a\<lparr>sa_handle := h, sa_src := cur\<rparr>, enqueue_push t p)"

text \<open>The closure that was queued; \<open>fn\<close> is the outcome of the function.\<close>

definition submit_closure :: "'x + 'r \<Rightarrow> ('r, 'x) submit_awaiter \<Rightarrow> submit_error + ('r, 'x) submit_awaiter" where
  "submit_closure fn a =
     (let a1 = a\<lparr>sa_result := (case fn of Inr r \<Rightarrow> Value r | Inl x \<Rightarrow> Raised x)\<rparr>
      in case sa_src a1 of None \<Rightarrow> Inl NullScheduler
         | Some s \<Rightarrow> Inr (a1\<lparr>sa_src := Some (post False (sa_handle a1) s)\<rparr>))"

definition submit_await_resume :: "('r, 'x) submit_awaiter \<Rightarrow> 'x resume_error + 'r" where
  "submit_await_resume a =
     (case sa_result a of Raised x \<Rightarrow> Inl (Rethrown x) | Value r \<Rightarrow> Inr r | Unset \<Rightarrow> Inl BadVariantAccess)"

section \<open>Properties\<close>

text \<open>C31: Tasks are taken up in the order they were submitted, each once, and none disappears:
  those taken up, followed by those still queued, are those submitted.  When the joins of a stop
  return, every task submitted before the stop request has been run; what was submitted after it
  may be left in the queue.\<close>

theorem pool_runs_tasks_in_order:
  assumes "tp_reach n p"
  shows "tp_executed p @ tp_queue p = tp_enqueued p
    \<and> (\<forall>p'. tp_stopper p = SIdle \<and> tp_started p \<and> p' = stop_flag p \<longrightarrow> tp_at_stop p' = tp_enqueued p)
    \<and> (tp_stopper p = SJoin \<and> set (tp_workers p) \<subseteq> {WExited} \<longrightarrow> prefix (tp_at_stop p) (tp_executed p))"
proof -
  note I = tp_invD [OF tp_reach_inv [OF assms]]
  have "prefix (tp_at_stop p) (tp_executed p)" if "tp_stopper p = SJoin" "set (tp_workers p) \<subseteq> {WExited}"
  proof -
    have "tp_workers p \<noteq> []" using I(5,6) that(1) by simp
    then have "WExited \<in> set (tp_workers p)" using that(2) by (metis list.set_sel(1) singletonD subsetD)
    then show ?thesis using I(8) by simp
  qed
  then show ?thesis using I(1) by (auto simp: stop_flag_def)
qed

text \<open>A task submitted between the end of the workers and the joins is queued and never run.\<close>

lemma late_task_is_lost:
  "\<exists>p. tp_reach 1 p \<and> tp_stopper p = SJoin \<and> tp_workers p = [WExited] \<and> tp_queue p = [t] \<and> tp_executed p = []
    \<and> tp_step p (stop_joined p)"
proof -
  let ?p0 = "tpool_new 1"
  let ?p1 = "?p0\<lparr>tp_started := True, tp_workers := [WWant]\<rparr>"
  let ?p2 = "?p1\<lparr>tp_stopping := True, tp_stopper := SNotify\<rparr>"
  let ?p3 = "?p1\<lparr>tp_stopping := True, tp_stopper := SJoin\<rparr>"
  let ?p4 = "?p3\<lparr>tp_workers := [WTest], tp_mu := Some 0\<rparr>"
  let ?p5 = "?p3\<lparr>tp_workers := [WExited]\<rparr>"
  have "tp_step\<^sup>*\<^sup>* ?p0 ?p1"
    using tp_start [of ?p0] by (auto simp: tpool_start_def tpool_new_def)
  also have "tp_step ?p1 ?p2"
    using tp_stop [of ?p1] by (simp add: stop_flag_def tpool_new_def)
  also have "tp_step ?p2 ?p3"
    using tp_stop_notify [of ?p2] by (simp add: stop_notify_all_def tpool_new_def)
  also have "tp_step ?p3 ?p4"
    using tp_lock [of ?p3 0] by (simp add: worker_at_def set_worker_def tpool_new_def)
  also have "tp_step ?p4 ?p5"
    using tp_test [of ?p4 0] by (simp add: worker_at_def worker_test_def set_worker_def tpool_new_def)
  also have "tp_step ?p5 (enqueue_push t ?p5)"
    by (rule tp_enqueue) (simp add: tpool_new_def)
  finally have "tp_reach 1 (enqueue_push t ?p5)" by (simp add: tp_reach_def)
  moreover have "tp_step (enqueue_push t ?p5) (stop_joined (enqueue_push t ?p5))"
    by (rule tp_stop_join) (simp_all add: enqueue_push_def tpool_new_def)
  ultimately show ?thesis by (intro exI [of _ "enqueue_push t ?p5"]) (simp add: enqueue_push_def tpool_new_def)
qed

text \<open>C32: Work is never slept on.  If a task is queued while every worker that has not ended
  is blocked, a notification is still on its way.\<close>

theorem queued_task_has_a_worker:
  assumes "tp_reach n p" and "set (tp_workers p) \<subseteq> {WWaiting, WExited}" and "WWaiting \<in> set (tp_workers p)"
    and "tp_queue p \<noteq> []"
  shows "0 < tp_notify p"
  using tp_invD(4) [OF tp_reach_inv [OF assms(1)] assms(2-4)] .

text \<open>Stopping can hang.  \<open>stop\<close> sets its flag without the mutex, so its notification can
  fall between a worker's test and its blocking: a state is reachable in which the stopping
  thread waits for a worker that waits for a notification nobody will send; only a spurious
  wake-up or a new task can still move it.\<close>

theorem stop_can_miss_a_worker:
  "\<exists>p. tp_reach 1 p \<and> tp_stopping p \<and> tp_stopper p = SJoin \<and> tp_workers p = [WWaiting] \<and> tp_notify p = 0
    \<and> (\<forall>p'. tp_step p p' \<longrightarrow> p' = p \<or> (\<exists>t. p' = enqueue_push t p) \<or> p' = set_worker 0 WWant p)"
proof -
  let ?p0 = "tpool_new 1"
  let ?p1 = "?p0\<lparr>tp_started := True, tp_workers := [WWant]\<rparr>"
  let ?p2 = "?p1\<lparr>tp_workers := [WTest], tp_mu := Some 0\<rparr>"
  let ?p3 = "?p1\<lparr>tp_workers := [WBlocking], tp_mu := Some 0\<rparr>"
  let ?p4 = "?p3\<lparr>tp_stopping := True, tp_stopper := SNotify\<rparr>"
  let ?p5 = "?p3\<lparr>tp_stopping := True, tp_stopper := SJoin\<rparr>"
  let ?p6 = "?p1\<lparr>tp_workers := [WWaiting], tp_stopping := True, tp_stopper := SJoin\<rparr>"
  have "tp_step\<^sup>*\<^sup>* ?p0 ?p1"
    using tp_start [of ?p0] by (auto simp: tpool_start_def tpool_new_def)
  also have "tp_step ?p1 ?p2"
    using tp_lock [of ?p1 0] by (simp add: worker_at_def set_worker_def tpool_new_def)
  also have "tp_step ?p2 ?p3"
    using tp_test [of ?p2 0] by (simp add: worker_at_def worker_test_def set_worker_def tpool_new_def)
  also have "tp_step ?p3 ?p4"
    using tp_stop [of ?p3] by (simp add: stop_flag_def tpool_new_def)
  also have "tp_step ?p4 ?p5"
    using tp_stop_notify [of ?p4] by (simp add: stop_notify_all_def tpool_new_def)
  also have "tp_step ?p5 ?p6"
    using tp_block [of ?p5 0] by (simp add: worker_at_def set_worker_def tpool_new_def)
  finally have r: "tp_reach 1 ?p6" by (simp add: tp_reach_def)
  have "p' = ?p6 \<or> (\<exists>t. p' = enqueue_push t ?p6) \<or> p' = set_worker 0 WWant ?p6" if "tp_step ?p6 p'" for p'
    using that by cases (auto simp: worker_at_def tpool_new_def tpool_start_def)
  with r show ?thesis by (intro exI [of _ ?p6]) (auto simp: tpool_new_def)
qed

text \<open>Submitting returns the result.  After the queued closure has run, resuming yields
  exactly the value or the exception of the submitted function, and the coroutine has been
  posted once to the scheduler it was suspended on.\<close>

theorem submit_returns_outcome:
  assumes "submit_await_suspend h (Some s) t submit_new p = (a, p')"
  shows "\<exists>b s'. submit_closure fn a = Inr b \<and> sa_src b = Some s'
    \<and> submit_await_resume b = (case fn of Inr r \<Rightarrow> Inr r | Inl x \<Rightarrow> Inl (Rethrown x))
    \<and> cross_handles s' = cross_handles s @ [h] \<and> 0 < wake_count s'
    \<and> tp_queue p' = tp_queue p @ [t]"
  using assms eventfd_write_pos
  by (auto simp: submit_await_suspend_def submit_new_def submit_closure_def submit_await_resume_def
      post_def post_enqueue_def wake_remote_def enqueue_push_def Let_def split: sum.splits)

section \<open>Concrete runs\<close>

definition demo_tpool :: tpool where
  "demo_tpool = (tpool_new 1)\<lparr>tp_started := True, tp_workers := [WWaiting], tp_queue := [5], tp_notify := 1, tp_enqueued := [5]\<rparr>"

lemma demo_tpool_reach: "tp_reach 1 demo_tpool"
proof -
  let ?p0 = "tpool_new 1"
  let ?p1 = "?p0\<lparr>tp_started := True, tp_workers := [WWant]\<rparr>"
  let ?p2 = "?p1\<lparr>tp_workers := [WTest], tp_mu := Some 0\<rparr>"
  let ?p3 = "?p1\<lparr>tp_workers := [WBlocking], tp_mu := Some 0\<rparr>"
  let ?p4 = "?p1\<lparr>tp_workers := [WWaiting]\<rparr>"
  have "tp_step\<^sup>*\<^sup>* ?p0 ?p1"
    using tp_start [of ?p0] by (auto simp: tpool_start_def tpool_new_def)
  also have "tp_step ?p1 ?p2"
    using tp_lock [of ?p1 0] by (simp add: worker_at_def set_worker_def tpool_new_def)
  also have "tp_step ?p2 ?p3"
    using tp_test [of ?p2 0] by (simp add: worker_at_def worker_test_def set_worker_def tpool_new_def)
  also have "tp_step ?p3 ?p4"
    using tp_block [of ?p3 0] by (simp add: worker_at_def set_worker_def tpool_new_def)
  also have "tp_step ?p4 demo_tpool"
    using tp_enqueue [of ?p4 5] by (simp add: enqueue_push_def tpool_new_def demo_tpool_def)
  finally show ?thesis by (simp add: tp_reach_def)
qed

text \<open>A pool of one worker that ran a task submitted before the stop; another one came too late.\<close>

definition demo_stopped_pool :: tpool where
  "demo_stopped_pool = (tpool_new 1)\<lparr>tp_started := True, tp_stopping := True, tp_stopper := SJoin, tp_workers := [WExited],
     tp_queue := [6], tp_notify := 1, tp_enqueued := [5, 6], tp_executed := [5], tp_at_stop := [5]\<rparr>"

lemma demo_stopped_pool_reach: "tp_reach 1 demo_stopped_pool"
proof -
  let ?q = "demo_tpool\<lparr>tp_stopping := True, tp_stopper := SNotify, tp_at_stop := [5]\<rparr>"
  let ?r = "?q\<lparr>tp_stopper := SJoin, tp_workers := [WWant]\<rparr>"
  let ?r2 = "?r\<lparr>tp_notify := 0\<rparr>"
  let ?s1 = "?r2\<lparr>tp_workers := [WRun 5], tp_queue := [], tp_executed := [5]\<rparr>"
  let ?s2 = "?s1\<lparr>tp_workers := [WWant]\<rparr>"
  let ?s3 = "?s1\<lparr>tp_workers := [WExited]\<rparr>"
  note d = demo_tpool_def tpool_new_def
  have "tp_step\<^sup>*\<^sup>* (tpool_new 1) demo_tpool" using demo_tpool_reach by (simp add: tp_reach_def)
  also have "tp_step demo_tpool ?q" using tp_stop [of demo_tpool] by (simp add: stop_flag_def d)
  also have "tp_step ?q ?r" using tp_stop_notify [of ?q] by (simp add: stop_notify_all_def d)
  also have "tp_step ?r ?r2" using tp_notify_none [of ?r 0] by (simp add: d)
  also have "tp_step ?r2 (?r2\<lparr>tp_workers := [WTest], tp_mu := Some 0\<rparr>)"
    using tp_lock [of ?r2 0] by (simp add: worker_at_def set_worker_def d)
  also have "tp_step (?r2\<lparr>tp_workers := [WTest], tp_mu := Some 0\<rparr>) ?s1"
    using tp_test [of "?r2\<lparr>tp_workers := [WTest], tp_mu := Some 0\<rparr>" 0] by (simp add: worker_at_def worker_test_def set_worker_def d)
  also have "tp_step ?s1 ?s2" using tp_task_end [of ?s1 0 5] by (simp add: worker_at_def set_worker_def d)
  also have "tp_step ?s2 (?s2\<lparr>tp_workers := [WTest], tp_mu := Some 0\<rparr>)"
    using tp_lock [of ?s2 0] by (simp add: worker_at_def set_worker_def d)
  also have "tp_step (?s2\<lparr>tp_workers := [WTest], tp_mu := Some 0\<rparr>) ?s3"
    using tp_test [of "?s2\<lparr>tp_workers := [WTest], tp_mu := Some 0\<rparr>" 0] by (simp add: worker_at_def worker_test_def set_worker_def d)
  also have "tp_step ?s3 demo_stopped_pool" using tp_enqueue [of ?s3 6] by (simp add: enqueue_push_def demo_stopped_pool_def d)
  finally show ?thesis by (simp add: tp_reach_def)
qed

theorem pool_runs_tasks_in_order_witness:
  "tp_executed demo_stopped_pool @ tp_queue demo_stopped_pool = [5, 6] \<and> prefix [5] (tp_executed demo_stopped_pool)
   \<and> tp_at_stop (stop_flag demo_tpool) = [5]"
  using pool_runs_tasks_in_order [OF demo_stopped_pool_reach] pool_runs_tasks_in_order [OF demo_tpool_reach]
  by (simp add: demo_stopped_pool_def demo_tpool_def tpool_new_def)

theorem queued_task_has_a_worker_witness: "tp_queue demo_tpool = [5] \<and> 0 < tp_notify demo_tpool"
  using queued_task_has_a_worker [OF demo_tpool_reach] by (simp add: demo_tpool_def tpool_new_def)

theorem stop_can_miss_a_worker_witness: "\<exists>p. tp_reach 1 p \<and> tp_stopper p = SJoin \<and> tp_workers p = [WWaiting]"
  using stop_can_miss_a_worker by blast

theorem submit_returns_outcome_witness:
  "\<exists>a p' b. submit_await_suspend 9 (Some (sched_new 8)) 3 submit_new (tpool_new 1) = (a, p')
    \<and> submit_closure (Inr (42 :: nat) :: nat + nat) a = Inr b \<and> submit_await_resume b = Inr 42"
proof -
  obtain a :: "(nat, nat) submit_awaiter" and p' where
    a: "submit_await_suspend 9 (Some (sched_new 8)) 3 submit_new (tpool_new 1) = (a, p')" by fastforce
  with submit_returns_outcome [OF a, of "Inr 42"] show ?thesis by fastforce
qed

end
