(* ===== verification/Io_Ops.thy ===== *)
theory Io_Ops
  imports Scheduler Byte_Buffer
begin

text \<open>
  The awaiters of single I/O operations (\<open>ops/*.hpp\<close>): what each puts into its submission
  entry, how it suspends, and what it returns when its completion arrives.  The receive into
  a \<open>Buffer\<close> lets the kernel write behind the readable bytes and then moves the index.
\<close>

section \<open>Submission entries\<close>

text \<open>The arguments of the \<open>io_uring_prep_*\<close> calls.\<close>

datatype sqe_fill =
    PrepAccept int
  | PrepRecv int nat nat                \<comment> \<open>descriptor, address, length\<close>
  | PrepSend int nat nat bool           \<comment> \<open>with \<open>MSG_NOSIGNAL\<close>\<close>
  | PrepReadFixed int nat nat int int   \<comment> \<open>descriptor, address, length, offset, buffer index\<close>
  | PrepWriteFixed int nat nat int int
  | PrepShutdown int int
  | PrepTimeout int int                 \<comment> \<open>seconds, nanoseconds\<close>

datatype op_error =
    NullSqe                             \<comment> \<open>the entry is null and is filled nevertheless\<close>
  | LostAwaiter                         \<comment> \<open>the completion names no live awaiter\<close>
  | Terminated                          \<comment> \<open>an exception leaves a \<open>noexcept\<close> function\<close>

definition suspend_op :: "sqe_fill \<Rightarrow> op_addr \<Rightarrow> handle \<Rightarrow> sched \<Rightarrow> op_error + (sqe_fill \<times> sched)" where
  "suspend_op f a h s =
     (case get_sqe (UdOp a) s of None \<Rightarrow> Inl NullSqe | Some s' \<Rightarrow> Inr (f, prepare_common a h s'))"

definition accept_suspend :: "int \<Rightarrow> op_addr \<Rightarrow> handle \<Rightarrow> sched \<Rightarrow> op_error + (sqe_fill \<times> sched)" where
  "accept_suspend listen_fd = suspend_op (PrepAccept listen_fd)"

definition recv_suspend :: "int \<Rightarrow> nat \<Rightarrow> nat \<Rightarrow> op_addr \<Rightarrow> handle \<Rightarrow> sched \<Rightarrow> op_error + (sqe_fill \<times> sched)" where
  "recv_suspend fd buf len = suspend_op (PrepRecv fd buf len)"

definition send_suspend :: "int \<Rightarrow> nat \<Rightarrow> nat \<Rightarrow> op_addr \<Rightarrow> handle \<Rightarrow> sched \<Rightarrow> op_error + (sqe_fill \<times> sched)" where
  "send_suspend fd buf len = suspend_op (PrepSend fd buf len True)"

definition recv_fixed_suspend :: "int \<Rightarrow> nat \<Rightarrow> nat \<Rightarrow> int \<Rightarrow> op_addr \<Rightarrow> handle \<Rightarrow> sched \<Rightarrow> op_error + (sqe_fill \<times> sched)" where
  "recv_fixed_suspend fd buf len idx = suspend_op (PrepReadFixed fd buf len 0 idx)"

definition send_fixed_suspend :: "int \<Rightarrow> nat \<Rightarrow> nat \<Rightarrow> int \<Rightarrow> op_addr \<Rightarrow> handle \<Rightarrow> sched \<Rightarrow> op_error + (sqe_fill \<times> sched)" where
  "send_fixed_suspend fd buf len idx = suspend_op (PrepWriteFixed fd buf len 0 idx)"

definition shutdown_suspend :: "int \<Rightarrow> int \<Rightarrow> op_addr \<Rightarrow> handle \<Rightarrow> sched \<Rightarrow> op_error + (sqe_fill \<times> sched)" where
  "shutdown_suspend fd how = suspend_op (PrepShutdown fd how)"

definition timeout_suspend :: "int \<Rightarrow> op_addr \<Rightarrow> handle \<Rightarrow> sched \<Rightarrow> op_error + (sqe_fill \<times> sched)" where
  "timeout_suspend ns = suspend_op (PrepTimeout (c_div ns 1000000000) (c_mod ns 1000000000))"

definition await_resume :: "op_addr \<Rightarrow> sched \<Rightarrow> int option" where
  "await_resume a s = map_option op_result (ops s a)"

section \<open>Receiving into a buffer\<close>

definition kMinRecvSize :: nat where
  "kMinRecvSize = 4096"

definition recv_into_suspend :: "int \<Rightarrow> op_addr \<Rightarrow> handle \<Rightarrow> buffer \<Rightarrow> sched \<Rightarrow> op_error + (buffer \<times> sqe_fill \<times> sched)" where
  "recv_into_suspend fd a h b s =
     (case ensureWritableBytes kMinRecvSize b of
        Inl e \<Rightarrow> Inl Terminated
      | Inr b' \<Rightarrow> rbind (suspend_op (PrepRecv fd (beginWrite b') (writableBytes b')) a h s)
                    (\<lambda>(f, s'). Inr (b', f, s')))"

text \<open>What the kernel does before the completion: it puts the received bytes at the address given.\<close>

definition kernel_receive :: "string \<Rightarrow> buffer \<Rightarrow> buffer" where
  "kernel_receive bs b = b\<lparr>buf_data := mem_write (buf_data b) (beginWrite b) bs\<rparr>"

definition recv_into_on_complete :: "op_addr \<Rightarrow> int \<Rightarrow> nat \<Rightarrow> buffer \<Rightarrow> sched \<Rightarrow> op_error + (buffer \<times> sched)" where
  "recv_into_on_complete a res flags b s =
     (case op_on_complete a res flags s of
        Inl e \<Rightarrow> Inl LostAwaiter
      | Inr s' \<Rightarrow>
          if res > 0
          then (case hasWritten (nat res) b of Inl e \<Rightarrow> Inl Terminated | Inr b' \<Rightarrow> Inr (b', s'))
          else Inr (b, s'))"

text \<open>The rest of \<open>RecvIntoBufferAwaiter\<close>: never ready, and its result is the number received.\<close>

definition recv_into_await_ready :: bool where
  "recv_into_await_ready = False"

definition recv_into_await_resume :: "op_addr \<Rightarrow> sched \<Rightarrow> int option" where
  "recv_into_await_resume a s = map_option op_result (ops s a)"

section \<open>Properties\<close>

lemma suspend_op_result:
  "suspend_op f a h s = Inr (g, s') \<Longrightarrow> g = f \<and> s' = prepare_common a h (s\<lparr>sq := sq s @ [UdOp a]\<rparr>)"
  by (auto simp: suspend_op_def get_sqe_def split: option.splits if_splits)

lemma suspend_op_ok:
  "length (sq s) < sq_entries s \<Longrightarrow> suspend_op f a h s = Inr (f, prepare_common a h (s\<lparr>sq := sq s @ [UdOp a]\<rparr>))"
  by (simp add: suspend_op_def get_sqe_def)

lemma complete_after_suspend:
  assumes "suspend_op f a h s = Inr (g, s1)" and "runnable s h"
  shows "\<exists>s2. op_on_complete a res flags s1 = Inr s2 \<and> ready s2 = ready s @ [h] \<and> await_resume a s2 = Some res"
  using suspend_op_result [OF assms(1)] assms(2)
  by (auto simp: op_on_complete_def prepare_common_def push_ready_def runnable_def await_resume_def Let_def)

text \<open>One operation.  An awaiter that suspends with a free entry queues exactly one entry
  that carries its own address; when the completion with that address arrives, the suspended
  coroutine is made ready once and \<open>co_await\<close> yields the result of the completion.\<close>

theorem awaiter_round_trip:
  assumes "length (sq s) < sq_entries s" and "runnable s h"
  shows "\<exists>s1 s2. send_suspend fd p len a h s = Inr (PrepSend fd p len True, s1) \<and> sq s1 = sq s @ [UdOp a]
    \<and> dispatch \<lparr>cqe_data = UdOp a, cqe_res = res, cqe_more = False\<rparr> s1 = Inr s2
    \<and> ready s2 = ready s @ [h] \<and> await_resume a s2 = Some res"
proof -
  let ?s1 = "prepare_common a h (s\<lparr>sq := sq s @ [UdOp a]\<rparr>)"
  have sus: "suspend_op (PrepSend fd p len True) a h s = Inr (PrepSend fd p len True, ?s1)"
    by (rule suspend_op_ok [OF assms(1)])
  moreover obtain s2 where "op_on_complete a res 0 ?s1 = Inr s2" "ready s2 = ready s @ [h]" "await_resume a s2 = Some res"
    using complete_after_suspend [OF sus assms(2), of res 0] by blast
  ultimately show ?thesis
    by (intro exI [of _ ?s1] exI [of _ s2]) (simp add: send_suspend_def dispatch_def prepare_common_def)
qed

text \<open>With a full submission queue every awaiter fills a null entry: none handles the
  null pointer that the comment of \<open>get_sqe\<close> asks its callers to handle.\<close>

theorem full_queue_breaks_awaiters:
  assumes "sq_entries s \<le> length (sq s)"
  shows "accept_suspend fd a h s = Inl NullSqe \<and> recv_suspend fd p n a h s = Inl NullSqe
    \<and> send_suspend fd p n a h s = Inl NullSqe \<and> recv_fixed_suspend fd p n i a h s = Inl NullSqe
    \<and> send_fixed_suspend fd p n i a h s = Inl NullSqe \<and> shutdown_suspend fd how a h s = Inl NullSqe
    \<and> timeout_suspend ns a h s = Inl NullSqe"
  using assms by (simp add: accept_suspend_def recv_suspend_def send_suspend_def recv_fixed_suspend_def
      send_fixed_suspend_def shutdown_suspend_def timeout_suspend_def suspend_op_def get_sqe_def)

lemma recv_into_ok:
  assumes "buffer_ok b" and "writerIndex b + kMinRecvSize \<le> vec_max"
    and "length (sq s) < sq_entries s" and "runnable s h"
  shows "\<exists>b1 n s1. recv_into_suspend fd a h b s = Inr (b1, PrepRecv fd (writerIndex b1) n, s1)
    \<and> kMinRecvSize \<le> n \<and> writerIndex b1 + n \<le> length (buf_data b1)
    \<and> (\<forall>bs. bs \<noteq> [] \<and> length bs \<le> n \<longrightarrow>
         (\<exists>b2 s2. recv_into_on_complete a (int (length bs)) 0 (kernel_receive bs b1) s1 = Inr (b2, s2)
            \<and> buffer_ok b2 \<and> contents b2 = contents b @ bs
            \<and> ready s2 = ready s @ [h] \<and> await_resume a s2 = Some (int (length bs))))"
proof -
  obtain b1 where b1: "ensureWritableBytes kMinRecvSize b = Inr b1" "buffer_ok b1" "contents b1 = contents b"
      "kMinRecvSize \<le> writableBytes b1"
    using ensureWritableBytes_ok [OF assms(1,2)] by blast
  let ?f = "PrepRecv fd (writerIndex b1) (writableBytes b1)"
  let ?s1 = "prepare_common a h (s\<lparr>sq := sq s @ [UdOp a]\<rparr>)"
  have sus: "suspend_op ?f a h s = Inr (?f, ?s1)" by (rule suspend_op_ok [OF assms(3)])
  have comp: "\<exists>b2 s2. recv_into_on_complete a (int (length bs)) 0 (kernel_receive bs b1) ?s1 = Inr (b2, s2)
            \<and> buffer_ok b2 \<and> contents b2 = contents b @ bs
            \<and> ready s2 = ready s @ [h] \<and> await_resume a s2 = Some (int (length bs))"
    if bs: "bs \<noteq> []" "length bs \<le> writableBytes b1" for bs
  proof -
    obtain b2 where "hasWritten (length bs) (kernel_receive bs b1) = Inr b2" "buffer_ok b2" "contents b2 = contents b1 @ bs"
      using write_hasWritten_ok [OF b1(2) bs(2)] by (auto simp: kernel_receive_def)
    then show ?thesis
      using complete_after_suspend [OF sus assms(4), of "int (length bs)" 0] bs(1) b1(3)
      by (auto simp: recv_into_on_complete_def)
  qed
  have "recv_into_suspend fd a h b s = Inr (b1, ?f, ?s1)"
    using b1(1) sus by (simp add: recv_into_suspend_def beginWrite_def)
  then show ?thesis using comp b1 buffer_ok_bounds [OF b1(2)] by (intro exI [of _ b1] exI [of _ "writableBytes b1"] exI [of _ ?s1]) auto
qed

text \<open>A receive that fails, or finds the stream ended, leaves the buffer alone.\<close>

lemma recv_into_nothing:
  assumes "recv_into_suspend fd a h b s = Inr (b1, f, s1)" and "res \<le> 0"
  shows "\<exists>s2. recv_into_on_complete a res flags b2 s1 = Inr (b2, s2)"
proof -
  obtain g where "suspend_op g a h s = Inr (f, s1)"
    using assms(1) by (auto simp: recv_into_suspend_def rbind_eq_Inr split: sum.splits)
  from suspend_op_result [OF this] have "ops s1 a \<noteq> None" by (simp add: prepare_common_def)
  then show ?thesis using assms(2) by (auto simp: recv_into_on_complete_def op_on_complete_def Let_def)
qed

text \<open>Receiving.  A receive always offers the kernel at least 4096 bytes of space, all of
  them inside the buffer; whatever the kernel puts there is appended to the readable bytes,
  nothing else changes, and the call returns the number of bytes.\<close>

theorem recv_appends_received:
  assumes "buffer_ok b" and "writerIndex b + kMinRecvSize \<le> vec_max"
    and "length (sq s) < sq_entries s" and "runnable s h"
  shows "\<exists>b1 n s1. recv_into_suspend fd a h b s = Inr (b1, PrepRecv fd (writerIndex b1) n, s1)
    \<and> kMinRecvSize \<le> n \<and> writerIndex b1 + n \<le> length (buf_data b1)
    \<and> (\<forall>bs. bs \<noteq> [] \<and> length bs \<le> n \<longrightarrow>
         (\<exists>b2 s2. recv_into_on_complete a (int (length bs)) 0 (kernel_receive bs b1) s1 = Inr (b2, s2)
            \<and> buffer_ok b2 \<and> contents b2 = contents b @ bs
            \<and> ready s2 = ready s @ [h] \<and> await_resume a s2 = Some (int (length bs))))"
  using recv_into_ok [OF assms] .

theorem awaiter_round_trip_witness:
  "\<exists>s1. send_suspend 3 64 10 7 9 (sched_new 8) = Inr (PrepSend 3 64 10 True, s1) \<and> sq s1 = [UdOp 7]"
  using awaiter_round_trip [of "sched_new 8" 9 3 64 10 7] by (auto simp: sched_new_def runnable_def)

theorem full_queue_breaks_awaiters_witness: "send_suspend 3 64 10 7 9 ((sched_new 1)\<lparr>sq := [UdWake]\<rparr>) = Inl NullSqe"
  using full_queue_breaks_awaiters [of "(sched_new 1)\<lparr>sq := [UdWake]\<rparr>" 3 7 9 64 10] by (simp add: sched_new_def)

theorem recv_appends_received_witness:
  "\<exists>b1 n s1. recv_into_suspend 3 7 9 \<lparr>buf_data = replicate 16 (CHR ''x''), readerIndex = 8, writerIndex = 10\<rparr> (sched_new 8)
     = Inr (b1, PrepRecv 3 (writerIndex b1) n, s1) \<and> 4096 \<le> n"
  using recv_appends_received [of "\<lparr>buf_data = replicate 16 (CHR ''x''), readerIndex = 8, writerIndex = 10\<rparr>" "sched_new 8" 9 3 7]
  by (auto simp: buffer_ok_def kCheapPrepend_def vec_max_def kMinRecvSize_def sched_new_def runnable_def)

end
