(* ===== verification/C_Strings.thy ===== *)
theory C_Strings
  imports Coro_Prelude
begin

text \<open>
  The C and C++ conversions between decimal text and integers that the address class and the
  command lines use: \<open>strtol\<close>, \<open>strtoul\<close>, \<open>atoi\<close>, \<open>std::stoi\<close> and \<open>std::to_string\<close>, on 64-bit
  \<open>long\<close> and 32-bit \<open>int\<close>.  A C string is the list of its characters without the final NUL.  The
  collection \<open>dec_simps\<close> reads printed numbers back.
\<close>

named_theorems dec_simps \<open>decimal text read back\<close>

section \<open>Digits\<close>

definition is_digit :: "char \<Rightarrow> bool" where
  "is_digit c \<longleftrightarrow> 48 \<le> (of_char c :: nat) \<and> (of_char c :: nat) \<le> 57"

definition digit_val :: "char \<Rightarrow> nat" where
  "digit_val c = of_char c - 48"

definition digit_char :: "nat \<Rightarrow> char" where
  "digit_char d = char_of (48 + d)"

lemma of_char_digit_char: "d < 10 \<Longrightarrow> of_char (digit_char d) = 48 + d"
  by (simp add: digit_char_def)

lemma digit_char_simps [dec_simps]: "d < 10 \<Longrightarrow> is_digit (digit_char d)" "d < 10 \<Longrightarrow> digit_val (digit_char d) = d"
  by (simp_all add: is_digit_def digit_val_def of_char_digit_char)

definition dec_val :: "string \<Rightarrow> nat" where
  "dec_val s = foldl (\<lambda>a c. a * 10 + digit_val c) 0 s"

lemma dec_val_snoc: "dec_val (s @ [c]) = dec_val s * 10 + digit_val c"
  by (simp add: dec_val_def)

text \<open>\<open>std::to_string\<close> of an unsigned number.\<close>

fun dec :: "nat \<Rightarrow> string" where
  "dec n = (if n < 10 then [digit_char n] else dec (n div 10) @ [digit_char (n mod 10)])"

declare dec.simps [simp del]

lemma dec_digits: "list_all is_digit (dec n) \<and> dec n \<noteq> []"
proof (induction n rule: dec.induct)
  case (1 n)
  then show ?case by (simp add: dec.simps [of n] digit_char_simps)
qed

lemma dec_val_dec [dec_simps]: "dec_val (dec n) = n"
proof (induction n rule: dec.induct)
  case (1 n)
  then show ?case
    by (auto simp: dec.simps [of n] dec_val_snoc digit_char_simps) (simp add: dec_val_def digit_char_simps)
qed

lemma dec_inj: "dec m = dec n \<longleftrightarrow> m = n"
  by (metis dec_val_dec)

text \<open>Digits without a superfluous zero in front are what printing gives.\<close>

definition canonical_digits :: "string \<Rightarrow> bool" where
  "canonical_digits ds \<longleftrightarrow> ds \<noteq> [] \<and> list_all is_digit ds \<and> (hd ds = CHR ''0'' \<longrightarrow> length ds = 1)"

lemma char_of_zero [simp]: "char_of (48::nat) = CHR ''0''"
  by code_simp

lemma digit_char_val: "is_digit c \<Longrightarrow> digit_val c < 10 \<and> digit_char (digit_val c) = c"
  by (auto simp: is_digit_def digit_val_def digit_char_def)

lemma digit_val_pos: "is_digit c \<Longrightarrow> c \<noteq> CHR ''0'' \<Longrightarrow> 0 < digit_val c"
  using digit_char_val [of c] by (cases "digit_val c = 0") (auto simp: digit_char_def)

lemma dec_of_digits: "canonical_digits ds \<Longrightarrow> dec (dec_val ds) = ds \<and> (hd ds \<noteq> CHR ''0'' \<longrightarrow> 0 < dec_val ds)"
proof (induction ds rule: rev_induct)
  case Nil
  then show ?case by (simp add: canonical_digits_def)
next
  case (snoc c ds)
  have c: "is_digit c" using snoc.prems by (simp add: canonical_digits_def)
  note d = digit_char_val [OF c]
  show ?case
  proof (cases "ds = []")
    case True
    then show ?thesis using d c digit_val_pos [OF c] by (simp add: dec_val_def dec.simps)
  next
    case False
    then have z: "hd ds \<noteq> CHR ''0''" "canonical_digits ds" using snoc.prems by (auto simp: canonical_digits_def)
    with snoc.IH have "dec (dec_val ds) = ds" "0 < dec_val ds" by auto
    then show ?thesis using d False z(1) by (simp add: dec_val_snoc dec.simps [of "dec_val ds * 10 + digit_val c"])
  qed
qed

lemma canonical_dec [dec_simps]: "canonical_digits (dec n)"
proof -
  have "hd (dec n) = CHR ''0'' \<Longrightarrow> n = 0"
  proof (induction n rule: dec.induct)
    case (1 n)
    show ?case
    proof (cases "n < 10")
      case True
      then show ?thesis using 1(2) digit_char_simps(2) [OF True] by (simp add: dec.simps [of n] digit_val_def)
    next
      case False
      then have "hd (dec (n div 10)) = CHR ''0''" using 1(2) dec_digits [of "n div 10"] by (simp add: dec.simps [of n])
      with 1(1) False show ?thesis by auto
    qed
  qed
  moreover have "length (dec 0) = 1" by (simp add: dec.simps)
  ultimately show ?thesis using dec_digits [of n] by (auto simp: canonical_digits_def)
qed

lemma length_dec: "n < 10 ^ Suc k \<Longrightarrow> length (dec n) \<le> Suc k"
proof (induction k arbitrary: n)
  case 0
  then show ?case by (subst dec.simps) simp
next
  case (Suc k)
  then have "n div 10 < 10 ^ Suc k" by (simp add: div_less_iff_less_mult mult.commute)
  from Suc.IH [OF this] show ?case by (subst dec.simps) simp
qed

text \<open>The longest prefix of digits, and the text behind it.\<close>

definition span_digits :: "string \<Rightarrow> string \<times> string" where
  "span_digits s = (takeWhile is_digit s, dropWhile is_digit s)"

lemma span_dec [dec_simps]:
  assumes "rest = [] \<or> \<not> is_digit (hd rest)"
  shows "span_digits (dec n @ rest) = (dec n, rest)"
  using dec_digits [of n] assms
  by (auto simp: span_digits_def list_all_iff takeWhile_append dropWhile_append takeWhile_eq_Nil_iff dropWhile_eq_Nil_conv
      dropWhile_eq_self_iff)

section \<open>Reading numbers\<close>

definition is_space :: "char \<Rightarrow> bool" where
  "is_space c \<longleftrightarrow> (let n = of_char c :: nat in n = 32 \<or> (9 \<le> n \<and> n \<le> 13))"

text \<open>
  The common scan of \<open>strtol\<close> and \<open>strtoul\<close> in base 10: white space, a sign, digits.  \<^const>\<open>None\<close>: no
  digits, then \<open>*end\<close> is the start of the text.
\<close>

definition scan_int :: "string \<Rightarrow> (bool \<times> nat \<times> string) option" where
  "scan_int s =
     (let t = dropWhile is_space s;
          neg = (t \<noteq> [] \<and> hd t = CHR ''-'');
          u = (if t \<noteq> [] \<and> (hd t = CHR ''-'' \<or> hd t = CHR ''+'') then tl t else t);
          (ds, rest) = span_digits u
      in if ds = [] then None else Some (neg, dec_val ds, rest))"

definition strtol :: "string \<Rightarrow> int \<times> string" where
  "strtol s = (case scan_int s of None \<Rightarrow> (0, s)
     | Some (neg, n, rest) \<Rightarrow> (if neg then max (- (2 ^ 63)) (- int n) else min (2 ^ 63 - 1) (int n), rest))"

definition strtoul :: "string \<Rightarrow> nat \<times> string" where
  "strtoul s = (case scan_int s of None \<Rightarrow> (0, s)
     | Some (neg, n, rest) \<Rightarrow> (if n > sz_max then sz_max else if neg then sz_sub 0 n else n, rest))"

text \<open>The conversion of a \<open>long\<close> to \<open>int\<close>.\<close>

definition i32 :: "int \<Rightarrow> int" where
  "i32 x = (x + 2 ^ 31) mod 2 ^ 32 - 2 ^ 31"

lemma i32_id [dec_simps]: "- (2 ^ 31) \<le> x \<Longrightarrow> x < 2 ^ 31 \<Longrightarrow> i32 x = x"
  by (simp add: i32_def)

lemma i32_range: "- (2 ^ 31) \<le> i32 x \<and> i32 x < 2 ^ 31"
proof -
  have "0 \<le> (x + 2 ^ 31) mod 2 ^ 32" and "(x + 2 ^ 31) mod 2 ^ 32 < 2 ^ 32" by simp_all
  then show ?thesis unfolding i32_def by simp
qed

definition atoi :: "string \<Rightarrow> int" where
  "atoi s = i32 (fst (strtol s))"

datatype conv_error = InvalidArgument | OutOfRange

definition stoi :: "string \<Rightarrow> conv_error + int" where
  "stoi s = (case scan_int s of None \<Rightarrow> Inl InvalidArgument
     | Some (neg, n, rest) \<Rightarrow>
         (let v = (if neg then - int n else int n)
          in if v < - (2 ^ 31) \<or> v \<ge> 2 ^ 31 then Inl OutOfRange else Inr v))"

lemma digit_not_space: "is_digit c \<Longrightarrow> \<not> is_space c \<and> c \<noteq> CHR ''-'' \<and> c \<noteq> CHR ''+''"
  by (auto simp: is_digit_def is_space_def Let_def)

lemma scan_dec [dec_simps]:
  assumes "rest = [] \<or> \<not> is_digit (hd rest)"
  shows "scan_int (dec n @ rest) = Some (False, n, rest)"
proof -
  obtain c cs where c: "dec n = c # cs" "is_digit c" using dec_digits [of n] by (cases "dec n") auto
  have "dropWhile is_space (dec n @ rest) = dec n @ rest" using c digit_not_space [of c] by simp
  moreover have "hd (dec n @ rest) \<noteq> CHR ''-''" "hd (dec n @ rest) \<noteq> CHR ''+''" using c digit_not_space [of c] by auto
  ultimately show ?thesis using span_dec [OF assms, of n] c(1) dec_val_dec [of n] by (simp add: scan_int_def Let_def)
qed

lemma strtol_dec [dec_simps]:
  "rest = [] \<or> \<not> is_digit (hd rest) \<Longrightarrow> n < 2 ^ 63 \<Longrightarrow> strtol (dec n @ rest) = (int n, rest)"
  by (simp add: strtol_def scan_dec)

lemma strtoul_dec [dec_simps]:
  "rest = [] \<or> \<not> is_digit (hd rest) \<Longrightarrow> n \<le> sz_max \<Longrightarrow> strtoul (dec n @ rest) = (n, rest)"
  by (simp add: strtoul_def scan_dec)

text \<open>Printing an \<open>int\<close> and reading it back.\<close>

definition dec_int :: "int \<Rightarrow> string" where
  "dec_int v = (if v < 0 then ''-'' @ dec (nat (- v)) else dec (nat v))"

lemma scan_neg_dec [dec_simps]: "scan_int (CHR ''-'' # dec n) = Some (True, n, [])"
  using span_dec [of "[]" n] dec_digits [of n] by (simp add: scan_int_def is_space_def Let_def dec_val_dec)

lemma atoi_dec_int [dec_simps]: "- (2 ^ 31) \<le> v \<Longrightarrow> v < 2 ^ 31 \<Longrightarrow> atoi (dec_int v) = v"
  using scan_dec [of "[]" "nat v"] scan_neg_dec [of "nat (- v)"] i32_id [of v]
  by (auto simp: atoi_def dec_int_def strtol_def)

text \<open>A conversion that succeeds consumes something: loops over the text end.\<close>

lemma scan_int_rest:
  assumes "scan_int s = Some (neg, n, rest)"
  shows "length rest < length s"
proof -
  define t where "t = dropWhile is_space s"
  define u where "u = (if t \<noteq> [] \<and> (hd t = CHR ''-'' \<or> hd t = CHR ''+'') then tl t else t)"
  have "takeWhile is_digit u \<noteq> []" "rest = dropWhile is_digit u"
    using assms by (auto simp: scan_int_def Let_def span_digits_def t_def [symmetric] u_def [symmetric] split: if_splits)
  then have "length rest < length u"
    by (metis length_append length_greater_0_conv less_add_same_cancel2 takeWhile_dropWhile_id)
  also have "length u \<le> length t" by (simp add: u_def)
  also have "\<dots> \<le> length s" by (simp add: t_def length_dropWhile_le)
  finally show ?thesis .
qed

lemma strtol_end: "snd (strtol s) \<noteq> s \<Longrightarrow> length (snd (strtol s)) < length s"
  by (auto simp: strtol_def scan_int_rest split: option.splits)

end
