(* ===== verification/Inet_Address.thy ===== *)
theory Inet_Address
  imports C_Strings
begin

unbundle bit_operations_syntax

text \<open>
  \<open>InetAddress\<close> (\<open>inet_address.hpp\<close>): a \<open>sockaddr_in\<close> built from a port and a dotted address, and
  the way back.  Ports are 16-bit words on a little-endian machine, so that the network byte order
  is a swap of two bytes; \<open>inet_pton\<close> and \<open>inet_ntop\<close> are those of the C library for IPv4.
\<close>

section \<open>Byte order and dotted addresses\<close>

definition htons :: "16 word \<Rightarrow> 16 word" where
  "htons w = push_bit 8 w OR drop_bit 8 w"

definition ntohs :: "16 word \<Rightarrow> 16 word" where
  "ntohs w = push_bit 8 w OR drop_bit 8 w"

lemma ntohs_htons [simp]: "ntohs (htons w) = w" "htons (ntohs w) = w"
  unfolding htons_def ntohs_def by (rule bit_word_eqI; auto simp: bit_simps)+

datatype in_addr = Octets "8 word" "8 word" "8 word" "8 word"

fun inet_ntop :: "in_addr \<Rightarrow> string" where
  "inet_ntop (Octets a b c d) =
     dec (unat a) @ ''.'' @ dec (unat b) @ ''.'' @ dec (unat c) @ ''.'' @ dec (unat d)"

text \<open>One number: decimal, at most 255, no superfluous zeros.\<close>

definition pton_octet :: "string \<Rightarrow> (8 word \<times> string) option" where
  "pton_octet s = (let (ds, rest) = span_digits s in
     if canonical_digits ds \<and> dec_val ds \<le> 255 then Some (of_nat (dec_val ds), rest) else None)"

definition pton_dot :: "string \<Rightarrow> string option" where
  "pton_dot s = (case s of c # rest \<Rightarrow> if c = CHR ''.'' then Some rest else None | [] \<Rightarrow> None)"

definition inet_pton :: "string \<Rightarrow> in_addr option" where
  "inet_pton s =
     Option.bind (pton_octet s) (\<lambda>(a, s). Option.bind (pton_dot s) (\<lambda>s.
     Option.bind (pton_octet s) (\<lambda>(b, s). Option.bind (pton_dot s) (\<lambda>s.
     Option.bind (pton_octet s) (\<lambda>(c, s). Option.bind (pton_dot s) (\<lambda>s.
     Option.bind (pton_octet s) (\<lambda>(d, s). if s = [] then Some (Octets a b c d) else None)))))))"

lemma pton_octet_dec:
  assumes "rest = [] \<or> \<not> is_digit (hd rest)"
  shows "pton_octet (dec (unat a) @ rest) = Some (a, rest)"
  using span_dec [OF assms, of "unat a"] canonical_dec [of "unat a"] unsigned_less [of a, where ?'a = nat]
  by (simp add: pton_octet_def dec_val_dec)

lemma pton_octet_SomeD: "pton_octet s = Some (a, rest) \<Longrightarrow> s = dec (unat a) @ rest"
  using dec_of_digits [of "takeWhile is_digit s"]
  by (auto simp: pton_octet_def span_digits_def Let_def unat_of_nat split: if_splits)

lemma pton_dot_SomeD: "pton_dot s = Some rest \<Longrightarrow> s = ''.'' @ rest"
  by (auto simp: pton_dot_def split: list.splits if_splits)

lemma dot_not_digit [simp]: "\<not> is_digit CHR ''.''" "\<not> is_digit CHR '':''" "\<not> is_digit CHR '',''"
  by (simp_all add: is_digit_def)

lemma inet_pton_ntop: "inet_pton (inet_ntop a) = Some a"
proof (cases a)
  case (Octets a b c d)
  have dot: "pton_dot (CHR ''.'' # t) = Some t" for t by (simp add: pton_dot_def)
  have oct: "pton_octet (dec (unat x) @ CHR ''.'' # t) = Some (x, CHR ''.'' # t)" for x t
    by (rule pton_octet_dec) simp
  have end_oct: "pton_octet (dec (unat d)) = Some (d, [])" using pton_octet_dec [of "[]" d] by simp
  show ?thesis unfolding Octets by (simp add: inet_pton_def oct dot end_oct)
qed

lemma inet_ntop_pton: "inet_pton s = Some a \<Longrightarrow> inet_ntop a = s"
  by (auto simp: inet_pton_def Option.bind_eq_Some_conv split: if_splits dest!: pton_octet_SomeD pton_dot_SomeD)

section \<open>The class\<close>

definition AF_INET :: nat where "AF_INET = 2"

record sockaddr_in =
  sin_family :: nat
  sin_port :: "16 word"               \<comment> \<open>in network byte order\<close>
  sin_addr :: in_addr
  sin_zero :: "8 word list"

text \<open>\<open>c_str()\<close>, as a C function reads it: up to the first NUL.\<close>

definition c_str :: "string \<Rightarrow> string" where
  "c_str s = takeWhile (\<lambda>c. c \<noteq> CHR 0x00) s"

lemma inet_ntop_chars: "c \<in> set (inet_ntop a) \<Longrightarrow> is_digit c \<or> c = CHR ''.''"
  using dec_digits by (cases a) (auto simp: list_all_iff)

lemma c_str_ntop [simp]: "c_str (inet_ntop a) = inet_ntop a"
  unfolding c_str_def takeWhile_eq_all_conv using inet_ntop_chars [of "CHR 0x00" a] by (auto simp: is_digit_def)

text \<open>The constructor: the result of \<open>inet_pton\<close> is not looked at, a refused text leaves zeros behind.\<close>

definition inet_address :: "16 word \<Rightarrow> string \<Rightarrow> sockaddr_in" where
  "inet_address p s =
     (let addr = \<lparr>sin_family = 0, sin_port = 0, sin_addr = Octets 0 0 0 0, sin_zero = replicate 8 0\<rparr>;
          addr = addr\<lparr>sin_family := AF_INET\<rparr>;
          addr = addr\<lparr>sin_port := htons p\<rparr>
      in case inet_pton (c_str s) of None \<Rightarrow> addr | Some a \<Rightarrow> addr\<lparr>sin_addr := a\<rparr>)"

definition inet_address_default_ip :: string where
  "inet_address_default_ip = ''0.0.0.0''"

definition inet_address_of :: "sockaddr_in \<Rightarrow> sockaddr_in" where
  "inet_address_of a = a"

definition port :: "sockaddr_in \<Rightarrow> 16 word" where
  "port a = ntohs (sin_port a)"

definition ip :: "sockaddr_in \<Rightarrow> string" where
  "ip a = inet_ntop (sin_addr a)"

definition to_string :: "sockaddr_in \<Rightarrow> string" where
  "to_string a = ip a @ '':'' @ dec (unat (port a))"

text \<open>\<open>inet_ntop\<close> is given 16 bytes (\<open>INET_ADDRSTRLEN\<close>), which always suffice.\<close>

lemma ip_fits: "length (ip a) < 16"
proof (cases "sin_addr a")
  case (Octets x y z w)
  have "length (dec (unat b)) \<le> 3" for b :: "8 word"
    using length_dec [of "unat b" 2] unsigned_less [of b, where ?'a = nat] by simp
  from this [of x] this [of y] this [of z] this [of w] show ?thesis by (simp add: ip_def Octets)
qed

text \<open>A text that is no address is taken for \<open>0.0.0.0\<close>: a misspelt host listens on all interfaces.\<close>

lemma misspelt_ip_is_any: "ip (inet_address 8002 ''localhost'') = ''0.0.0.0'' \<and> ip (inet_address 8002 ''127.0.0.01'') = ''0.0.0.0''"
  by code_simp

lemma inet_address_rebuilt:
  assumes "sin_family a = AF_INET" and "sin_zero a = replicate 8 0"
  shows "inet_address (port a) (ip a) = a"
  using assms by (simp add: inet_address_def ip_def port_def inet_pton_ntop Let_def)

lemma to_string_parts:
  assumes "to_string b = to_string a"
  shows "ip b = ip a \<and> port b = port a"
proof -
  have no: "CHR '':'' \<notin> set (ip x)" for x using inet_ntop_chars [of "CHR '':''"] by (auto simp: ip_def)
  have "takeWhile (\<lambda>c. c \<noteq> CHR '':'') (to_string x) = ip x" for x
    unfolding to_string_def using no [of x] by (subst takeWhile_append2) auto
  then have ip: "ip b = ip a" using assms by metis
  then have "dec (unat (port b)) = dec (unat (port a))" using assms by (simp add: to_string_def)
  then show ?thesis using ip by (simp add: dec_inj word_unat_eq_iff)
qed

section \<open>Properties\<close>

text \<open>
  C40: Addresses.  What was put in comes out: the port survives the change of byte order, an address
  text, read up to its first NUL, is returned unchanged when \<open>inet_pton\<close> accepts it (any other becomes
  \<open>0.0.0.0\<close>), every IPv4 socket address is rebuilt from the port and the text it reports, and
  \<open>to_string\<close> is different for different addresses.
\<close>

theorem address_round_trip:
  assumes "sin_family a = AF_INET" and "sin_zero a = replicate 8 0"
  shows "port (inet_address p s) = p
    \<and> ip (inet_address p s) = (if inet_pton (c_str s) = None then inet_address_default_ip else c_str s)
    \<and> inet_address (port a) (ip a) = a
    \<and> (\<forall>b. sin_family b = AF_INET \<and> sin_zero b = replicate 8 0 \<and> to_string b = to_string a \<longrightarrow> b = a)"
proof (intro conjI)
  show "port (inet_address p s) = p"
    by (simp add: inet_address_def port_def Let_def split: option.splits)
  show "ip (inet_address p s) = (if inet_pton (c_str s) = None then inet_address_default_ip else c_str s)"
    using inet_ntop_pton [of "c_str s"]
    by (auto simp: inet_address_def ip_def inet_address_default_ip_def dec.simps digit_char_def Let_def split: option.splits)
  show back_again: "inet_address (port a) (ip a) = a" by (rule inet_address_rebuilt [OF assms])
  show "\<forall>b. sin_family b = AF_INET \<and> sin_zero b = replicate 8 0 \<and> to_string b = to_string a \<longrightarrow> b = a"
    using to_string_parts inet_address_rebuilt back_again by metis
qed

theorem address_round_trip_witness:
  "ip (inet_address 8002 ''127.0.0.1'') = ''127.0.0.1''
   \<and> inet_address (port (inet_address 8002 ''10.1.2.3'')) (ip (inet_address 8002 ''10.1.2.3'')) = inet_address 8002 ''10.1.2.3''"
proof -
  have ok: "sin_family (inet_address 8002 ''10.1.2.3'') = AF_INET \<and> sin_zero (inet_address 8002 ''10.1.2.3'') = replicate 8 0"
    by (simp add: inet_address_def Let_def split: option.splits)
  have c: "c_str ''127.0.0.1'' = ''127.0.0.1''" by code_simp
  have "inet_pton ''127.0.0.1'' \<noteq> None" by code_simp
  with address_round_trip [OF conjunct1 [OF ok] conjunct2 [OF ok], of 8002 "''127.0.0.1''"] show ?thesis unfolding c by simp
qed

end
