(* ===== verification/Tcp_Connection.thy ===== *)
theory Tcp_Connection
  imports Buffer_Pool Idle_Wheel Io_Ops Inet_Address "HOL-Library.Multiset"
begin

text \<open>
  \<open>TcpConnection\<close> (\<open>tcp_connection.hpp\<close>, \<open>tcp_connection.cc\<close>): borrowing and returning a
  slot of the worker's buffer pool, the renewal of the idle entry after a receive, the two
  send loops and the fixed-buffer operations.  What the kernel answers to each request is an
  argument; a coroutine is cut at its \<open>co_await\<close>s.  The second half follows all connections
  of one worker and rests on the contract \<open>slot_pool\<close> of the pool.
\<close>

section \<open>The connection object\<close>

record tcp_conn =
  conn_fd :: int
  conn_peer :: sockaddr_in
  conn_ctx :: "nat option"            \<comment> \<open>the \<open>std::any\<close> of the user: nothing or an object\<close>
  conn_wheel :: bool                  \<comment> \<open>\<open>wheel_ != nullptr\<close>\<close>
  conn_entry :: "entry_id option"     \<comment> \<open>the weak pointer \<open>idle_entry_\<close>, \<^const>\<open>None\<close> when never set\<close>
  buf_index :: int
  slot_addr :: nat
  slot_len :: size_t

definition conn_new :: "int \<Rightarrow> sockaddr_in \<Rightarrow> buffer_pool option \<Rightarrow> tcp_conn \<times> buffer_pool option" where
  "conn_new fd peer pool =
     (let c = \<lparr>conn_fd = fd, conn_peer = peer, conn_ctx = None, conn_wheel = False, conn_entry = None, buf_index = - 1, slot_addr = 0, slot_len = 0\<rparr>
      in case pool of None \<Rightarrow> (c, None)
         | Some p \<Rightarrow>
             (let (idx, p') = pool_acquire p
              in if idx \<ge> 0
                 then (c\<lparr>buf_index := idx, slot_addr := slot_ptr p' idx, slot_len := pool_slot_size p'\<rparr>, Some p')
                 else (c, Some p')))"

text \<open>The destructor returns the pool and the descriptor it closes, if any.\<close>

definition conn_destroy :: "tcp_conn \<Rightarrow> buffer_pool option \<Rightarrow> buffer_pool option \<times> int list" where
  "conn_destroy c pool =
     ((if buf_index c \<ge> 0 then map_option (pool_release (buf_index c)) pool else pool),
      (if conn_fd c \<ge> 0 then [conn_fd c] else []))"

definition has_fixed_slot :: "tcp_conn \<Rightarrow> bool" where
  "has_fixed_slot c \<longleftrightarrow> buf_index c \<ge> 0"

definition set_context :: "nat option \<Rightarrow> tcp_conn \<Rightarrow> tcp_conn" where
  "set_context x c = c\<lparr>conn_ctx := x\<rparr>"

definition install_idle :: "entry_id \<Rightarrow> tcp_conn \<Rightarrow> tcp_conn" where
  "install_idle e c = c\<lparr>conn_wheel := True, conn_entry := Some e\<rparr>"

section \<open>Receiving\<close>

text \<open>\<open>recv\<close> and \<open>recv_fixed\<close> after their awaiter has returned \<open>n\<close>: the renewal.\<close>

definition recv_resume :: "tcp_conn \<Rightarrow> int \<Rightarrow> wheel \<Rightarrow> circ_error + wheel" where
  "recv_resume c n w =
     (if n > 0 \<and> conn_wheel c
      then (case conn_entry c of None \<Rightarrow> Inr w | Some e \<Rightarrow> refresh_weak e w)
      else Inr w)"

definition conn_recv :: "tcp_conn \<Rightarrow> op_addr \<Rightarrow> handle \<Rightarrow> buffer \<Rightarrow> sched \<Rightarrow> op_error + (buffer \<times> sqe_fill \<times> sched)" where
  "conn_recv c = recv_into_suspend (conn_fd c)"

definition conn_recv_fixed :: "tcp_conn \<Rightarrow> op_addr \<Rightarrow> handle \<Rightarrow> sched \<Rightarrow> op_error + (sqe_fill \<times> sched)" where
  "conn_recv_fixed c = recv_fixed_suspend (conn_fd c) (slot_addr c) (slot_len c mod 2 ^ 32) (buf_index c)"

definition recv_view :: "tcp_conn \<Rightarrow> int \<Rightarrow> int \<times> nat" where
  "recv_view c n = (n, slot_addr c)"

section \<open>Sending\<close>

text \<open>
  The loop of \<open>send\<close> and \<open>send_fixed\<close>.  \<open>fill p remaining\<close> is the request of one turn,
  \<open>k i f\<close> the result of the \<open>i\<close>-th one; the loop returns its value together with the list of
  requests and results.  It need not end for an arbitrary \<open>k\<close>.
\<close>

partial_function (option) send_loop ::
  "(nat \<Rightarrow> size_t \<Rightarrow> sqe_fill) \<Rightarrow> (nat \<Rightarrow> sqe_fill \<Rightarrow> int) \<Rightarrow> nat \<Rightarrow> nat \<Rightarrow> size_t \<Rightarrow> int
    \<Rightarrow> (sqe_fill \<times> int) list \<Rightarrow> (int \<times> (sqe_fill \<times> int) list) option" where
  "send_loop fill k i p remaining tot tr =
     (if remaining > 0
      then let f = fill p remaining; n = k i f in
           if n < 0 then Some (n, tr @ [(f, n)])
           else if n = 0 then Some (tot, tr @ [(f, n)])
           else send_loop fill k (Suc i) (sz_add p (nat n)) (sz_sub remaining (nat n)) (i64 (tot + n)) (tr @ [(f, n)])
      else Some (tot, tr))"

definition conn_send :: "tcp_conn \<Rightarrow> (nat \<Rightarrow> sqe_fill \<Rightarrow> int) \<Rightarrow> nat \<Rightarrow> size_t \<Rightarrow> (int \<times> (sqe_fill \<times> int) list) option" where
  "conn_send c k p len = send_loop (\<lambda>q r. PrepSend (conn_fd c) q r True) k 0 p len 0 []"

text \<open>The overload for a string, whose characters lie at \<open>p\<close>.\<close>

definition conn_send_string :: "tcp_conn \<Rightarrow> (nat \<Rightarrow> sqe_fill \<Rightarrow> int) \<Rightarrow> nat \<Rightarrow> string \<Rightarrow> (int \<times> (sqe_fill \<times> int) list) option" where
  "conn_send_string c k p s = conn_send c k p (length s)"

definition conn_send_fixed :: "tcp_conn \<Rightarrow> (nat \<Rightarrow> sqe_fill \<Rightarrow> int) \<Rightarrow> nat \<Rightarrow> size_t \<Rightarrow> (int \<times> (sqe_fill \<times> int) list) option" where
  "conn_send_fixed c k p len =
     send_loop (\<lambda>q r. PrepWriteFixed (conn_fd c) q (r mod 2 ^ 32) 0 (buf_index c)) k 0 p len 0 []"

definition SHUT_RDWR :: int where
  "SHUT_RDWR = 2"

definition conn_shutdown :: "tcp_conn \<Rightarrow> op_addr \<Rightarrow> handle \<Rightarrow> sched \<Rightarrow> op_error + (sqe_fill \<times> sched) option" where
  "conn_shutdown c a h s =
     (if conn_fd c < 0 then Inr None
      else rbind (shutdown_suspend (conn_fd c) SHUT_RDWR a h s) (\<lambda>r. Inr (Some r)))"

section \<open>All connections of one worker\<close>

record conn_world =
  w_pool :: "buffer_pool option"
  w_conns :: "conn_id \<rightharpoonup> tcp_conn"
  w_closed :: "int list"              \<comment> \<open>descriptors passed to \<open>close\<close>\<close>

datatype conn_event =
    Opened conn_id int sockaddr_in          \<comment> \<open>\<open>make_shared<TcpConnection>\<close> for an accepted descriptor\<close>
  | Dropped conn_id                   \<comment> \<open>the last shared pointer goes away\<close>

fun conn_step :: "conn_event \<Rightarrow> conn_world \<Rightarrow> conn_world option" where
  "conn_step (Opened c fd peer) w =
     (if w_conns w c = None
      then (let (x, pool) = conn_new fd peer (w_pool w) in Some (w\<lparr>w_pool := pool, w_conns := (w_conns w)(c \<mapsto> x)\<rparr>))
      else None)"
| "conn_step (Dropped c) w =
     (case w_conns w c of None \<Rightarrow> None
      | Some x \<Rightarrow> (let (pool, fds) = conn_destroy x (w_pool w)
                   in Some (w\<lparr>w_pool := pool, w_conns := (w_conns w)(c := None), w_closed := w_closed w @ fds\<rparr>)))"

fun conn_run :: "conn_event list \<Rightarrow> conn_world \<Rightarrow> conn_world option" where
  "conn_run [] w = Some w"
| "conn_run (v # vs) w = Option.bind (conn_step v w) (conn_run vs)"

definition world_new :: "buffer_pool option \<Rightarrow> conn_world" where
  "world_new pool = \<lparr>w_pool = pool, w_conns = Map.empty, w_closed = []\<rparr>"

fun opened_fds :: "conn_event list \<Rightarrow> int list" where
  "opened_fds [] = []"
| "opened_fds (Opened c fd peer # vs) = fd # opened_fds vs"
| "opened_fds (Dropped c # vs) = opened_fds vs"

section \<open>The send loop\<close>

text \<open>The bytes a request that was answered with \<open>n\<close> has put on the wire; \<open>mem\<close> is the memory.\<close>

fun accepted :: "(nat \<Rightarrow> char) \<Rightarrow> sqe_fill \<times> int \<Rightarrow> string" where
  "accepted mem (PrepSend fd p len nosig, n) = map mem [p ..< p + nat n]"
| "accepted mem (PrepWriteFixed fd p len off idx, n) = map mem [p ..< p + nat n]"
| "accepted mem (_, n) = []"

definition sent :: "(nat \<Rightarrow> char) \<Rightarrow> (sqe_fill \<times> int) list \<Rightarrow> string" where
  "sent mem tr = concat (map (accepted mem) tr)"

lemma sent_simps [simp]: "sent mem [] = []" "sent mem (x # tr) = accepted mem x @ sent mem tr"
  by (simp_all add: sent_def)

text \<open>\<open>send\<close> and \<open>write\<close> accept at most the length they are given.\<close>

fun sqe_len :: "sqe_fill \<Rightarrow> nat" where
  "sqe_len (PrepSend fd p len nosig) = len"
| "sqe_len (PrepWriteFixed fd p len off idx) = len"
| "sqe_len _ = 0"

definition kernel_ok :: "(nat \<Rightarrow> sqe_fill \<Rightarrow> int) \<Rightarrow> bool" where
  "kernel_ok k \<longleftrightarrow> (\<forall>i f. k i f \<le> int (sqe_len f))"

text \<open>As long as there is something to send it accepts some of it.\<close>

definition accepting :: "(nat \<Rightarrow> sqe_fill \<Rightarrow> int) \<Rightarrow> bool" where
  "accepting k \<longleftrightarrow> (\<forall>i f. 0 < sqe_len f \<longrightarrow> 0 < k i f)"

lemma upt_split: "a \<le> b \<Longrightarrow> b \<le> c \<Longrightarrow> [a ..< b] @ [b ..< c] = [a ..< c]"
  using upt_add_eq_append [of a b "c - b"] by simp

lemma send_loop_ok:
  assumes fill: "\<And>q r. 0 < r \<Longrightarrow> r \<le> R \<Longrightarrow> sqe_len (fill q r) = r"
    and acc: "\<And>q r n. accepted mem (fill q r, n) = map mem [q ..< q + nat n]"
    and k: "kernel_ok k"
  shows "remaining \<le> R \<Longrightarrow> p + remaining \<le> sz_max \<Longrightarrow> 0 \<le> tot \<Longrightarrow> tot + int remaining < 2 ^ 63 \<Longrightarrow>
    \<exists>r tr' m. send_loop fill k i p remaining tot tr = Some (r, tr @ tr') \<and> m \<le> remaining
      \<and> sent mem tr' = map mem [p ..< p + m]
      \<and> (0 \<le> r \<longrightarrow> r = tot + int m) \<and> (r < 0 \<longrightarrow> (\<exists>i f. r = k i f))
      \<and> (accepting k \<longrightarrow> m = remaining \<and> 0 \<le> r)
      \<and> list_all (\<lambda>(f, n). \<exists>q l. f = fill q l \<and> p \<le> q \<and> 0 < l \<and> l \<le> remaining \<and> q + l = p + remaining) tr'"
proof (induction remaining arbitrary: i p tot tr rule: less_induct)
  case (less remaining)
  show ?case
  proof (cases "remaining = 0")
    case True
    then show ?thesis using less.prems(3) by (subst send_loop.simps) auto
  next
    case False
    let ?f = "fill p remaining" and ?n = "k i (fill p remaining)"
    have le: "?n \<le> int remaining"
      using k fill [of remaining p] False less.prems(1) by (metis kernel_ok_def neq0_conv)
    have len: "0 < sqe_len ?f" using fill [of remaining p] False less.prems(1) by simp
    consider "?n < 0" | "?n = 0" | "0 < ?n" by linarith
    then show ?thesis
    proof cases
      case 1
      then have eq: "send_loop fill k i p remaining tot tr = Some (?n, tr @ [(?f, ?n)])"
        using False by (subst send_loop.simps) (simp add: Let_def)
      have "\<not> accepting k" using 1 len unfolding accepting_def by (metis less_irrefl less_asym)
      with 1 False show ?thesis unfolding eq
        by (intro exI [of _ ?n] exI [of _ "[(?f, ?n)]"] exI [of _ 0]) (auto simp: acc)
    next
      case 2
      then have eq: "send_loop fill k i p remaining tot tr = Some (tot, tr @ [(?f, ?n)])"
        using False by (subst send_loop.simps) (simp add: Let_def)
      have "\<not> accepting k" using 2 len unfolding accepting_def by (metis less_irrefl less_asym)
      with 2 False less.prems(3) show ?thesis unfolding eq
        by (intro exI [of _ tot] exI [of _ "[(?f, ?n)]"] exI [of _ 0]) (auto simp: acc)
    next
      case 3
      let ?c = "nat ?n"
      have c: "0 < ?c" "?c \<le> remaining" "int ?c = ?n" using 3 le by auto
      have m: "sz_add p ?c = p + ?c" "sz_sub remaining ?c = remaining - ?c" "i64 (tot + ?n) = tot + ?n"
        using c less.prems by (auto simp: sz_simps)
      have eq: "send_loop fill k i p remaining tot tr
          = send_loop fill k (Suc i) (p + ?c) (remaining - ?c) (tot + ?n) (tr @ [(?f, ?n)])"
        using 3 False by (subst send_loop.simps) (simp add: Let_def m)
      have "remaining - ?c < remaining" "remaining - ?c \<le> R" "p + ?c + (remaining - ?c) \<le> sz_max"
          "0 \<le> tot + ?n" "tot + ?n + int (remaining - ?c) < 2 ^ 63"
        using c less.prems by linarith+
      from less.IH [OF this, of "Suc i" "tr @ [(?f, ?n)]"] obtain r tr' m' where
        run: "send_loop fill k (Suc i) (p + ?c) (remaining - ?c) (tot + ?n) (tr @ [(?f, ?n)]) = Some (r, (tr @ [(?f, ?n)]) @ tr')"
        and m': "m' \<le> remaining - ?c"
        and s: "sent mem tr' = map mem [p + ?c ..< p + ?c + m']"
        and r: "0 \<le> r \<longrightarrow> r = tot + ?n + int m'" "r < 0 \<longrightarrow> (\<exists>i f. r = k i f)"
        and full: "accepting k \<longrightarrow> m' = remaining - ?c \<and> 0 \<le> r"
        and al: "list_all (\<lambda>(f, n). \<exists>q l. f = fill q l \<and> p + ?c \<le> q \<and> 0 < l \<and> l \<le> remaining - ?c
            \<and> q + l = p + ?c + (remaining - ?c)) tr'"
        by blast
      have "send_loop fill k i p remaining tot tr = Some (r, tr @ (?f, ?n) # tr')" unfolding eq run by simp
      moreover have "map mem [p ..< p + ?c] @ map mem [p + ?c ..< p + ?c + m'] = map mem [p ..< p + (?c + m')]"
        using upt_split [of p "p + ?c" "p + ?c + m'"] by (simp add: add.assoc flip: map_append)
      moreover have "list_all (\<lambda>(f, n). \<exists>q l. f = fill q l \<and> p \<le> q \<and> 0 < l \<and> l \<le> remaining \<and> q + l = p + remaining) tr'"
        unfolding list_all_iff
      proof clarify
        fix f n assume "(f, n) \<in> set tr'"
        then obtain q l where "f = fill q l" "p + ?c \<le> q" "0 < l" "l \<le> remaining - ?c"
            "q + l = p + ?c + (remaining - ?c)" using al by (auto simp: list_all_iff)
        then show "\<exists>q l. f = fill q l \<and> p \<le> q \<and> 0 < l \<and> l \<le> remaining \<and> q + l = p + remaining"
          using c(2) by (intro exI [of _ q] exI [of _ l]) auto
      qed
      ultimately show ?thesis using c False m' s r full
        by (intro exI [of _ r] exI [of _ "(?f, ?n) # tr'"] exI [of _ "?c + m'"]) (auto simp: acc)
    qed
  qed
qed

lemma send_loop_start:
  assumes "\<And>q r. 0 < r \<Longrightarrow> r \<le> len \<Longrightarrow> sqe_len (fill q r) = r"
    and "\<And>q r n. accepted mem (fill q r, n) = map mem [q ..< q + nat n]"
    and "kernel_ok k" and "p + len \<le> sz_max" and "len < 2 ^ 63"
  obtains r tr m where "send_loop fill k 0 p len 0 [] = Some (r, tr)" "m \<le> len" "sent mem tr = map mem [p ..< p + m]"
    "0 \<le> r \<longrightarrow> r = int m" "r < 0 \<longrightarrow> (\<exists>i f. r = k i f)" "accepting k \<longrightarrow> m = len \<and> 0 \<le> r"
    "list_all (\<lambda>(f, n). \<exists>q l. f = fill q l \<and> p \<le> q \<and> 0 < l \<and> l \<le> len \<and> q + l = p + len) tr"
proof -
  have "(0::int) + int len < 2 ^ 63" using assms(5) by simp
  from send_loop_ok [of len fill mem k len p 0 0 "[]", OF assms(1-3) order_refl assms(4) order_refl this]
  show thesis using that unfolding append_Nil add_0 by blast
qed

lemma conn_send_ok:
  assumes "kernel_ok k" and "p + length data \<le> sz_max" and "length data < 2 ^ 63"
    and "map mem [p ..< p + length data] = data"
  shows "\<exists>r tr m. conn_send c k p (length data) = Some (r, tr) \<and> m \<le> length data \<and> sent mem tr = take m data
    \<and> (0 \<le> r \<longrightarrow> r = int m) \<and> (r < 0 \<longrightarrow> (\<exists>i f. r = k i f))
    \<and> (accepting k \<longrightarrow> r = int (length data) \<and> sent mem tr = data)"
proof -
  have "take m data = map mem [p ..< p + m]" if "m \<le> length data" for m
    using that arg_cong [OF assms(4), of "take m"] by (simp add: take_map)
  moreover obtain r tr m where "conn_send c k p (length data) = Some (r, tr)" "m \<le> length data"
      "sent mem tr = map mem [p ..< p + m]" "0 \<le> r \<longrightarrow> r = int m" "r < 0 \<longrightarrow> (\<exists>i f. r = k i f)"
      "accepting k \<longrightarrow> m = length data \<and> 0 \<le> r"
    by (rule send_loop_start [of "length data" "\<lambda>q r. PrepSend (conn_fd c) q r True" mem k p])
      (use assms in \<open>simp_all add: conn_send_def\<close>)
  ultimately show ?thesis using assms(4) by (intro exI [of _ r] exI [of _ tr] exI [of _ m]) auto
qed

text \<open>
  C21: Sending.  \<open>send\<close> always returns when the kernel accepts no more than it is asked: what
  has gone out is a prefix of the data, a non-negative result is its length, a negative one is
  an error of the kernel, and as long as the kernel accepts something each time all of the data
  goes out, in order.
\<close>

theorem send_delivers_prefix:
  assumes "kernel_ok k" and "p + length data \<le> sz_max" and "length data < 2 ^ 63"
    and "map mem [p ..< p + length data] = data"
  shows "\<exists>r tr m. conn_send c k p (length data) = Some (r, tr) \<and> m \<le> length data \<and> sent mem tr = take m data
    \<and> (0 \<le> r \<longrightarrow> r = int m) \<and> (r < 0 \<longrightarrow> (\<exists>i f. r = k i f))
    \<and> (accepting k \<longrightarrow> r = int (length data) \<and> sent mem tr = data)"
  using conn_send_ok [OF assms] .

lemma conn_send_fixed_ok:
  assumes "kernel_ok k" and "p + len \<le> sz_max" and "len < 2 ^ 32"
    and "slot_addr c \<le> p" and "p + len \<le> slot_addr c + slot_len c"
  shows "\<exists>r tr m. conn_send_fixed c k p len = Some (r, tr) \<and> m \<le> len \<and> sent mem tr = map mem [p ..< p + m]
    \<and> (0 \<le> r \<longrightarrow> r = int m) \<and> (accepting k \<longrightarrow> m = len \<and> r = int len)
    \<and> (\<forall>(f, n) \<in> set tr. \<exists>q l. f = PrepWriteFixed (conn_fd c) q l 0 (buf_index c) \<and> 0 < l
         \<and> slot_addr c \<le> q \<and> q + l \<le> slot_addr c + slot_len c)"
proof -
  let ?fill = "\<lambda>q r. PrepWriteFixed (conn_fd c) q (r mod 2 ^ 32) 0 (buf_index c)"
  obtain r tr m where s: "conn_send_fixed c k p len = Some (r, tr)" "m \<le> len"
      "sent mem tr = map mem [p ..< p + m]" "0 \<le> r \<longrightarrow> r = int m" "accepting k \<longrightarrow> m = len \<and> 0 \<le> r"
    and al: "list_all (\<lambda>(f, n). \<exists>q l. f = ?fill q l \<and> p \<le> q \<and> 0 < l \<and> l \<le> len \<and> q + l = p + len) tr"
    by (rule send_loop_start [of len ?fill mem k p]) (use assms(1-3) in \<open>simp_all add: conn_send_fixed_def\<close>)
  have "\<exists>q l. f = PrepWriteFixed (conn_fd c) q l 0 (buf_index c) \<and> 0 < l
         \<and> slot_addr c \<le> q \<and> q + l \<le> slot_addr c + slot_len c" if "(f, n) \<in> set tr" for f n
    using al that assms(3-5) by (fastforce simp: list_all_iff)
  with s show ?thesis by (intro exI [of _ r] exI [of _ tr] exI [of _ m]) auto
qed

text \<open>
  C22: Fixed sends stay inside the slot.  Every write of \<open>send_fixed\<close> names the connection's
  registered buffer and an address range inside the bytes it was given, with a length that is
  not cut to 32 bits; the loop returns and what has gone out is the data up to the result.
\<close>

theorem send_fixed_stays_in_slot:
  assumes "kernel_ok k" and "p + len \<le> sz_max" and "len < 2 ^ 32"
    and "slot_addr c \<le> p" and "p + len \<le> slot_addr c + slot_len c"
  shows "\<exists>r tr m. conn_send_fixed c k p len = Some (r, tr) \<and> m \<le> len \<and> sent mem tr = map mem [p ..< p + m]
    \<and> (0 \<le> r \<longrightarrow> r = int m) \<and> (accepting k \<longrightarrow> m = len \<and> r = int len)
    \<and> (\<forall>(f, n) \<in> set tr. \<exists>q l. f = PrepWriteFixed (conn_fd c) q l 0 (buf_index c) \<and> 0 < l
         \<and> slot_addr c \<le> q \<and> q + l \<le> slot_addr c + slot_len c)"
  using conn_send_fixed_ok [OF assms] .

section \<open>Renewal\<close>

text \<open>
  C23: Traffic keeps a connection alive.  After a receive that brought data the connection's
  idle entry survives the next \<open>N - 1\<close> ticks, whatever the other connections do.
\<close>

theorem recv_renews_idle_entry:
  assumes "wheel_ok N w" and "entries w e = Some en" and "conn_wheel c" and "conn_entry c = Some e" and "0 < n"
    and "list_all (\<lambda>v. \<not> touches e v) vs" and "length (filter is_tick vs) < N"
  shows "\<exists>w1 w2. recv_resume c n w = Inr w1 \<and> wheel_run vs w1 = Inr w2 \<and> entries w2 e = Some en"
proof -
  have ne: "entries w e \<noteq> None" using assms(2) by simp
  obtain w1 where w1: "refresh (Some e) w = Inr w1" "wheel_ok N w1" "entries w1 = entries w" "e \<in> set (last (bucket_list w1))"
    using refresh_ok [OF assms(1) ne] by fastforce
  have "recv_resume c n w = Inr w1" using assms(2-5) w1(1) by (simp add: recv_resume_def refresh_weak_def)
  moreover have "0 + length (filter is_tick vs) < N" using assms(7) by simp
  from aged_run [OF w1(2) aged_newest [OF w1(2,4)] assms(6) this] assms(2) w1(3)
  obtain w2 where "wheel_run vs w1 = Inr w2" "entries w2 e = Some en" by auto
  ultimately show ?thesis by blast
qed

section \<open>Slots and descriptors of all connections\<close>

definition slot_owners :: "conn_world \<Rightarrow> conn_id \<rightharpoonup> int" where
  "slot_owners w c = map_option buf_index (w_conns w c)"

text \<open>\<open>p0\<close> is the pool as it was built.\<close>

definition world_inv :: "buffer_pool \<Rightarrow> conn_world \<Rightarrow> bool" where
  "world_inv p0 w \<longleftrightarrow> (\<exists>L. w_pool w = Some (p0\<lparr>free_list := L\<rparr>))
     \<and> bpool.owners_ok (slot_owners w) (the (w_pool w))
     \<and> (\<forall>c x. w_conns w c = Some x \<longrightarrow> has_fixed_slot x \<longrightarrow>
          slot_addr x = slot_ptr p0 (buf_index x) \<and> slot_len x = pool_slot_size p0)"

lemma slot_ptr_free_list [simp]: "slot_ptr (p\<lparr>free_list := L\<rparr>) i = slot_ptr p i"
  by (simp add: slot_ptr_def)

lemma conn_new_inv:
  assumes inv: "world_inv p0 w" and c: "w_conns w c = None" and n: "conn_new fd peer (w_pool w) = (x, pool)"
  shows "world_inv p0 (w\<lparr>w_pool := pool, w_conns := (w_conns w)(c \<mapsto> x)\<rparr>)" and "conn_fd x = fd"
proof -
  obtain L where p: "w_pool w = Some (p0\<lparr>free_list := L\<rparr>)" using inv by (auto simp: world_inv_def)
  obtain i p' where a: "pool_acquire (p0\<lparr>free_list := L\<rparr>) = (i, p')" by fastforce
  have ow: "bpool.owners_ok (slot_owners w) (p0\<lparr>free_list := L\<rparr>)" using inv p by (simp add: world_inv_def)
  have oc: "slot_owners w c = None" using c by (simp add: slot_owners_def)
  have p': "\<exists>L'. p' = p0\<lparr>free_list := L'\<rparr>" using a by (auto simp: pool_acquire_def split: if_splits)
  have neg: "i < 0 \<Longrightarrow> i = - 1"
    using pool_acquire_none [OF _ a] ow unfolding bpool.owners_ok_def by blast
  have x: "pool = Some p'" "buf_index x = i" "conn_fd x = fd"
      "0 \<le> i \<longrightarrow> slot_addr x = slot_ptr p0 i \<and> slot_len x = pool_slot_size p0"
    using n a p neg p' by (auto simp: conn_new_def Let_def split: if_splits)
  have "slot_owners (w\<lparr>w_pool := pool, w_conns := (w_conns w)(c \<mapsto> x)\<rparr>) = (slot_owners w)(c \<mapsto> i)"
    using x(2) by (auto simp: slot_owners_def)
  with bpool.owners_acquire [OF ow oc a] x p' inv
  show "world_inv p0 (w\<lparr>w_pool := pool, w_conns := (w_conns w)(c \<mapsto> x)\<rparr>)"
    by (simp add: world_inv_def has_fixed_slot_def)
  show "conn_fd x = fd" by (rule x(3))
qed

lemma conn_destroy_inv:
  assumes inv: "world_inv p0 w" and c: "w_conns w c = Some x" and d: "conn_destroy x (w_pool w) = (pool, fds)"
  shows "world_inv p0 (w\<lparr>w_pool := pool, w_conns := (w_conns w)(c := None), w_closed := w_closed w @ fds\<rparr>)"
proof -
  obtain L where p: "w_pool w = Some (p0\<lparr>free_list := L\<rparr>)" using inv by (auto simp: world_inv_def)
  have ow: "bpool.owners_ok (slot_owners w) (p0\<lparr>free_list := L\<rparr>)" using inv p by (simp add: world_inv_def)
  have oc: "slot_owners w c = Some (buf_index x)" using c by (simp add: slot_owners_def)
  have pool: "pool = Some (pool_release (buf_index x) (p0\<lparr>free_list := L\<rparr>))"
    using d p by (auto simp: conn_destroy_def pool_release_def split: if_splits)
  have "slot_owners (w\<lparr>w_pool := pool, w_conns := (w_conns w)(c := None), w_closed := w_closed w @ fds\<rparr>)
      = (slot_owners w)(c := None)" by (auto simp: slot_owners_def)
  with bpool.owners_release [OF ow oc] pool inv show ?thesis
    by (auto simp: world_inv_def pool_release_def)
qed

lemma conn_step_inv: "world_inv p0 w \<Longrightarrow> conn_step v w = Some w' \<Longrightarrow> world_inv p0 w'"
  using conn_new_inv(1) conn_destroy_inv
  by (cases v) (auto simp: Let_def split: if_splits option.splits prod.splits)

lemma conn_run_inv: "conn_run vs w = Some w' \<Longrightarrow> world_inv p0 w \<Longrightarrow> world_inv p0 w'"
  by (induction vs arbitrary: w) (auto simp: bind_eq_Some_conv dest: conn_step_inv)

lemma world_new_inv: "p0 = pool_new mem reg cap ss \<Longrightarrow> world_inv p0 (world_new (Some p0))"
proof -
  assume p0: "p0 = pool_new mem reg cap ss"
  have "slot_owners (world_new (Some p0)) = Map.empty" by (auto simp: world_new_def slot_owners_def)
  then have "bpool.owners_ok (slot_owners (world_new (Some p0))) p0"
    using pool_new_inv [of mem reg cap ss] p0 by (simp add: bpool.owners_ok_def)
  then show ?thesis by (auto simp: world_inv_def world_new_def intro: exI [of _ "free_list p0"])
qed

text \<open>Descriptors: each one opened is either held by a connection or has been closed.\<close>

definition holders :: "conn_world \<Rightarrow> int \<Rightarrow> conn_id set" where
  "holders w fd = {c. \<exists>x. w_conns w c = Some x \<and> conn_fd x = fd}"

lemma conn_step_fds:
  assumes "conn_step v w = Some w'" and "finite (dom (w_conns w))" and "0 \<le> fd"
  shows "count_list (w_closed w) fd + card (holders w fd) + count_list (opened_fds [v]) fd
      = count_list (w_closed w') fd + card (holders w' fd)" and "finite (dom (w_conns w'))"
proof -
  have fin: "finite (holders w fd)"
    by (rule finite_subset [OF _ assms(2)]) (auto simp: holders_def)
  have "count_list (w_closed w) fd + card (holders w fd) + count_list (opened_fds [v]) fd
      = count_list (w_closed w') fd + card (holders w' fd) \<and> finite (dom (w_conns w'))"
  proof (cases v)
    case (Opened c f peer)
    obtain x pool where n: "conn_new f peer (w_pool w) = (x, pool)" by fastforce
    have w': "w' = w\<lparr>w_pool := pool, w_conns := (w_conns w)(c \<mapsto> x)\<rparr>" and c: "w_conns w c = None"
      using assms(1) Opened n by (auto split: if_splits)
    have "conn_fd x = f" using n by (auto simp: conn_new_def Let_def split: option.splits prod.splits if_splits)
    then have "holders w' fd = (if f = fd then insert c (holders w fd) else holders w fd)"
      using c by (auto simp: holders_def w')
    moreover have "c \<notin> holders w fd" using c by (simp add: holders_def)
    ultimately show ?thesis using fin assms(2) Opened by (simp add: w')
  next
    case (Dropped c)
    obtain x where x: "w_conns w c = Some x" using assms(1) Dropped by (cases "w_conns w c") auto
    obtain pool fds where d: "conn_destroy x (w_pool w) = (pool, fds)" by fastforce
    have w': "w' = w\<lparr>w_pool := pool, w_conns := (w_conns w)(c := None), w_closed := w_closed w @ fds\<rparr>"
      using assms(1) Dropped x d by simp
    have fds: "count_list fds fd = (if conn_fd x = fd then 1 else 0)"
      using d assms(3) by (auto simp: conn_destroy_def)
    have "holders w' fd = holders w fd - {c}" by (auto simp: holders_def w')
    moreover have "c \<in> holders w fd \<longleftrightarrow> conn_fd x = fd" using x by (simp add: holders_def)
    ultimately have "card (holders w fd) = card (holders w' fd) + (if conn_fd x = fd then 1 else 0)"
      using fin card_Suc_Diff1 [of "holders w fd" c] by auto
    then show ?thesis using fds assms(2) Dropped by (simp add: w')
  qed
  then show "count_list (w_closed w) fd + card (holders w fd) + count_list (opened_fds [v]) fd
      = count_list (w_closed w') fd + card (holders w' fd)" and "finite (dom (w_conns w'))" by auto
qed

lemma opened_fds_Cons: "opened_fds (v # vs) = opened_fds [v] @ opened_fds vs"
  by (cases v) auto

lemma conn_run_fds:
  "conn_run vs w = Some w' \<Longrightarrow> finite (dom (w_conns w)) \<Longrightarrow> 0 \<le> fd \<Longrightarrow>
   count_list (w_closed w) fd + card (holders w fd) + count_list (opened_fds vs) fd
     = count_list (w_closed w') fd + card (holders w' fd)"
proof (induction vs arbitrary: w)
  case Nil
  then show ?case by simp
next
  case (Cons v vs)
  then obtain w1 where "conn_step v w = Some w1" "conn_run vs w1 = Some w'" by (auto simp: bind_eq_Some_conv)
  with Cons.IH [of w1] conn_step_fds [of v w w1 fd] Cons.prems(2,3) opened_fds_Cons [of v vs]
  show ?case by simp
qed

lemma conn_run_closed_nonneg:
  "conn_run vs w = Some w' \<Longrightarrow> list_all (\<lambda>f. 0 \<le> f) (w_closed w) \<Longrightarrow> list_all (\<lambda>f. 0 \<le> f) (w_closed w')"
proof (induction vs arbitrary: w)
  case Nil
  then show ?case by simp
next
  case (Cons v vs)
  then obtain w1 where "conn_step v w = Some w1" "conn_run vs w1 = Some w'" by (auto simp: bind_eq_Some_conv)
  moreover from this(1) Cons.prems(2) have "list_all (\<lambda>f. 0 \<le> f) (w_closed w1)"
    by (cases v) (auto simp: conn_destroy_def Let_def split: if_splits option.splits prod.splits)
  ultimately show ?case using Cons.IH by blast
qed

text \<open>
  C19: Open connections never share a slot.  Whatever connections come and go on a worker, two
  open ones with fixed slots own disjoint memory, and each one's slot is exactly the buffer
  registered under its index.
\<close>

theorem open_connections_own_disjoint_slots:
  assumes "p0 = pool_new mem reg cap ss" and "pool_enabled p0" and "arena p0 + pool_capacity p0 * ss \<le> sz_max"
    and "conn_run vs (world_new (Some p0)) = Some w"
    and "w_conns w c = Some x" and "w_conns w d = Some y" and "c \<noteq> d"
    and "has_fixed_slot x" and "has_fixed_slot y"
  shows "{slot_addr x ..< slot_addr x + slot_len x} \<inter> {slot_addr y ..< slot_addr y + slot_len y} = {}
    \<and> registered p0 ! nat (buf_index x) = \<lparr>iov_base = slot_addr x, iov_len = slot_len x\<rparr>"
proof -
  have sane: "pool_sane p0" using pool_new_sane assms(1-3) by blast
  have inv: "world_inv p0 w" using conn_run_inv [OF assms(4)] world_new_inv [OF assms(1)] by blast
  have own: "slot_owners w c = Some (buf_index x)" "slot_owners w d = Some (buf_index y)"
    using assms(5,6) by (simp_all add: slot_owners_def)
  have nn: "0 \<le> buf_index x" "0 \<le> buf_index y" using assms(8,9) by (simp_all add: has_fixed_slot_def)
  have neq: "buf_index x \<noteq> buf_index y"
    using inv own nn assms(7) unfolding world_inv_def bpool.owners_ok_def by metis
  have "pool_inv {i. 0 \<le> i \<and> i \<in> ran (slot_owners w)} (the (w_pool w))" and "\<exists>L. w_pool w = Some (p0\<lparr>free_list := L\<rparr>)"
    using inv by (simp_all add: world_inv_def bpool.owners_ok_def)
  then have "{i. 0 \<le> i \<and> i \<in> ran (slot_owners w)} \<subseteq> {0..<int (pool_capacity p0)}"
    using assms(2) by (clarsimp simp: pool_inv_def) (metis (no_types, lifting) UnI2 atLeastLessThan_iff mem_Collect_eq)
  then have lt: "nat (buf_index x) < pool_capacity p0" "nat (buf_index y) < pool_capacity p0"
    using own nn by (auto simp: ran_def subset_eq)
  have sl: "slot_addr x = slot_ptr p0 (buf_index x)" "slot_len x = pool_slot_size p0"
      "slot_addr y = slot_ptr p0 (buf_index y)" "slot_len y = pool_slot_size p0"
    using inv assms(5,6,8,9) by (auto simp: world_inv_def)
  from slots_disjoint [OF sane lt] slot_registered [OF sane lt(1)] neq nn sl show ?thesis by simp
qed

text \<open>
  C20: Nothing leaks.  When all connections of a worker are gone, every slot is free again, once,
  and exactly the valid descriptors that were opened have been closed, each as often as it was
  opened.
\<close>

theorem closing_all_returns_everything:
  assumes "p0 = pool_new mem reg cap ss" and "pool_enabled p0"
    and "conn_run vs (world_new (Some p0)) = Some w" and "w_conns w = Map.empty"
  shows "\<exists>L. w_pool w = Some (p0\<lparr>free_list := L\<rparr>) \<and> mset L = mset (free_list p0)
    \<and> mset (w_closed w) = mset (filter (\<lambda>f. 0 \<le> f) (opened_fds vs))"
proof -
  have inv: "world_inv p0 w" using conn_run_inv [OF assms(3)] world_new_inv [OF assms(1)] by blast
  then obtain L where L: "w_pool w = Some (p0\<lparr>free_list := L\<rparr>)" by (auto simp: world_inv_def)
  have "slot_owners w = Map.empty" using assms(4) by (auto simp: slot_owners_def)
  then have "pool_inv {} (p0\<lparr>free_list := L\<rparr>)" using inv L by (simp add: world_inv_def bpool.owners_ok_def)
  then have "mset L = mset (free_list p0)"
    using pool_new_inv [of mem reg cap ss] assms(1,2) set_eq_iff_mset_eq_distinct [of L "free_list p0"]
    by (auto simp: pool_inv_def)
  moreover have "count (mset (w_closed w)) f = count (mset (filter (\<lambda>f. 0 \<le> f) (opened_fds vs))) f" for f
  proof (cases "0 \<le> f")
    case True
    have "count_list (opened_fds vs) f = count_list (w_closed w) f"
      using conn_run_fds [OF assms(3) _ True] assms(4) by (simp add: holders_def world_new_def)
    moreover have "count (mset xs) f = count_list xs f" for xs by (induction xs) auto
    ultimately show ?thesis using True by simp
  next
    case False
    have "f \<notin> set (w_closed w)"
      using conn_run_closed_nonneg [OF assms(3)] False by (auto simp: world_new_def list_all_iff)
    with False show ?thesis by (simp add: count_mset_0_iff)
  qed
  then have "mset (w_closed w) = mset (filter (\<lambda>f. 0 \<le> f) (opened_fds vs))" by (rule multiset_eqI)
  ultimately show ?thesis using L by blast
qed

section \<open>Witnesses\<close>

definition demo_peer :: sockaddr_in where
  "demo_peer = inet_address 40000 ''10.0.0.7''"

definition demo_conn :: tcp_conn where
  "demo_conn = \<lparr>conn_fd = 5, conn_peer = demo_peer, conn_ctx = None, conn_wheel = True, conn_entry = Some 7, buf_index = 1, slot_addr = 100, slot_len = 50\<rparr>"

theorem send_delivers_prefix_witness:
  "\<exists>r tr m. conn_send demo_conn (\<lambda>i f. min 2 (int (sqe_len f))) 10 (length ''aaa'') = Some (r, tr) \<and> m \<le> length ''aaa''
    \<and> r = 3 \<and> sent (\<lambda>a. CHR ''a'') tr = ''aaa''"
proof -
  have acc: "accepting (\<lambda>i f. min 2 (int (sqe_len f)))" by (simp add: accepting_def)
  have k: "kernel_ok (\<lambda>i f. min 2 (int (sqe_len f)))" by (simp add: kernel_ok_def)
  have a: "10 + length ''aaa'' \<le> sz_max" "length ''aaa'' < 2 ^ 63" by (simp_all add: sz_max_def)
  have "map (\<lambda>a. CHR ''a'') [10 ..< 10 + length ''aaa''] = ''aaa''" by (simp add: upt_rec)
  from send_delivers_prefix [OF k a this, of demo_conn] acc show ?thesis by auto
qed

theorem send_fixed_stays_in_slot_witness:
  "\<exists>r tr. conn_send_fixed demo_conn (\<lambda>i f. min 2 (int (sqe_len f))) 110 40 = Some (r, tr)
    \<and> (\<forall>(f, n) \<in> set tr. \<exists>q l. f = PrepWriteFixed 5 q l 0 1 \<and> 0 < l \<and> 100 \<le> q \<and> q + l \<le> 150)"
  using send_fixed_stays_in_slot [of "\<lambda>i f. min 2 (int (sqe_len f))" 110 40 demo_conn "\<lambda>a. CHR ''a''"]
  by (auto simp: kernel_ok_def sz_max_def demo_conn_def)

theorem recv_renews_idle_entry_witness:
  "\<exists>w1 w2. recv_resume demo_conn 12 demo_wheel = Inr w1
    \<and> wheel_run [Tick (\<lambda>_. True), Register 41 8, Tick (\<lambda>_. True)] w1 = Inr w2
    \<and> entries w2 7 = Some \<lparr>wconn = 40, has_sched = True\<rparr>"
  using recv_renews_idle_entry [OF demo_wheel_ok, of 7 "\<lparr>wconn = 40, has_sched = True\<rparr>" demo_conn 12
      "[Tick (\<lambda>_. True), Register 41 8, Tick (\<lambda>_. True)]"]
  by (simp add: demo_wheel_def demo_conn_def)

definition demo_world :: conn_world where
  "demo_world = \<lparr>w_pool = Some (demo_pool\<lparr>free_list := [2]\<rparr>),
     w_conns = [1 \<mapsto> \<lparr>conn_fd = 5, conn_peer = demo_peer, conn_ctx = None, conn_wheel = False, conn_entry = None, buf_index = 0, slot_addr = 4096, slot_len = 100\<rparr>,
                2 \<mapsto> \<lparr>conn_fd = 6, conn_peer = demo_peer, conn_ctx = None, conn_wheel = False, conn_entry = None, buf_index = 1, slot_addr = 4196, slot_len = 100\<rparr>],
     w_closed = []\<rparr>"

lemma demo_run: "conn_run [Opened 1 5 demo_peer, Opened 2 6 demo_peer] (world_new (Some demo_pool)) = Some demo_world"
  by (simp add: demo_world_def world_new_def conn_new_def pool_acquire_def demo_pool_eq slot_ptr_def sz_add_def sz_mul_def)

theorem open_connections_own_disjoint_slots_witness:
  "\<exists>x y. w_conns demo_world 1 = Some x \<and> w_conns demo_world 2 = Some y
    \<and> {slot_addr x ..< slot_addr x + slot_len x} \<inter> {slot_addr y ..< slot_addr y + slot_len y} = {}
    \<and> registered demo_pool ! nat (buf_index x) = \<lparr>iov_base = slot_addr x, iov_len = slot_len x\<rparr>"
proof -
  have p: "pool_enabled demo_pool" "arena demo_pool + pool_capacity demo_pool * 100 \<le> sz_max"
    by (simp_all add: demo_pool_eq sz_max_def)
  obtain x y where xy: "w_conns demo_world 1 = Some x" "w_conns demo_world 2 = Some y" "has_fixed_slot x" "has_fixed_slot y"
    by (simp add: demo_world_def has_fixed_slot_def)
  have "(1::nat) \<noteq> 2" by simp
  from open_connections_own_disjoint_slots [OF demo_pool_def p demo_run xy(1,2) this xy(3,4)] xy(1,2) show ?thesis by blast
qed

theorem closing_all_returns_everything_witness:
  "\<exists>w L. conn_run [Opened 1 5 demo_peer, Opened 2 6 demo_peer, Dropped 1, Dropped 2] (world_new (Some demo_pool)) = Some w
    \<and> w_pool w = Some (demo_pool\<lparr>free_list := L\<rparr>) \<and> mset L = mset (free_list demo_pool)
    \<and> mset (w_closed w) = mset [5, 6]"
proof -
  obtain w where w: "conn_run [Opened 1 5 demo_peer, Opened 2 6 demo_peer, Dropped 1, Dropped 2] (world_new (Some demo_pool)) = Some w"
      "w_conns w = Map.empty"
    by (simp add: world_new_def conn_new_def conn_destroy_def pool_acquire_def pool_release_def demo_pool_eq)
  have "pool_enabled demo_pool" by (simp add: demo_pool_eq)
  from closing_all_returns_everything [OF demo_pool_def this w] w(1) show ?thesis by auto
qed

end
