(* ===== verification/Tcp_Server.thy ===== *)
theory Tcp_Server
  imports Scheduler_Pool Tcp_Connection
begin

text \<open>
  \<open>TcpServer\<close> (\<open>tcp_server.hpp\<close>, \<open>tcp_server.cc\<close>): the listening sockets, one per worker,
  the start of the workers with their idle wheels and accept loops, stopping, waiting and
  destruction.  The results of the socket calls of the \<open>i\<close>-th listener and the construction of
  the schedulers are arguments.
\<close>

section \<open>State\<close>

record server =
  sv_addr :: sockaddr_in
  sv_handler :: "nat option"       \<comment> \<open>the \<open>std::function\<close>: empty or a callable\<close>
  worker_threads :: nat
  listen_fds :: "int list"
  sv_pool :: "spool option"
  idle_secs :: int
  wheels :: "wheel option list"
  sv_running :: bool
  sqpoll_threads :: nat
  sqpoll_cpus :: "int list"
  sv_fixed_buffers :: bool
  sv_slot_size :: nat
  sv_capacity :: nat               \<comment> \<open>0 stands for the default\<close>
  fds_shut :: "int list"           \<comment> \<open>descriptors passed to \<open>shutdown\<close>\<close>
  fds_closed :: "int list"         \<comment> \<open>descriptors passed to \<open>close\<close>\<close>
  sigpipe_ignored :: bool

definition server_new :: "sockaddr_in \<Rightarrow> nat \<Rightarrow> server" where
  "server_new addr n = \<lparr>sv_addr = addr, sv_handler = None, worker_threads = (if n = 0 then 1 else n), listen_fds = [], sv_pool = None, idle_secs = 0,
     wheels = [], sv_running = False, sqpoll_threads = 4, sqpoll_cpus = [], sv_fixed_buffers = True,
     sv_slot_size = 16 * 1024, sv_capacity = 0, fds_shut = [], fds_closed = [], sigpipe_ignored = False\<rparr>"

definition set_handler :: "nat option \<Rightarrow> server \<Rightarrow> server" where
  "set_handler h sv = sv\<lparr>sv_handler := h\<rparr>"

definition set_idle_timeout :: "int \<Rightarrow> server \<Rightarrow> server" where
  "set_idle_timeout secs sv = sv\<lparr>idle_secs := secs\<rparr>"

definition set_sqpoll_threads :: "nat \<Rightarrow> server \<Rightarrow> server" where
  "set_sqpoll_threads m sv = sv\<lparr>sqpoll_threads := m\<rparr>"

definition set_sqpoll_cpus :: "int list \<Rightarrow> server \<Rightarrow> server" where
  "set_sqpoll_cpus cpus sv = sv\<lparr>sqpoll_cpus := cpus\<rparr>"

definition set_fixed_buffers :: "bool \<Rightarrow> nat \<Rightarrow> nat \<Rightarrow> server \<Rightarrow> server" where
  "set_fixed_buffers on slot cap sv = sv\<lparr>sv_fixed_buffers := on, sv_slot_size := slot, sv_capacity := cap\<rparr>"

definition kDefaultBufCapacity :: nat where
  "kDefaultBufCapacity = 4096"

section \<open>Listening sockets\<close>

record socket_env =
  env_socket :: "nat \<Rightarrow> int"
  env_bind :: "sockaddr_in \<Rightarrow> nat \<Rightarrow> int"
  env_listen :: "nat \<Rightarrow> int"
  env_errno :: "nat \<Rightarrow> int"

datatype server_error =
    SysError string int            \<comment> \<open>\<open>std::system_error\<close> with its operation\<close>
  | PoolError int                  \<comment> \<open>thrown by a scheduler's constructor\<close>
  | WheelError circ_error

text \<open>The second component lists the descriptors that are closed on the way.\<close>

definition make_listen_socket :: "socket_env \<Rightarrow> sockaddr_in \<Rightarrow> nat \<Rightarrow> (server_error + int) \<times> int list" where
  "make_listen_socket env addr i =
     (let fd = env_socket env i; e = env_errno env i in
      if fd < 0 then (Inl (SysError ''socket'' e), [])
      else if env_bind env addr i < 0 then (Inl (SysError ''bind'' e), [fd])
      else if env_listen env i < 0 then (Inl (SysError ''listen'' e), [fd])
      else (Inr fd, []))"

fun open_listeners :: "socket_env \<Rightarrow> nat \<Rightarrow> nat \<Rightarrow> server \<Rightarrow> server_error option \<times> server" where
  "open_listeners env i 0 sv = (None, sv)"
| "open_listeners env i (Suc k) sv =
     (case make_listen_socket env (sv_addr sv) i of
        (Inl e, cl) \<Rightarrow> (Some e, sv\<lparr>fds_closed := fds_closed sv @ cl\<rparr>)
      | (Inr fd, cl) \<Rightarrow> open_listeners env (Suc i) k
          (sv\<lparr>listen_fds := (listen_fds sv)[i := fd], fds_closed := fds_closed sv @ cl\<rparr>))"

section \<open>Start\<close>

definition server_config :: "server \<Rightarrow> sched_config" where
  "server_config sv = default_config\<lparr>cfg_sqpoll := sqpoll_threads sv > 0, use_fixed_buffers := sv_fixed_buffers sv,
     buf_slot_size := sv_slot_size sv,
     buf_pool_capacity := (if sv_fixed_buffers sv
       then (if sv_capacity sv \<noteq> 0 then sv_capacity sv else kDefaultBufCapacity) else 0)\<rparr>"

text \<open>The closures queued on the workers.\<close>

definition start_wheel_task :: xtask where "start_wheel_task = XUser 0"
definition accept_task :: xtask where "accept_task = XUser 1"
definition stop_task :: xtask where "stop_task = XUser 2"

text \<open>\<open>std::vector::resize\<close>: new elements are value-initialised.\<close>

definition resized :: "'a \<Rightarrow> nat \<Rightarrow> 'a list \<Rightarrow> 'a list" where
  "resized x n xs = take n xs @ replicate (n - length xs) x"

text \<open>One turn of the second loop of \<open>start\<close>, for worker \<open>i\<close>.\<close>

definition prepare_worker :: "size_t \<Rightarrow> nat \<Rightarrow> spool \<Rightarrow> server \<Rightarrow> server_error option \<times> spool \<times> server" where
  "prepare_worker m i p sv =
     (let s = schedulers p ! i in
      if idle_secs sv > 0
      then (case wheel_new m (idle_secs sv) of
              Inl e \<Rightarrow> (Some (WheelError e), p, sv)
            | Inr w \<Rightarrow> (None, p\<lparr>schedulers := (schedulers p)[i := queue_boot_task accept_task (queue_boot_task start_wheel_task s)]\<rparr>,
                        sv\<lparr>wheels := (wheels sv)[i := Some w]\<rparr>))
      else (None, p\<lparr>schedulers := (schedulers p)[i := queue_boot_task accept_task s]\<rparr>, sv))"

fun prepare_workers :: "size_t \<Rightarrow> nat \<Rightarrow> nat \<Rightarrow> spool \<Rightarrow> server \<Rightarrow> server_error option \<times> spool \<times> server" where
  "prepare_workers m i 0 p sv = (None, p, sv)"
| "prepare_workers m i (Suc k) p sv =
     (case prepare_worker m i p sv of
        (Some e, r) \<Rightarrow> (Some e, r)
      | (None, p', sv') \<Rightarrow> prepare_workers m (Suc i) k p' sv')"

definition spool_of :: "sched_config list \<Rightarrow> spool" where
  "spool_of cfgs = \<lparr>schedulers = map (\<lambda>c. sched_new (ring_entries c)) cfgs, pool_threads = [], next_idx = 0, pool_started = False, boot_queues = []\<rparr>"

text \<open>An exception of \<open>start\<close> is the first component; \<open>mk\<close> builds the \<open>i\<close>-th scheduler.\<close>

definition server_start :: "(nat \<Rightarrow> sched_config \<Rightarrow> int + int) \<Rightarrow> socket_env \<Rightarrow> size_t \<Rightarrow> server \<Rightarrow> server_error option \<times> server" where
  "server_start mk env m sv =
     (if sv_running sv then (None, sv)
      else let sv1 = sv\<lparr>sv_running := True, sigpipe_ignored := True\<rparr> in
      case spool_new mk (worker_threads sv) (server_config sv) (sqpoll_threads sv) (sqpoll_cpus sv) of
        Inl e \<Rightarrow> (Some (PoolError e), sv1)
      | Inr (fds, cfgs) \<Rightarrow>
          (let p = spool_of cfgs; n = length (schedulers p);
               sv2 = sv1\<lparr>sv_pool := Some p, listen_fds := resized 0 n (listen_fds sv1)\<rparr>
           in case open_listeners env 0 n sv2 of
                (Some e, sv3) \<Rightarrow> (Some e, sv3)
              | (None, sv3) \<Rightarrow>
                  (case prepare_workers m 0 n p (sv3\<lparr>wheels := resized None n (wheels sv3)\<rparr>) of
                     (Some e, p', sv4) \<Rightarrow> (Some e, sv4\<lparr>sv_pool := Some p'\<rparr>)
                   | (None, p', sv4) \<Rightarrow> (None, sv4\<lparr>sv_pool := Some (spool_start p')\<rparr>))))"

section \<open>Stop, wait, destruction\<close>

text \<open>
  \<open>stop\<close> may be called on any thread, also, from a handler or by a signal, on that of a worker:
  \<open>who\<close> is this worker, if any.  \<open>post_task\<close> runs the closure at once on the worker's own thread, where
  \<open>Scheduler::stop\<close> takes its own branch, and queues it otherwise.
\<close>

definition post_stop :: "bool \<Rightarrow> sched \<Rightarrow> sched" where
  "post_stop own s = (if own then stop_own s else wake_remote own (queue_boot_task stop_task s))"

definition server_stop :: "nat option \<Rightarrow> server \<Rightarrow> server" where
  "server_stop who sv =
     (if \<not> sv_running sv then sv
      else sv\<lparr>sv_running := False,
              fds_shut := fds_shut sv @ filter (\<lambda>fd. fd \<ge> 0) (listen_fds sv),
              sv_pool := map_option (\<lambda>p. p\<lparr>schedulers :=
                 map2 (\<lambda>i. post_stop (who = Some i)) [0..<length (schedulers p)] (schedulers p)\<rparr>) (sv_pool sv)\<rparr>)"

definition server_wait :: "server \<Rightarrow> server" where
  "server_wait sv = sv\<lparr>sv_pool := map_option spool_wait (sv_pool sv)\<rparr>"

text \<open>
  The destructor, then the members in reverse order: the wheels go before the pool joins its
  threads, which is a fault if some thread still runs on a worker with a wheel.  The object is destroyed
  on a thread that is none of its workers.
\<close>

datatype server_fault = WheelInUse

definition server_destroy :: "server \<Rightarrow> server_fault + server" where
  "server_destroy sv =
     (let sv1 = (if sv_running sv then server_wait (server_stop None sv) else sv);
          sv2 = sv1\<lparr>fds_closed := fds_closed sv1 @ filter (\<lambda>fd. fd \<ge> 0) (listen_fds sv1), listen_fds := []\<rparr>
      in if (\<exists>p i. sv_pool sv2 = Some p \<and> i \<in> set (pool_threads p) \<and> i < length (wheels sv2) \<and> wheels sv2 ! i \<noteq> None)
         then Inl WheelInUse
         else Inr (sv2\<lparr>wheels := [], sv_pool := None\<rparr>))"

section \<open>The accept loop\<close>

record acceptor =
  ac_handler :: "nat option"
  ac_world :: conn_world
  ac_wheel :: "wheel option"
  ac_spawned :: "conn_id list"     \<comment> \<open>connections whose handler has been spawned\<close>
  ac_looping :: bool

text \<open>
  One turn: \<open>run\<close> is \<open>running_\<close> at the test, \<open>res\<close> the result of the accept and \<open>peer\<close> the address
  it has written, \<open>c\<close> and \<open>e\<close> the objects \<open>make_shared\<close> returns.  Calling an empty handler throws
  \<open>std::bad_function_call\<close> out of the loop.
\<close>

datatype accept_error = AcWheel circ_error | BadFunctionCall

definition accept_turn :: "bool \<Rightarrow> int \<Rightarrow> sockaddr_in \<Rightarrow> conn_id \<Rightarrow> entry_id \<Rightarrow> acceptor \<Rightarrow> accept_error + acceptor" where
  "accept_turn run res peer c e a =
     (if \<not> run \<or> res < 0 then Inr (a\<lparr>ac_looping := False\<rparr>)
      else let (x, pool) = conn_new res (inet_address_of peer) (w_pool (ac_world a)); w1 = (ac_world a)\<lparr>w_pool := pool\<rparr> in
      rbind (case ac_wheel a of
          None \<Rightarrow> Inr (a\<lparr>ac_world := w1\<lparr>w_conns := (w_conns w1)(c \<mapsto> x)\<rparr>\<rparr>)
        | Some wh \<Rightarrow> (case register_conn c e wh of Inl er \<Rightarrow> Inl (AcWheel er) | Inr wh' \<Rightarrow>
            Inr (a\<lparr>ac_world := w1\<lparr>w_conns := (w_conns w1)(c \<mapsto> install_idle e x)\<rparr>, ac_wheel := Some wh'\<rparr>))) (\<lambda>a'.
      if ac_handler a' = None then Inl BadFunctionCall
      else Inr (a'\<lparr>ac_spawned := ac_spawned a' @ [c]\<rparr>)))"

fun accept_loop :: "(bool \<times> int \<times> sockaddr_in \<times> conn_id \<times> entry_id) list \<Rightarrow> acceptor \<Rightarrow> accept_error + acceptor" where
  "accept_loop [] a = Inr a"
| "accept_loop ((run, res, peer, c, e) # xs) a =
     (if ac_looping a then rbind (accept_turn run res peer c e a) (accept_loop xs) else Inr a)"

section \<open>The accept loop serves every connection\<close>

lemma conn_new_fd: "conn_new fd peer pool = (x, pool') \<Longrightarrow> conn_fd x = fd \<and> conn_peer x = peer"
  by (auto simp: conn_new_def Let_def split: option.splits prod.splits if_splits)

text \<open>What one accepted connection leaves behind.\<close>

definition served :: "acceptor \<Rightarrow> int \<Rightarrow> sockaddr_in \<Rightarrow> conn_id \<Rightarrow> entry_id \<Rightarrow> bool" where
  "served a n ad c e \<longleftrightarrow> (\<exists>x wh. w_conns (ac_world a) c = Some x \<and> conn_fd x = n \<and> conn_peer x = ad \<and> conn_wheel x \<and> conn_entry x = Some e
     \<and> ac_wheel a = Some wh \<and> entries wh e = Some \<lparr>wconn = c, has_sched = True\<rparr>)"

lemma accept_turn_ok:
  assumes "ac_wheel a = Some wh" and "wheel_ok N wh" and "0 \<le> n" and "ac_handler a \<noteq> None"
  obtains a' wh' where "accept_turn True n ad c e a = Inr a'" "ac_looping a' = ac_looping a" "ac_handler a' = ac_handler a"
    "ac_spawned a' = ac_spawned a @ [c]" "ac_wheel a' = Some wh'" "wheel_ok N wh'" "served a' n ad c e"
    "\<And>n' ad' c' e'. served a n' ad' c' e' \<Longrightarrow> c' \<noteq> c \<Longrightarrow> e' \<noteq> e \<Longrightarrow> served a' n' ad' c' e'"
proof -
  obtain x pool where n: "conn_new n ad (w_pool (ac_world a)) = (x, pool)" by fastforce
  obtain wh' where wh': "register_conn c e wh = Inr wh'" "wheel_ok N wh'"
      "entries wh' = (entries wh)(e \<mapsto> \<lparr>wconn = c, has_sched = True\<rparr>)"
    using register_conn_ok [OF assms(2), of c e] by blast
  let ?w = "(ac_world a)\<lparr>w_pool := pool, w_conns := (w_conns (ac_world a))(c \<mapsto> install_idle e x)\<rparr>"
  show thesis
    by (rule that [of "a\<lparr>ac_world := ?w, ac_wheel := Some wh', ac_spawned := ac_spawned a @ [c]\<rparr>" wh'])
      (use assms n wh' conn_new_fd [OF n] in \<open>auto simp: accept_turn_def served_def install_idle_def inet_address_of_def\<close>)
qed

lemma accept_loop_run:
  "list_all (\<lambda>(r, n, ad, c, e). r \<and> 0 \<le> n) xs \<Longrightarrow> ac_looping a \<Longrightarrow> ac_wheel a = Some wh \<Longrightarrow> wheel_ok N wh \<Longrightarrow>
   distinct (map (\<lambda>(r, n, ad, c, e). c) xs) \<Longrightarrow> distinct (map (\<lambda>(r, n, ad, c, e). e) xs) \<Longrightarrow> ac_handler a \<noteq> None \<Longrightarrow>
   \<exists>a' wh'. accept_loop xs a = Inr a' \<and> ac_looping a' \<and> ac_spawned a' = ac_spawned a @ map (\<lambda>(r, n, ad, c, e). c) xs
     \<and> ac_wheel a' = Some wh' \<and> wheel_ok N wh' \<and> (\<forall>(r, n, ad, c, e) \<in> set xs. served a' n ad c e)
     \<and> (\<forall>n ad c e. served a n ad c e \<longrightarrow> c \<notin> (\<lambda>(r, n, ad, c, e). c) ` set xs \<longrightarrow> e \<notin> (\<lambda>(r, n, ad, c, e). e) ` set xs \<longrightarrow> served a' n ad c e)"
proof (induction xs arbitrary: a wh)
  case Nil
  then show ?case by simp
next
  case (Cons y ys)
  obtain r n ad c e where y: "y = (r, n, ad, c, e)" by (cases y) auto
  have "0 \<le> n" "r" using Cons.prems(1) y by auto
  from accept_turn_ok [OF Cons.prems(3,4) this(1) Cons.prems(7), of ad c e] obtain a1 wh1 where
    a1: "accept_turn True n ad c e a = Inr a1" "ac_looping a1 = ac_looping a" "ac_handler a1 = ac_handler a" "ac_spawned a1 = ac_spawned a @ [c]"
      "ac_wheel a1 = Some wh1" "wheel_ok N wh1" "served a1 n ad c e"
      "\<And>n' ad' c' e'. served a n' ad' c' e' \<Longrightarrow> c' \<noteq> c \<Longrightarrow> e' \<noteq> e \<Longrightarrow> served a1 n' ad' c' e'"
    by metis
  have "list_all (\<lambda>(r, n, ad, c, e). r \<and> 0 \<le> n) ys" "ac_looping a1" "distinct (map (\<lambda>(r, n, ad, c, e). c) ys)"
      "distinct (map (\<lambda>(r, n, ad, c, e). e) ys)" "ac_handler a1 \<noteq> None" using Cons.prems a1(2,3) by auto
  from Cons.IH [OF this(1,2) a1(5,6) this(3-5)] obtain a' wh' where
    a': "accept_loop ys a1 = Inr a'" "ac_looping a'" "ac_spawned a' = ac_spawned a1 @ map (\<lambda>(r, n, ad, c, e). c) ys"
      "ac_wheel a' = Some wh'" "wheel_ok N wh'" "\<forall>(r, n, ad, c, e) \<in> set ys. served a' n ad c e"
      "\<forall>n ad c e. served a1 n ad c e \<longrightarrow> c \<notin> (\<lambda>(r, n, ad, c, e). c) ` set ys \<longrightarrow> e \<notin> (\<lambda>(r, n, ad, c, e). e) ` set ys \<longrightarrow> served a' n ad c e"
    by blast
  have "c \<notin> (\<lambda>(r, n, ad, c, e). c) ` set ys" "e \<notin> (\<lambda>(r, n, ad, c, e). e) ` set ys" using Cons.prems(5,6) y by auto
  then have "served a' n ad c e" using a'(7) a1(7) by blast
  moreover have "served a' n' ad' c' e'" if "served a n' ad' c' e'" "c' \<notin> (\<lambda>(r, n, ad, c, e). c) ` set (y # ys)"
      "e' \<notin> (\<lambda>(r, n, ad, c, e). e) ` set (y # ys)" for n' ad' c' e'
    using a'(7) a1(8) [OF that(1)] that(2,3) y by auto
  moreover have "accept_loop (y # ys) a = Inr a'" using a1(1) a'(1) \<open>r\<close> Cons.prems(2) y by simp
  moreover have "\<forall>(r, n, ad, c, e) \<in> set (y # ys). served a' n ad c e" using a'(6) \<open>served a' n ad c e\<close> y by simp
  moreover have "ac_spawned a' = ac_spawned a @ map (\<lambda>(r, n, ad, c, e). c) (y # ys)" using a1(4) a'(3) y by simp
  ultimately show ?case using a'(2,4,5) by blast
qed

text \<open>
  C29: The accept loop serves every connection.  As long as the server runs and no accept fails,
  every accepted descriptor gets a connection of its own that carries it, is registered with the
  worker's idle wheel, and has its handler spawned once, in the order of acceptance; the wheel
  stays well-formed and the loop goes on.
\<close>

theorem accept_loop_serves_all:
  assumes "list_all (\<lambda>(r, n, ad, c, e). r \<and> 0 \<le> n) xs" and "ac_looping a" and "ac_wheel a = Some wh" and "wheel_ok N wh"
    and "distinct (map (\<lambda>(r, n, ad, c, e). c) xs)" and "distinct (map (\<lambda>(r, n, ad, c, e). e) xs)" and "ac_handler a \<noteq> None"
  shows "\<exists>a' wh'. accept_loop xs a = Inr a' \<and> ac_looping a' \<and> ac_spawned a' = ac_spawned a @ map (\<lambda>(r, n, ad, c, e). c) xs
     \<and> ac_wheel a' = Some wh' \<and> wheel_ok N wh' \<and> (\<forall>(r, n, ad, c, e) \<in> set xs. served a' n ad c e)"
  using accept_loop_run [OF assms] by blast

text \<open>
  The first failing accept ends the loop of its worker for good, whatever the error is: also
  after a passing one such as \<open>EMFILE\<close> or \<open>ECONNABORTED\<close> the worker accepts nothing any more
  while the server still runs.
\<close>

theorem accept_loop_ends_at_first_error:
  assumes "ac_looping a" and "n < 0"
  shows "\<exists>a'. accept_loop ((True, n, ad, c, e) # xs) a = Inr a' \<and> \<not> ac_looping a' \<and> ac_spawned a' = ac_spawned a
    \<and> ac_world a' = ac_world a"
proof -
  have "accept_loop xs a' = Inr a'" if "\<not> ac_looping a'" for a' using that by (cases xs) auto
  then show ?thesis using assms by (simp add: accept_turn_def)
qed

text \<open>A server without a handler dies with its first connection: the exception leaves the accept loop.\<close>

lemma no_handler_throws: "0 \<le> n \<Longrightarrow> ac_handler a = None \<Longrightarrow> ac_wheel a = None \<Longrightarrow>
    accept_turn True n ad c e a = Inl BadFunctionCall"
  by (simp add: accept_turn_def split: prod.splits)

section \<open>Starting and stopping\<close>

definition socket_ok :: "socket_env \<Rightarrow> sockaddr_in \<Rightarrow> nat \<Rightarrow> bool" where
  "socket_ok env addr i \<longleftrightarrow> 0 \<le> env_socket env i \<and> 0 \<le> env_bind env addr i \<and> 0 \<le> env_listen env i"

lemma make_listen_socket_ok: "socket_ok env addr i \<Longrightarrow> make_listen_socket env addr i = (Inr (env_socket env i), [])"
  by (simp add: socket_ok_def make_listen_socket_def)

lemma make_listen_socket_error:
  "\<not> socket_ok env addr i \<Longrightarrow> \<exists>e. make_listen_socket env addr i = (Inl e, filter (\<lambda>fd. 0 \<le> fd) [env_socket env i])"
  by (auto simp: socket_ok_def make_listen_socket_def Let_def)

lemma list_update_prefix: "i < length xs \<Longrightarrow> xs[i := y] = take i xs @ y # drop (Suc i) xs"
  by (rule upd_conv_take_nth_drop)

lemma open_listeners_prefix:
  "(\<And>j. i \<le> j \<Longrightarrow> j < i + d \<Longrightarrow> socket_ok env (sv_addr sv) j) \<Longrightarrow> i + d \<le> length (listen_fds sv) \<Longrightarrow> d \<le> k \<Longrightarrow>
   open_listeners env i k sv = open_listeners env (i + d) (k - d)
     (sv\<lparr>listen_fds := take i (listen_fds sv) @ map (env_socket env) [i..<i + d] @ drop (i + d) (listen_fds sv)\<rparr>)"
proof (induction d arbitrary: i k sv)
  case 0
  then show ?case by simp
next
  case (Suc d)
  then obtain k' where k: "k = Suc k'" by (cases k) auto
  let ?sv = "sv\<lparr>listen_fds := (listen_fds sv)[i := env_socket env i]\<rparr>"
  have "open_listeners env i k sv = open_listeners env (Suc i) k' ?sv"
    using make_listen_socket_ok [of env "sv_addr sv" i] Suc.prems(1) [of i] by (simp add: k)
  also have "\<dots> = open_listeners env (Suc i + d) (k' - d) (?sv\<lparr>listen_fds :=
      take (Suc i) (listen_fds ?sv) @ map (env_socket env) [Suc i..<Suc i + d] @ drop (Suc i + d) (listen_fds ?sv)\<rparr>)"
    by (rule Suc.IH) (use Suc.prems k in auto)
  also have "take (Suc i) (listen_fds ?sv) @ map (env_socket env) [Suc i..<Suc i + d] @ drop (Suc i + d) (listen_fds ?sv)
      = take i (listen_fds sv) @ map (env_socket env) [i..<i + Suc d] @ drop (i + Suc d) (listen_fds sv)"
    using Suc.prems(2) by (simp add: take_Suc_conv_app_nth upt_conv_Cons del: upt_Suc)
  finally show ?case by (simp add: k)
qed

lemma open_listeners_ok:
  assumes "\<And>j. j < n \<Longrightarrow> socket_ok env (sv_addr sv) j" and "length (listen_fds sv) = n"
  shows "open_listeners env 0 n sv = (None, sv\<lparr>listen_fds := map (env_socket env) [0..<n]\<rparr>)"
  using open_listeners_prefix [of 0 n env sv n] assms by simp

lemma open_listeners_fails:
  assumes "\<And>j. j < i \<Longrightarrow> socket_ok env (sv_addr sv) j" and "\<not> socket_ok env (sv_addr sv) i" and "i < n" and "length (listen_fds sv) = n"
  shows "\<exists>e. open_listeners env 0 n sv = (Some e, sv\<lparr>listen_fds := map (env_socket env) [0..<i] @ drop i (listen_fds sv),
      fds_closed := fds_closed sv @ filter (\<lambda>fd. 0 \<le> fd) [env_socket env i]\<rparr>)"
proof -
  obtain k where k: "n - i = Suc k" using assms(3) by (cases "n - i") auto
  show ?thesis
    using open_listeners_prefix [of 0 i env sv n] make_listen_socket_error [OF assms(2)] assms(1,3,4)
    by (auto simp: k simp del: filter.simps)
qed

text \<open>The second loop queues the boot tasks of every worker.\<close>

definition boot_tasks :: "server \<Rightarrow> xtask list" where
  "boot_tasks sv = (if idle_secs sv > 0 then [start_wheel_task, accept_task] else [accept_task])"

definition booted :: "server \<Rightarrow> sched \<Rightarrow> sched" where
  "booted sv s = s\<lparr>cross_tasks := cross_tasks s @ boot_tasks sv\<rparr>"

lemma prepare_worker_ok:
  assumes "0 < idle_secs sv \<Longrightarrow> wheel_new m (idle_secs sv) = Inr w"
  shows "prepare_worker m i p sv = (None, p\<lparr>schedulers := (schedulers p)[i := booted sv (schedulers p ! i)]\<rparr>,
      if 0 < idle_secs sv then sv\<lparr>wheels := (wheels sv)[i := Some w]\<rparr> else sv)"
  using assms by (auto simp: prepare_worker_def booted_def boot_tasks_def queue_boot_task_def Let_def)

lemma prepare_workers_ok:
  assumes w: "0 < idle_secs sv \<Longrightarrow> wheel_new m (idle_secs sv) = Inr w"
  shows "i + k = length (schedulers p) \<Longrightarrow> length (wheels sv) = length (schedulers p) \<Longrightarrow>
    prepare_workers m i k p sv = (None,
      p\<lparr>schedulers := take i (schedulers p) @ map (booted sv) (drop i (schedulers p))\<rparr>,
      if 0 < idle_secs sv then sv\<lparr>wheels := take i (wheels sv) @ replicate k (Some w)\<rparr> else sv)"
  using w
proof (induction k arbitrary: i p sv)
  case 0
  then show ?case by simp
next
  case (Suc k)
  let ?p = "p\<lparr>schedulers := (schedulers p)[i := booted sv (schedulers p ! i)]\<rparr>"
  let ?sv = "if 0 < idle_secs sv then sv\<lparr>wheels := (wheels sv)[i := Some w]\<rparr> else sv"
  have i: "i < length (schedulers p)" "i < length (wheels sv)" using Suc.prems(1,2) by auto
  have b: "booted ?sv = booted sv" "idle_secs ?sv = idle_secs sv" by (auto simp: booted_def boot_tasks_def)
  have step: "prepare_workers m i (Suc k) p sv = prepare_workers m (Suc i) k ?p ?sv"
    using prepare_worker_ok [of sv m w i p] Suc.prems(3) by simp
  have IH: "prepare_workers m (Suc i) k ?p ?sv = (None,
      ?p\<lparr>schedulers := take (Suc i) (schedulers ?p) @ map (booted ?sv) (drop (Suc i) (schedulers ?p))\<rparr>,
      if 0 < idle_secs ?sv then ?sv\<lparr>wheels := take (Suc i) (wheels ?sv) @ replicate k (Some w)\<rparr> else ?sv)"
    by (rule Suc.IH) (use Suc.prems in auto)
  have s: "take (Suc i) (schedulers ?p) @ map (booted ?sv) (drop (Suc i) (schedulers ?p))
      = take i (schedulers p) @ map (booted sv) (drop i (schedulers p))"
    using i by (simp add: b take_Suc_conv_app_nth flip: Cons_nth_drop_Suc)
  have v: "take (Suc i) ((wheels sv)[i := Some w]) @ replicate k (Some w) = take i (wheels sv) @ replicate (Suc k) (Some w)"
    using i by (simp add: take_Suc_conv_app_nth)
  show ?case unfolding step IH s b(2) using v by simp
qed

text \<open>A server that has not been started yet.\<close>

definition unstarted :: "server \<Rightarrow> bool" where
  "unstarted sv \<longleftrightarrow> \<not> sv_running sv \<and> listen_fds sv = [] \<and> wheels sv = [] \<and> sv_pool sv = None"

lemma pool_build_length:
  "pool_build mk n base M cpus k fds cfgs = Inr (fds', cfgs') \<Longrightarrow> length cfgs' = length cfgs + k"
proof (induction k arbitrary: fds cfgs)
  case 0
  then show ?case by simp
next
  case (Suc k)
  let ?cfg = "worker_config n base M cpus fds"
  from Suc.prems obtain fd where "pool_build mk n base M cpus k (fds @ [fd]) (cfgs @ [?cfg]) = Inr (fds', cfgs')"
    by (auto simp: Let_def rbind_eq_Inr)
  from Suc.IH [OF this] show ?case by simp
qed

lemma server_start_run:
  assumes "unstarted sv" and "spool_new mk (worker_threads sv) (server_config sv) (sqpoll_threads sv) (sqpoll_cpus sv) = Inr (fds, cfgs)"
    and "\<And>i. i < worker_threads sv \<Longrightarrow> socket_ok env (sv_addr sv) i"
    and "0 < idle_secs sv \<Longrightarrow> wheel_new m (idle_secs sv) = Inr w"
  shows "server_start mk env m sv = (None, sv\<lparr>sv_running := True, sigpipe_ignored := True,
      listen_fds := map (env_socket env) [0..<worker_threads sv],
      wheels := replicate (worker_threads sv) (if 0 < idle_secs sv then Some w else None),
      sv_pool := Some (spool_start ((spool_of cfgs)\<lparr>schedulers := map (booted sv) (schedulers (spool_of cfgs))\<rparr>))\<rparr>)"
proof -
  let ?n = "worker_threads sv" and ?p = "spool_of cfgs"
  have len: "length (schedulers ?p) = ?n"
    using pool_build_length assms(2) unfolding spool_new_def by (fastforce simp: spool_of_def)
  let ?sv2 = "sv\<lparr>sv_running := True, sigpipe_ignored := True, sv_pool := Some ?p, listen_fds := replicate ?n 0\<rparr>"
  let ?sv3 = "?sv2\<lparr>listen_fds := map (env_socket env) [0..<?n]\<rparr>"
  let ?sv4 = "?sv3\<lparr>wheels := replicate ?n None\<rparr>"
  have opn: "open_listeners env 0 ?n ?sv2 = (None, ?sv3)"
    using open_listeners_ok [of ?n env ?sv2] assms(3) by simp
  have b: "booted ?sv4 = booted sv" by (auto simp: booted_def boot_tasks_def)
  have prep: "prepare_workers m 0 ?n ?p ?sv4 = (None, ?p\<lparr>schedulers := map (booted sv) (schedulers ?p)\<rparr>,
      if 0 < idle_secs sv then ?sv4\<lparr>wheels := replicate ?n (Some w)\<rparr> else ?sv4)"
    using prepare_workers_ok [of ?sv4 m w 0 ?n ?p] assms(4) len unfolding b by simp
  show ?thesis
    using assms(1,2) opn prep len by (simp add: server_start_def Let_def unstarted_def resized_def)
qed

text \<open>
  C28: Starting brings every worker up.  On success there is one listening socket per worker and one
  thread for each scheduler; when these threads are created, each scheduler already has its boot tasks
  queued - with an idle time first the wheel, then the accept loop - so that none of them needs a wake-up
  to be found; and every wheel has as many buckets as the idle time has seconds.
\<close>

theorem start_brings_up_workers:
  assumes "unstarted sv" and "spool_new mk (worker_threads sv) (server_config sv) (sqpoll_threads sv) (sqpoll_cpus sv) = Inr (fds, cfgs)"
    and "\<forall>i < worker_threads sv. socket_ok env (sv_addr sv) i"
    and "idle_secs sv \<le> int vec_max" and "idle_secs sv \<le> int m"
  shows "\<exists>sv' p. server_start mk env m sv = (None, sv') \<and> sv_pool sv' = Some p
    \<and> listen_fds sv' = map (env_socket env) [0..<worker_threads sv] \<and> fds_closed sv' = fds_closed sv
    \<and> pool_threads p = [0..<worker_threads sv] \<and> length (schedulers p) = worker_threads sv
    \<and> boot_queues p = replicate (worker_threads sv)
         (if idle_secs sv > 0 then [start_wheel_task, accept_task] else [accept_task])
    \<and> map cross_tasks (schedulers p) = boot_queues p
    \<and> (\<forall>i < worker_threads sv. if idle_secs sv > 0
         then \<exists>w. wheels sv' ! i = Some w \<and> wheel_ok (nat (idle_secs sv)) w else wheels sv' ! i = None)"
proof -
  obtain w where w: "0 < idle_secs sv \<Longrightarrow> wheel_new m (idle_secs sv) = Inr w \<and> wheel_ok (nat (idle_secs sv)) w"
    using wheel_new_ok [of "nat (idle_secs sv)" "idle_secs sv" m] assms(4,5) by fastforce
  have len: "length cfgs = worker_threads sv"
    using pool_build_length assms(2) unfolding spool_new_def by fastforce
  have "server_start mk env m sv = (None, sv\<lparr>sv_running := True, sigpipe_ignored := True,
      listen_fds := map (env_socket env) [0..<worker_threads sv],
      wheels := replicate (worker_threads sv) (if 0 < idle_secs sv then Some w else None),
      sv_pool := Some (spool_start ((spool_of cfgs)\<lparr>schedulers := map (booted sv) (schedulers (spool_of cfgs))\<rparr>))\<rparr>)"
    by (rule server_start_run [OF assms(1,2)]) (use assms(3) w in auto)
  then show ?thesis
    using len w by (auto simp: spool_of_def spool_start_def booted_def boot_tasks_def sched_new_def map_replicate_const comp_def)
qed

text \<open>
  What the worker threads and the coroutines on them do between two calls of the owner: the loops make
  steps, the wheels change.  Whether a wheel exists and which threads there are does not change.
\<close>

definition workers_run :: "env \<Rightarrow> server \<Rightarrow> server \<Rightarrow> bool" where
  "workers_run e sv sv' \<longleftrightarrow>
     (\<exists>ws ss. sv' = sv\<lparr>wheels := ws, sv_pool := map_option (\<lambda>p. p\<lparr>schedulers := ss\<rparr>) (sv_pool sv)\<rparr>
        \<and> map (\<lambda>w. w = None) ws = map (\<lambda>w. w = None) (wheels sv)
        \<and> (\<forall>p. sv_pool sv = Some p \<longrightarrow> list_all2 (sched_step e)\<^sup>*\<^sup>* (schedulers p) ss))"

lemma workers_runE:
  assumes "workers_run e sv sv'" and "sv_pool sv = Some p"
  obtains ws ss where "sv' = sv\<lparr>wheels := ws, sv_pool := Some (p\<lparr>schedulers := ss\<rparr>)\<rparr>" "length ws = length (wheels sv)"
    "\<And>i. i < length ws \<Longrightarrow> ws ! i = None \<longleftrightarrow> wheels sv ! i = None" "list_all2 (sched_step e)\<^sup>*\<^sup>* (schedulers p) ss"
proof -
  obtain ws ss where w: "sv' = sv\<lparr>wheels := ws, sv_pool := Some (p\<lparr>schedulers := ss\<rparr>)\<rparr>"
    "map (\<lambda>w. w = None) ws = map (\<lambda>w. w = None) (wheels sv)" "list_all2 (sched_step e)\<^sup>*\<^sup>* (schedulers p) ss"
    using assms by (auto simp: workers_run_def)
  have len: "length ws = length (wheels sv)" using map_eq_imp_length_eq [OF w(2)] .
  have "ws ! i = None \<longleftrightarrow> wheels sv ! i = None" if "i < length ws" for i
    using arg_cong [OF w(2), of "\<lambda>xs. xs ! i"] that len by simp
  with that w(1,3) len show thesis by blast
qed

lemma workers_run_refl: "workers_run e sv sv"
proof (cases "sv_pool sv")
  case None
  then show ?thesis unfolding workers_run_def by (intro exI [of _ "wheels sv"]) simp
next
  case (Some p)
  then show ?thesis unfolding workers_run_def
    by (intro exI [of _ "wheels sv"] exI [of _ "schedulers p"]) (simp add: list_all2_conv_all_nth)
qed

text \<open>\<open>stop\<close> on a running server, in the state its workers have reached.\<close>

lemma server_stop_running:
  "sv_running sv \<Longrightarrow> sv_pool sv = Some p \<Longrightarrow> server_stop who sv = sv\<lparr>sv_running := False,
     fds_shut := fds_shut sv @ filter (\<lambda>fd. fd \<ge> 0) (listen_fds sv),
     sv_pool := Some (p\<lparr>schedulers := map2 (\<lambda>i. post_stop (who = Some i)) [0..<length (schedulers p)] (schedulers p)\<rparr>)\<rparr>"
  by (simp add: server_stop_def)

lemma post_stop_signals: "\<not> own \<Longrightarrow> stop_task \<in> set (cross_tasks (post_stop own s)) \<and> 0 < wake_count (post_stop own s)"
  by (simp add: post_stop_def wake_remote_def queue_boot_task_def eventfd_write_pos)

text \<open>
  C30: The ends of a server.  A server is started, its workers run, \<open>stop\<close> is called on whatever thread,
  and they run on.  Then \<open>stop\<close> has left every other worker with the stop task queued and its eventfd
  readable, and a worker on whose thread it was called with its stop flag set.  If the owner waits and
  then destroys the server, or destroys it while it is running, every listening socket has been shut
  down and then closed exactly once, and no wheel is freed under a running thread.  If it is destroyed
  after \<open>stop\<close> alone, wheels are freed under running threads whenever there are any.
\<close>

theorem server_life_cycle:
  assumes "unstarted sv" and "spool_new mk (worker_threads sv) (server_config sv) (sqpoll_threads sv) (sqpoll_cpus sv) = Inr (fds, cfgs)"
    and "\<forall>i < worker_threads sv. socket_ok env (sv_addr sv) i"
    and "idle_secs sv \<le> int vec_max" and "idle_secs sv \<le> int m"
    and "server_start mk env m sv = (None, sv1)" and "workers_run e sv1 sv2" and "workers_run e (server_stop who sv2) sv3"
    and "fds' = map (env_socket env) [0..<worker_threads sv]"
  shows "(\<exists>p. sv_pool (server_stop who sv2) = Some p \<and> length (schedulers p) = worker_threads sv
      \<and> (\<forall>i < worker_threads sv. if who = Some i then stopping (schedulers p ! i)
           else stop_task \<in> set (cross_tasks (schedulers p ! i)) \<and> 0 < wake_count (schedulers p ! i)))
    \<and> (\<exists>sv4. server_destroy (server_wait sv3) = Inr sv4
      \<and> fds_shut sv4 = fds_shut sv @ fds' \<and> fds_closed sv4 = fds_closed sv @ fds' \<and> listen_fds sv4 = [] \<and> sv_pool sv4 = None)
    \<and> (\<exists>sv4. server_destroy sv2 = Inr sv4
      \<and> fds_shut sv4 = fds_shut sv @ fds' \<and> fds_closed sv4 = fds_closed sv @ fds' \<and> listen_fds sv4 = [] \<and> sv_pool sv4 = None)
    \<and> (0 < idle_secs sv \<and> 0 < worker_threads sv \<longrightarrow> server_destroy sv3 = Inl WheelInUse)"
proof -
  let ?n = "worker_threads sv"
  obtain w where w: "0 < idle_secs sv \<Longrightarrow> wheel_new m (idle_secs sv) = Inr w"
    using wheel_new_ok [of "nat (idle_secs sv)" "idle_secs sv" m] assms(4,5) by fastforce
  define p1 where "p1 = spool_start ((spool_of cfgs)\<lparr>schedulers := map (booted sv) (schedulers (spool_of cfgs))\<rparr>)"
  have len: "length cfgs = ?n"
    using pool_build_length assms(2) unfolding spool_new_def by fastforce
  have p1: "length (schedulers p1) = ?n" "pool_threads p1 = [0..<?n]" using len by (simp_all add: p1_def spool_of_def spool_start_def)
  have nn: "filter (\<lambda>fd. 0 \<le> fd) fds' = fds'" using assms(3,9) by (auto simp: socket_ok_def filter_id_conv)
  have sv1: "sv1 = sv\<lparr>sv_running := True, sigpipe_ignored := True, listen_fds := fds',
      wheels := replicate ?n (if 0 < idle_secs sv then Some w else None), sv_pool := Some p1\<rparr>"
    using server_start_run [OF assms(1,2), of env m w] assms(3,6,9) w by (simp add: p1_def)
  then have "sv_pool sv1 = Some p1" by simp
  then obtain ws2 ss2 where sv2: "sv2 = sv1\<lparr>wheels := ws2, sv_pool := Some (p1\<lparr>schedulers := ss2\<rparr>)\<rparr>"
    and w2: "length ws2 = length (wheels sv1)" "\<And>i. i < length ws2 \<Longrightarrow> ws2 ! i = None \<longleftrightarrow> wheels sv1 ! i = None"
      "list_all2 (sched_step e)\<^sup>*\<^sup>* (schedulers p1) ss2"
    using workers_runE [OF assms(7)] by metis
  have ws2: "length ws2 = ?n" "\<And>i. i < ?n \<Longrightarrow> ws2 ! i = None \<longleftrightarrow> \<not> 0 < idle_secs sv" using w2(1,2) by (simp_all add: sv1)
  have ss2: "length ss2 = ?n" using list_all2_lengthD [OF w2(3)] p1(1) by simp
  define ss where "ss = map2 (\<lambda>i. post_stop (who = Some i)) [0..<?n] ss2"
  have ss: "length ss = ?n" "\<And>i. i < ?n \<Longrightarrow> ss ! i = post_stop (who = Some i) (ss2 ! i)" using ss2 by (simp_all add: ss_def)
  have st: "server_stop who sv2 = sv2\<lparr>sv_running := False, fds_shut := fds_shut sv @ fds', sv_pool := Some (p1\<lparr>schedulers := ss\<rparr>)\<rparr>"
    using server_stop_running [of sv2 "p1\<lparr>schedulers := ss2\<rparr>" who] nn ss2 by (simp add: sv2 sv1 ss_def)
  then have "sv_pool (server_stop who sv2) = Some (p1\<lparr>schedulers := ss\<rparr>)" by simp
  then obtain ws3 ss3 where
    v3: "sv3 = (server_stop who sv2)\<lparr>wheels := ws3, sv_pool := Some (p1\<lparr>schedulers := ss, schedulers := ss3\<rparr>)\<rparr>"
    and w3: "length ws3 = length (wheels (server_stop who sv2))" "\<And>i. i < length ws3 \<Longrightarrow> ws3 ! i = None \<longleftrightarrow> wheels (server_stop who sv2) ! i = None"
    using workers_runE [OF assms(8)] by metis
  have sv3: "sv3 = sv2\<lparr>sv_running := False, fds_shut := fds_shut sv @ fds', wheels := ws3, sv_pool := Some (p1\<lparr>schedulers := ss3\<rparr>)\<rparr>"
    unfolding v3 st by simp
  have "wheels (server_stop who sv2) = ws2" unfolding st by (simp add: sv2)
  then have ws3: "length ws3 = ?n" "\<And>i. i < ?n \<Longrightarrow> ws3 ! i = None \<longleftrightarrow> \<not> 0 < idle_secs sv"
    using w3 ws2 by simp_all
  have own: "stopping (post_stop True s)" for s
    by (simp add: post_stop_def stop_own_def get_sqe_def ring_submit_def Let_def)
  have "if who = Some i then stopping (ss ! i) else stop_task \<in> set (cross_tasks (ss ! i)) \<and> 0 < wake_count (ss ! i)"
    if "i < ?n" for i using ss(2) [OF that] own post_stop_signals [of False] by simp
  moreover have "\<exists>sv4. server_destroy (server_wait sv3) = Inr sv4
      \<and> fds_shut sv4 = fds_shut sv @ fds' \<and> fds_closed sv4 = fds_closed sv @ fds' \<and> listen_fds sv4 = [] \<and> sv_pool sv4 = None"
    using nn by (simp add: sv3 sv2 sv1 server_destroy_def server_wait_def spool_wait_def Let_def)
  moreover have "\<exists>sv4. server_destroy sv2 = Inr sv4
      \<and> fds_shut sv4 = fds_shut sv @ fds' \<and> fds_closed sv4 = fds_closed sv @ fds' \<and> listen_fds sv4 = [] \<and> sv_pool sv4 = None"
    using nn by (simp add: sv2 sv1 server_destroy_def server_wait_def server_stop_def spool_wait_def Let_def)
  moreover have "server_destroy sv3 = Inl WheelInUse" if "0 < idle_secs sv" "0 < ?n"
    using that ws3 p1(2) by (auto simp: sv3 sv2 sv1 server_destroy_def Let_def)
  ultimately show ?thesis using ss(1) by (simp add: st)
qed

section \<open>Failing and unordered shutdowns\<close>

text \<open>
  When the \<open>i\<close>-th listener cannot be opened, \<open>start\<close> throws with the flag \<open>running_\<close> set and
  the places from \<open>i\<close> on still zero, so that the destructor shuts down and closes descriptor 0.
\<close>

theorem failed_start_closes_stdin:
  assumes "unstarted sv" and "spool_new mk (worker_threads sv) (server_config sv) (sqpoll_threads sv) (sqpoll_cpus sv) = Inr (fds, cfgs)"
    and "\<forall>j < i. socket_ok env (sv_addr sv) j" and "\<not> socket_ok env (sv_addr sv) i" and "i < worker_threads sv"
  shows "\<exists>e sv1 sv2. server_start mk env m sv = (Some e, sv1) \<and> sv_running sv1
    \<and> server_start mk env m sv1 = (None, sv1) \<and> server_destroy sv1 = Inr sv2 \<and> 0 \<in> set (fds_closed sv2) \<and> 0 \<in> set (fds_shut sv2)"
proof -
  let ?n = "worker_threads sv" and ?p = "spool_of cfgs"
  have len: "length cfgs = ?n"
    using pool_build_length assms(2) unfolding spool_new_def by fastforce
  let ?sv2 = "sv\<lparr>sv_running := True, sigpipe_ignored := True, sv_pool := Some ?p, listen_fds := replicate ?n 0\<rparr>"
  let ?sv3 = "?sv2\<lparr>listen_fds := map (env_socket env) [0..<i] @ replicate (?n - i) 0,
      fds_closed := fds_closed sv @ filter (\<lambda>fd. 0 \<le> fd) [env_socket env i]\<rparr>"
  obtain e where "open_listeners env 0 ?n ?sv2 = (Some e, ?sv3)"
    using open_listeners_fails [of i env ?sv2 ?n] assms(3-5) by auto
  then have "server_start mk env m sv = (Some e, ?sv3)"
    using assms(1,2) len by (simp add: server_start_def Let_def unstarted_def resized_def spool_of_def del: filter.simps)
  moreover have "server_start mk env m ?sv3 = (None, ?sv3)" by (simp add: server_start_def)
  moreover have "0 \<in> set (listen_fds ?sv3)" using assms(5) by simp
  then have "\<exists>sv2. server_destroy ?sv3 = Inr sv2 \<and> 0 \<in> set (fds_closed sv2) \<and> 0 \<in> set (fds_shut sv2)"
    by (auto simp: server_destroy_def server_wait_def server_stop_def spool_wait_def spool_of_def Let_def)
  moreover have "sv_running ?sv3" by simp
  ultimately show ?thesis by blast
qed

text \<open>
  The destructor waits only while \<open>running_\<close> is set: after \<open>stop\<close> without \<open>wait\<close> it frees the
  wheels although the worker threads may still run.
\<close>

theorem destroy_after_stop_frees_used_wheel:
  assumes "sv_running sv" and "sv_pool sv = Some p" and "i \<in> set (pool_threads p)"
    and "i < length (wheels sv)" and "wheels sv ! i \<noteq> None"
  shows "server_destroy (server_stop None sv) = Inl WheelInUse"
  using assms by (auto simp: server_destroy_def server_stop_def Let_def)

text \<open>Starting again after a stop overwrites the old descriptors, which are never closed.\<close>

theorem restart_forgets_listeners:
  assumes "\<not> sv_running sv" and "length (listen_fds sv) = worker_threads sv"
    and "spool_new mk (worker_threads sv) (server_config sv) (sqpoll_threads sv) (sqpoll_cpus sv) = Inr (fds, cfgs)"
    and "\<forall>i < worker_threads sv. socket_ok env (sv_addr sv) i" and "server_start mk env m sv = (err, sv')"
  shows "listen_fds sv' = map (env_socket env) [0..<worker_threads sv] \<and> fds_closed sv' = fds_closed sv"
proof -
  let ?n = "worker_threads sv"
  have len: "length cfgs = ?n" using pool_build_length assms(3) unfolding spool_new_def by fastforce
  have keep: "prepare_workers m i k p s = (err', p', s') \<Longrightarrow> listen_fds s' = listen_fds s \<and> fds_closed s' = fds_closed s"
    for i k p s err' p' s'
    by (induction m i k p s rule: prepare_workers.induct)
      (fastforce simp: prepare_worker_def Let_def split: prod.splits option.splits if_splits sum.splits)+
  have "open_listeners env 0 ?n (sv\<lparr>sv_running := True, sigpipe_ignored := True, sv_pool := Some (spool_of cfgs)\<rparr>)
      = (None, sv\<lparr>sv_running := True, sigpipe_ignored := True, sv_pool := Some (spool_of cfgs), listen_fds := map (env_socket env) [0..<?n]\<rparr>)"
    using open_listeners_ok [of ?n env] assms(2,4) by simp
  then show ?thesis
    using assms(1,2,3,5) len keep
    by (auto simp: server_start_def Let_def resized_def spool_of_def split: prod.splits option.splits)
qed

section \<open>Witnesses\<close>

definition demo_server :: server where
  "demo_server = set_idle_timeout 2 (server_new (inet_address 8002 inet_address_default_ip) 0)"

definition demo_sockets :: socket_env where
  "demo_sockets = \<lparr>env_socket = (\<lambda>i. int i + 3), env_bind = (\<lambda>addr i. 0), env_listen = (\<lambda>i. 0), env_errno = (\<lambda>i. 0)\<rparr>"

lemma demo_spool:
  obtains cfgs where "spool_new (\<lambda>i c. Inr 9) (worker_threads demo_server) (server_config demo_server)
    (sqpoll_threads demo_server) (sqpoll_cpus demo_server) = Inr ([9], cfgs)"
  by (simp add: demo_server_def set_idle_timeout_def server_new_def spool_new_def Let_def)

lemma demo_unstarted: "unstarted demo_server" "worker_threads demo_server = 1" "idle_secs demo_server = 2"
  by (simp_all add: unstarted_def demo_server_def set_idle_timeout_def server_new_def)

theorem accept_loop_serves_all_witness:
  "\<exists>a' wh'. accept_loop [(True, 5, demo_peer, 40, 8), (True, 6, demo_peer, 41, 9)]
      \<lparr>ac_handler = Some 1, ac_world = world_new (Some demo_pool), ac_wheel = Some demo_wheel, ac_spawned = [], ac_looping = True\<rparr> = Inr a'
    \<and> ac_spawned a' = [40, 41] \<and> ac_wheel a' = Some wh' \<and> wheel_ok 3 wh' \<and> served a' 6 demo_peer 41 9"
  using accept_loop_serves_all [of "[(True, 5, demo_peer, 40, 8), (True, 6, demo_peer, 41, 9)]"
      "\<lparr>ac_handler = Some 1, ac_world = world_new (Some demo_pool), ac_wheel = Some demo_wheel, ac_spawned = [], ac_looping = True\<rparr>" demo_wheel 3]
    demo_wheel_ok by auto

theorem start_brings_up_workers_witness:
  "\<exists>sv' p. server_start (\<lambda>i c. Inr 9) demo_sockets 100 demo_server = (None, sv') \<and> sv_pool sv' = Some p
    \<and> listen_fds sv' = map (env_socket demo_sockets) [0..<worker_threads demo_server] \<and> pool_threads p = [0..<worker_threads demo_server]"
proof -
  obtain cfgs where c: "spool_new (\<lambda>i c. Inr 9) (worker_threads demo_server) (server_config demo_server)
    (sqpoll_threads demo_server) (sqpoll_cpus demo_server) = Inr ([9], cfgs)" by (rule demo_spool)
  have "\<forall>i < worker_threads demo_server. socket_ok demo_sockets (sv_addr demo_server) i" "idle_secs demo_server \<le> int vec_max"
      "idle_secs demo_server \<le> int 100"
    by (simp_all add: demo_unstarted vec_max_def demo_sockets_def socket_ok_def)
  from start_brings_up_workers [OF demo_unstarted(1) c this] show ?thesis by blast
qed

theorem server_life_cycle_witness:
  "\<exists>sv1 sv4. server_start (\<lambda>i c. Inr 9) demo_sockets 100 demo_server = (None, sv1) \<and> server_destroy sv1 = Inr sv4
    \<and> fds_closed sv4 = [3] \<and> server_destroy (server_stop None sv1) = Inl WheelInUse
    \<and> (\<exists>sv5. server_destroy (server_wait (server_stop (Some 0) sv1)) = Inr sv5 \<and> fds_closed sv5 = [3])"
proof -
  obtain cfgs where c: "spool_new (\<lambda>i c. Inr 9) (worker_threads demo_server) (server_config demo_server)
    (sqpoll_threads demo_server) (sqpoll_cpus demo_server) = Inr ([9], cfgs)" by (rule demo_spool)
  have h: "\<forall>i < worker_threads demo_server. socket_ok demo_sockets (sv_addr demo_server) i" "idle_secs demo_server \<le> int vec_max"
      "idle_secs demo_server \<le> int 100"
    by (simp_all add: demo_unstarted vec_max_def demo_sockets_def socket_ok_def)
  obtain w where "wheel_new 100 (idle_secs demo_server) = Inr w"
    using wheel_new_ok [of 2 2 100] by (auto simp: demo_unstarted vec_max_def)
  from server_start_run [OF demo_unstarted(1) c _ this] h(1) obtain sv1 where
    s: "server_start (\<lambda>i c. Inr 9) demo_sockets 100 demo_server = (None, sv1)" by auto
  have "fds_closed demo_server @ map (env_socket demo_sockets) [0..<worker_threads demo_server] = [3]"
    by (simp add: demo_unstarted demo_sockets_def) (simp add: demo_server_def set_idle_timeout_def server_new_def)
  moreover have "0 < idle_secs demo_server" "0 < worker_threads demo_server" by (simp_all add: demo_unstarted)
  ultimately show ?thesis
    using server_life_cycle [OF demo_unstarted(1) c h s workers_run_refl [of undefined] workers_run_refl refl, of None]
      server_life_cycle [OF demo_unstarted(1) c h s workers_run_refl [of undefined] workers_run_refl refl, of "Some 0"] s by auto
qed

end
