(* ===== verification/Server_Shutdown.thy ===== *)
theory Server_Shutdown
  imports Tcp_Server Scheduler_Stop
begin

text \<open>
  \<open>TcpServer::stop\<close> and the event loops of its workers (\<open>tcp_server.cc\<close>, \<open>scheduler.cc\<close>): the stop task
  queued on a worker, the wake-up, the round of the loop that runs it, and the stop flag it sets.
\<close>

section \<open>A worker that runs the stop task\<close>

text \<open>
  The loop of a worker as in \<open>Scheduler\<close>, with the closure of \<open>TcpServer::stop\<close> given its meaning: it
  calls \<open>stop\<close> on the scheduler whose thread runs it.  \<open>k\<close> counts the steps of the loop.
\<close>

inductive worker_run :: "env \<Rightarrow> nat \<Rightarrow> sched \<Rightarrow> sched \<Rightarrow> bool" for env where
  wr_nil: "worker_run env 0 s s"
| wr_stop: "worker_run env k s t \<Longrightarrow> pc t = RunTasks (stop_task # fs) \<Longrightarrow> next_seq (tq t) < sz_max \<Longrightarrow>
    worker_run env (Suc k) s (stop_own (t\<lparr>pc := InTask fs\<rparr>))"
| wr_loop: "worker_run env k s t \<Longrightarrow> loop_step env t u \<Longrightarrow> (\<And>fs. pc t \<noteq> RunTasks (stop_task # fs)) \<Longrightarrow>
    worker_run env (Suc k) s u"
| wr_user: "worker_run env k s t \<Longrightarrow> in_user (pc t) \<Longrightarrow> user_step env t u \<Longrightarrow> worker_run env k s u"
| wr_other: "worker_run env k s t \<Longrightarrow> ext_step t u \<Longrightarrow> worker_run env k s u"

lemma stop_task_steps:
  assumes "pc t = RunTasks (stop_task # fs)" and "next_seq (tq t) < sz_max"
  shows "(sched_step env)\<^sup>*\<^sup>* t (stop_own (t\<lparr>pc := InTask fs\<rparr>))"
proof -
  have "sched_step env t (t\<lparr>pc := InTask fs\<rparr>)"
    by (rule by_loop, rule task_start [OF assms]) (simp add: run_task_def stop_task_def)
  moreover have "sched_step env (t\<lparr>pc := InTask fs\<rparr>) (stop_own (t\<lparr>pc := InTask fs\<rparr>))"
    by (rule by_user) (simp, rule user_stop)
  ultimately show ?thesis by simp
qed

lemma worker_run_steps: "worker_run env k s u \<Longrightarrow> (sched_step env)\<^sup>*\<^sup>* s u"
proof (induction rule: worker_run.induct)
  case (wr_stop k s t fs)
  with stop_task_steps [of t fs env] show ?case by (meson rtranclp_trans)
qed (auto intro: rtranclp.rtrancl_into_rtrancl by_loop by_user by_other)

section \<open>The distance to the stop task\<close>

definition before_stop :: "xtask list \<Rightarrow> nat" where
  "before_stop ts = length (takeWhile (\<lambda>f. f \<noteq> stop_task) ts)"

lemma before_stop_simps [simp]:
  "before_stop (stop_task # ts) = 0" "f \<noteq> stop_task \<Longrightarrow> before_stop (f # ts) = Suc (before_stop ts)"
  "stop_task \<in> set ts \<Longrightarrow> before_stop (ts @ us) = before_stop ts"
  by (auto simp: before_stop_def takeWhile_append1)

text \<open>Steps to the end of the current round, with \<open>r\<close> coroutines ready.\<close>

fun round_left :: "location \<Rightarrow> nat \<Rightarrow> nat" where
  "round_left NotRunning r = 1"
| "round_left LoopTop r = 0"
| "round_left (RunTasks ts) r = 2 * length ts + 2 * r + 2 * kBatch + 5"
| "round_left (InTask ts) r = 2 * length ts + 2 * r + 2 * kBatch + 6"
| "round_left ReadyLoop r = 2 * r + 2 * kBatch + 4"
| "round_left InResume r = 2 * r + 2 * kBatch + 5"
| "round_left BeforeWait r = 2 * kBatch + 3"
| "round_left Blocked r = 2 * kBatch + 2"
| "round_left (Completing cs) r = 2 * length cs + 1"
| "round_left (InTimer cs) r = 2 * length cs + 2"
| "round_left _ r = 0"

fun tasks_here :: "location \<Rightarrow> xtask list" where
  "tasks_here (RunTasks ts) = ts"
| "tasks_here (InTask ts) = ts"
| "tasks_here _ = []"

fun between :: "location \<Rightarrow> nat" where
  "between (InTask ts) = 1"
| "between _ = 0"

definition stop_dist :: "sched \<Rightarrow> nat" where
  "stop_dist s =
     (if stop_task \<in> set (tasks_here (pc s)) then 2 * before_stop (tasks_here (pc s)) + between (pc s) + 1
      else round_left (pc s) (length (ready s)) + 2 * before_stop (cross_tasks s) + 2)"

definition stop_queued :: "sched \<Rightarrow> bool" where
  "stop_queued s \<longleftrightarrow> (running (pc s) \<or> pc s = NotRunning)
     \<and> (stop_task \<in> set (tasks_here (pc s)) \<or> stop_task \<in> set (cross_tasks s))"

text \<open>One step of the loop on the way.\<close>

lemma stop_dist_loop:
  assumes "loop_step env s u" and q: "stop_queued s" and ns: "\<And>fs. pc s \<noteq> RunTasks (stop_task # fs)"
  shows "winding_down u \<or> stop_queued u \<and> Suc (stop_dist u) + 2 * length (pushed s) \<le> stop_dist s + 2 * length (pushed u)"
  using assms(1)
proof cases
  case enter
  then show ?thesis using q by (auto simp: stop_queued_def stop_dist_def run_enter_def timer_queue_start_def
      rearm_eventfd_watch_def get_sqe_def)
next
  case top_drain
  then have "stop_task \<in> set (cross_tasks s)" using q by (simp add: stop_queued_def)
  then show ?thesis using top_drain by (simp add: stop_queued_def stop_dist_def drain_eq)
next
  case (task_start f fs)
  obtain q' where u: "u = s\<lparr>pc := InTask fs, tq := q'\<rparr>" using run_task_frame [OF task_start(3)] by auto
  have "f \<noteq> stop_task" using ns task_start(1) by blast
  then show ?thesis using task_start(1) q by (auto simp: u stop_queued_def stop_dist_def)
next
  case (complete_timer c cs)
  obtain q' where "u = s\<lparr>pc := InTimer cs, tq := q'\<rparr>"
    using timerfd_on_complete_frame [OF complete_timer(4)] by auto
  then show ?thesis using complete_timer(1) q by (simp add: stop_queued_def stop_dist_def)
next
  case (complete c cs)
  have D: "pc y = pc x \<and> cross_tasks y = cross_tasks x \<and> length (pushed x) \<le> length (pushed y)" if "dispatch c x = Inr y" for x y
    using that by (auto simp: sched_defs split: user_data.splits option.splits if_splits)
  show ?thesis
    using D [OF complete(3)] complete(1) q by (simp add: stop_queued_def stop_dist_def)
next
  case wait_return
  have "length (take kBatch (cq s)) \<le> kBatch" by simp
  then show ?thesis using wait_return q by (simp add: stop_queued_def stop_dist_def)
next
  case timer_end
  then show ?thesis using q by (auto simp: stop_queued_def stop_dist_def timer_queue_start_def get_sqe_def)
qed (use q in \<open>auto simp: stop_queued_def stop_dist_def winding_down_def ring_submit_def\<close>)

lemma stop_dist_user:
  assumes "user_step env s u" and "in_user (pc s)" and q: "stop_queued s"
  shows "stop_queued u \<and> stop_dist u + 2 * length (pushed s) \<le> stop_dist s + 2 * length (pushed u)"
  using assms(1)
proof cases
  case (user_post h)
  then show ?thesis using assms(2) q
    by (cases "pc s") (auto simp: stop_queued_def stop_dist_def post_def push_ready_def)
next
  case user_stop
  then show ?thesis using q
    by (auto simp: stop_queued_def stop_dist_def stop_own_def get_sqe_def ring_submit_def Let_def)
qed (use q in \<open>auto simp: stop_queued_def stop_dist_def prepare_common_def get_sqe_def split: if_splits\<close>)

lemma stop_dist_ext:
  assumes "ext_step s u" and q: "stop_queued s"
  shows "stop_queued u \<and> stop_dist u + 2 * length (pushed s) \<le> stop_dist s + 2 * length (pushed u)"
  using assms by cases (auto simp: stop_queued_def stop_dist_def sched_defs)

lemma stop_task_runs:
  assumes "pc t = RunTasks (stop_task # fs)" shows "winding_down (stop_own (t\<lparr>pc := InTask fs\<rparr>))"
  by (simp add: winding_down_def stop_own_def get_sqe_def ring_submit_def Let_def)

lemma worker_run_stops:
  assumes "worker_run env k s u" and "stop_queued s"
  shows "winding_down u \<or> stop_queued u \<and> k + stop_dist u + 2 * length (pushed s) \<le> stop_dist s + 2 * length (pushed u)"
  using assms
proof (induction rule: worker_run.induct)
  case (wr_stop k s t fs)
  then show ?case using stop_task_runs by blast
next
  case (wr_loop k s t u)
  with stop_dist_loop [OF wr_loop.hyps(2) _ wr_loop.hyps(3)] loop_step_winds_down [OF wr_loop.hyps(2)] show ?case by fastforce
next
  case (wr_user k s t u)
  with stop_dist_user [OF wr_user.hyps(3,2)] user_step_winds_down [OF wr_user.hyps(3,2)] show ?case by fastforce
next
  case (wr_other k s t u)
  with stop_dist_ext [OF wr_other.hyps(2)] ext_step_winds_down [OF wr_other.hyps(2)] show ?case by fastforce
qed simp

section \<open>Stopping the server\<close>

lemma queue_stop_reach:
  assumes "sched_reach env n s"
  shows "sched_reach env n (wake_remote False (queue_boot_task stop_task s))"
proof -
  have "sched_step env s ((queue_boot_task stop_task s)\<lparr>wakers := Suc (wakers s)\<rparr>)" by (rule by_other, rule ext_post_task)
  moreover have "sched_step env ((queue_boot_task stop_task s)\<lparr>wakers := Suc (wakers s)\<rparr>) (wake_remote False (queue_boot_task stop_task s))"
    by (rule by_other_eq [OF ext_wake [of _ "wakers s"]]) (simp_all add: wake_remote_def queue_boot_task_def)
  ultimately show ?thesis using assms unfolding sched_reach_def by (meson rtranclp.rtrancl_into_rtrancl)
qed

lemma worker_run_winding:
  assumes "worker_run env k s u" and "winding_down s"
  shows "winding_down u"
  using assms
proof (induction rule: worker_run.induct)
  case (wr_stop k s t fs)
  then show ?case using stop_task_runs by blast
next
  case (wr_loop k s t u)
  then show ?case using loop_step_winds_down by blast
next
  case (wr_user k s t u)
  then show ?case using user_step_winds_down by blast
next
  case (wr_other k s t u)
  then show ?case using ext_step_winds_down by blast
qed

lemma stop_dist_pos: "0 < stop_dist s"
  by (simp add: stop_dist_def)

lemma own_stop_winds_down:
  assumes "in_user (pc s)" shows "winding_down (post_stop True s)"
  using assms by (cases "pc s") (auto simp: post_stop_def winding_down_def stop_own_def get_sqe_def ring_submit_def Let_def)

lemma post_stop_reach:
  assumes "sched_reach env n s" and "own \<Longrightarrow> in_user (pc s)"
  shows "sched_reach env n (post_stop own s)"
proof (cases own)
  case True
  then have "sched_step env s (post_stop own s)" using assms(2) by_user [OF _ user_stop] by (simp add: post_stop_def)
  then show ?thesis using assms(1) unfolding sched_reach_def by simp
qed (use queue_stop_reach [OF assms(1)] in \<open>simp add: post_stop_def\<close>)

text \<open>
  C10: Stopping the server stops its workers.  \<open>TcpServer::stop\<close> is called on any thread.  A worker on
  whose thread it is called has been told to stop when it returns.  Any other worker whose loop has not
  ended, even one whose thread has not entered \<open>run\<close> yet, is told to stop before its loop has made
  \<open>stop_dist + 2 m\<close> further steps, where \<open>m\<close> is the number of its coroutines made ready meanwhile; until
  then it is never stuck: outside the wait it can make its next step, and should it be waiting while every
  other call has finished and its watcher is armed, the completion that ends the wait has arrived or is
  with the kernel.  From then on \<open>stop_ends_the_loop\<close> leads it out.
\<close>

theorem server_stop_reaches_workers:
  assumes "env_ok env" and "sv_running sv" and "sv_pool sv = Some p" and "i < length (schedulers p)"
    and "sched_reach env n (schedulers p ! i)" and "pc (schedulers p ! i) \<notin> {Exited, Thrown}"
    and "who = Some i \<longrightarrow> in_user (pc (schedulers p ! i))"
    and "sv_pool (server_stop who sv) = Some p'" and "worker_run env k (schedulers p' ! i) u"
    and "batch_room env (tq u)" and "next_seq (tq u) < sz_max"
    and "length (pushed u) \<le> length (pushed (schedulers p' ! i)) + m"
  shows "(who = Some i \<longrightarrow> winding_down (schedulers p' ! i))
    \<and> (winding_down u
       \<or> k < stop_dist (schedulers p' ! i) + 2 * m
         \<and> (pc u \<noteq> Blocked \<longrightarrow> (\<exists>v. loop_step env u v))
         \<and> (pc u = Blocked \<and> wakers u = 0 \<and> \<not> watch_lost u \<longrightarrow> wake_ready u))"
proof -
  let ?s = "schedulers p' ! i" and ?own = "who = Some i"
  have s: "?s = post_stop ?own (schedulers p ! i)"
    using assms(2-4,8) by (auto simp: server_stop_running)
  have own: "?own \<longrightarrow> winding_down ?s" using assms(7) own_stop_winds_down by (auto simp: s)
  have "winding_down u \<or> k < stop_dist ?s + 2 * m \<and> (pc u \<noteq> Blocked \<longrightarrow> (\<exists>v. loop_step env u v))
         \<and> (pc u = Blocked \<and> wakers u = 0 \<and> \<not> watch_lost u \<longrightarrow> wake_ready u)"
  proof (cases "winding_down u")
    case False
    then have other: "\<not> ?own" using own worker_run_winding [OF assms(9)] by blast
    have "running (pc (schedulers p ! i)) \<or> pc (schedulers p ! i) = NotRunning"
      using assms(6) by (cases "pc (schedulers p ! i)") auto
    then have q: "stop_queued ?s" using other by (auto simp: s post_stop_def stop_queued_def wake_remote_def queue_boot_task_def)
    note W = worker_run_stops [OF assms(9) q]
    have "sched_reach env n ?s" using post_stop_reach [OF assms(5)] assms(7) unfolding s by blast
    then have "sched_reach env n u" using worker_run_steps [OF assms(9)] unfolding sched_reach_def by simp
    from sched_reach_inv [OF this] have I: "wake_inv u" "tq_reach env (tq u)" "awaiters_known u" by simp_all
    have u: "stop_queued u" and b: "k + stop_dist u \<le> stop_dist ?s + 2 * m" using W False assms(12) by auto
    have "\<exists>v. loop_step env u v"
    proof (cases "pc u = NotRunning")
      case True
      then show ?thesis using enter by blast
    next
      case N: False
      then have "running (pc u)" using u by (simp add: stop_queued_def)
      then show ?thesis using loop_can_step [OF assms(1) I(2,3) _ assms(10,11)] by blast
    qed
    moreover have "wake_ready u" if "pc u = Blocked" "wakers u = 0" "\<not> watch_lost u"
      using blocked_wake_ready [OF I(1) that] u that(1) by (cases "cross_tasks u") (auto simp: stop_queued_def)
    ultimately show ?thesis using b stop_dist_pos [of u] by auto
  qed simp
  with own show ?thesis by blast
qed

text \<open>A server with one worker that has not entered its loop.\<close>

definition demo_running_server :: server where
  "demo_running_server = demo_server\<lparr>sv_running := True,
     sv_pool := Some \<lparr>schedulers = [sched_new 8], pool_threads = [0], next_idx = 0, pool_started = True, boot_queues = []\<rparr>\<rparr>"

theorem server_stop_reaches_workers_witness:
  "\<exists>p'. sv_pool (server_stop None demo_running_server) = Some p' \<and> stop_dist (schedulers p' ! 0) = 3
     \<and> (\<exists>v. loop_step demo_env (schedulers p' ! 0) v)"
proof -
  let ?p = "\<lparr>schedulers = [sched_new 8], pool_threads = [0], next_idx = 0, pool_started = True, boot_queues = []\<rparr>"
  let ?s = "wake_remote False (queue_boot_task stop_task (sched_new 8))"
  let ?p' = "?p\<lparr>schedulers := [?s]\<rparr>"
  have P: "sv_running demo_running_server" "sv_pool demo_running_server = Some ?p" "sv_pool (server_stop None demo_running_server) = Some ?p'"
    by (simp_all add: demo_running_server_def server_stop_def post_stop_def)
  have r: "sched_reach demo_env 8 (schedulers ?p ! 0)" by (simp add: sched_reach_def)
  have room: "batch_room demo_env (tq (schedulers ?p' ! 0))" "next_seq (tq (schedulers ?p' ! 0)) < sz_max"
    by (simp_all add: batch_room_def wake_remote_def queue_boot_task_def sched_new_def tq_init_def due_def batch_adds_def sz_max_def)
  have nw: "\<not> winding_down (schedulers ?p' ! 0)" "pc (schedulers ?p' ! 0) \<noteq> Blocked" and d: "stop_dist (schedulers ?p' ! 0) = 3"
    by (simp_all add: winding_down_def stop_dist_def wake_remote_def queue_boot_task_def sched_new_def)
  have "0 < length (schedulers ?p)" "pc (schedulers ?p ! 0) \<notin> {Exited, Thrown}" by (simp_all add: sched_new_def)
  from server_stop_reaches_workers [OF demo_env_ok P(1,2) this(1) r this(2) _ P(3) wr_nil room, of 0] nw d P(3) show ?thesis by auto
qed

end
