(* ===== verification/Conn_Life.thy ===== *)
theory Conn_Life
  imports Tcp_Server
begin

text \<open>
  The life of the connections of one worker: the accept loop, the handler of each connection, the idle
  wheel and the closing coroutines it spawns share the connection objects through \<open>shared_ptr\<close>; the
  last one to let go closes the descriptor (\<open>tcp_server.cc\<close>, \<open>tcp_connection.cc\<close>,
  \<open>idle_connection_wheel.cc\<close>, \<open>idle_entry.hpp\<close>).
\<close>

section \<open>State\<close>

text \<open>
  A handler holds its connection and has at most one operation in flight on its descriptor; a closing
  coroutine holds its connection while its shutdown is in flight.
\<close>

record conn_life =
  cl_acc :: acceptor
  cl_handlers :: "conn_id list"            \<comment> \<open>connections whose handler has not ended\<close>
  cl_pending :: "(conn_id \<times> int) list"     \<comment> \<open>operations of handlers in flight, with the descriptor they name\<close>
  cl_closing :: "(conn_id \<times> int) list"     \<comment> \<open>shutdowns of closing coroutines in flight\<close>
  cl_accepted :: "int list"                \<comment> \<open>history: descriptors accepted\<close>
  cl_shut :: "(conn_id \<times> int) list"        \<comment> \<open>history: shutdowns requested by closing coroutines\<close>
  cl_conns_used :: "conn_id set"           \<comment> \<open>history\<close>
  cl_entries_used :: "entry_id set"        \<comment> \<open>history\<close>

definition cl_new :: "nat option \<Rightarrow> buffer_pool option \<Rightarrow> wheel option \<Rightarrow> conn_life" where
  "cl_new h pool wo = \<lparr>cl_acc = \<lparr>ac_handler = h, ac_world = world_new pool, ac_wheel = wo, ac_spawned = [], ac_looping = True\<rparr>,
     cl_handlers = [], cl_pending = [], cl_closing = [], cl_accepted = [], cl_shut = [], cl_conns_used = {}, cl_entries_used = {}\<rparr>"

abbreviation cl_conns :: "conn_life \<Rightarrow> conn_id \<rightharpoonup> tcp_conn" where
  "cl_conns W \<equiv> w_conns (ac_world (cl_acc W))"

text \<open>\<open>weak_ptr::lock\<close> succeeds while some coroutine holds the connection.\<close>

definition cl_alive :: "conn_life \<Rightarrow> conn_id \<Rightarrow> bool" where
  "cl_alive W c \<longleftrightarrow> c \<in> set (cl_handlers W) \<or> c \<in> fst ` set (cl_closing W)"

text \<open>The coroutine \<open>~IdleEntry\<close> spawns, up to its suspension in \<open>shutdown\<close>.\<close>

definition start_closing :: "conn_id \<Rightarrow> conn_life \<Rightarrow> conn_life" where
  "start_closing c W =
     (case cl_conns W c of None \<Rightarrow> W
      | Some x \<Rightarrow> if conn_fd x < 0 then W
                  else W\<lparr>cl_closing := cl_closing W @ [(c, conn_fd x)], cl_shut := cl_shut W @ [(c, conn_fd x)]\<rparr>)"

text \<open>A coroutine has let go of the connection: the last one destroys it.\<close>

definition release_conn :: "conn_id \<Rightarrow> conn_life \<Rightarrow> conn_life" where
  "release_conn c W =
     (if cl_alive W c then W
      else case conn_step (Dropped c) (ac_world (cl_acc W)) of None \<Rightarrow> W
           | Some w \<Rightarrow> W\<lparr>cl_acc := (cl_acc W)\<lparr>ac_world := w\<rparr>\<rparr>)"

section \<open>Steps\<close>

text \<open>What a step means for the wheel.\<close>

datatype cl_label = LTick | LReceived conn_id int | LOther

text \<open>
  The kernel gives an accepted connection a descriptor that is not open; new objects have not been
  there before.
\<close>

inductive cl_step :: "cl_label \<Rightarrow> conn_life \<Rightarrow> conn_life \<Rightarrow> bool" where
  cl_accept: "ac_looping (cl_acc W) \<Longrightarrow> 0 \<le> fd \<Longrightarrow> (\<And>d x. cl_conns W d = Some x \<Longrightarrow> conn_fd x \<noteq> fd) \<Longrightarrow>
    c \<notin> cl_conns_used W \<Longrightarrow> e \<notin> cl_entries_used W \<Longrightarrow> accept_turn True fd ad c e (cl_acc W) = Inr a \<Longrightarrow>
    cl_step LOther W (W\<lparr>cl_acc := a, cl_handlers := cl_handlers W @ [c], cl_accepted := cl_accepted W @ [fd],
      cl_conns_used := insert c (cl_conns_used W), cl_entries_used := insert e (cl_entries_used W)\<rparr>)"
| cl_accept_end: "ac_looping (cl_acc W) \<Longrightarrow> \<not> run \<or> res < 0 \<Longrightarrow> accept_turn run res ad c e (cl_acc W) = Inr a \<Longrightarrow>
    cl_step LOther W (W\<lparr>cl_acc := a\<rparr>)"
| cl_request: "c \<in> set (cl_handlers W) \<Longrightarrow> c \<notin> fst ` set (cl_pending W) \<Longrightarrow> cl_conns W c = Some x \<Longrightarrow>
    cl_step LOther W (W\<lparr>cl_pending := cl_pending W @ [(c, conn_fd x)]\<rparr>)"
| cl_done: "(c, fd) \<in> set (cl_pending W) \<Longrightarrow>
    cl_step LOther W (W\<lparr>cl_pending := remove1 (c, fd) (cl_pending W)\<rparr>)"
| cl_received: "(c, fd) \<in> set (cl_pending W) \<Longrightarrow> cl_conns W c = Some x \<Longrightarrow> ac_wheel (cl_acc W) = Some wh \<Longrightarrow>
    recv_resume x n wh = Inr wh' \<Longrightarrow>
    cl_step (LReceived c n) W (W\<lparr>cl_pending := remove1 (c, fd) (cl_pending W), cl_acc := (cl_acc W)\<lparr>ac_wheel := Some wh'\<rparr>\<rparr>)"
| cl_tick: "ac_wheel (cl_acc W) = Some wh \<Longrightarrow> tick_coro_resume (cl_alive W) wh = Inr (b, wh') \<Longrightarrow>
    cl_step LTick W (fold start_closing (drop (length (closing wh)) (closing wh'))
      (W\<lparr>cl_acc := (cl_acc W)\<lparr>ac_wheel := Some wh'\<rparr>\<rparr>))"
| cl_shut_done: "(c, fd) \<in> set (cl_closing W) \<Longrightarrow>
    cl_step LOther W (release_conn c (W\<lparr>cl_closing := remove1 (c, fd) (cl_closing W)\<rparr>))"
| cl_handler_end: "c \<in> set (cl_handlers W) \<Longrightarrow> c \<notin> fst ` set (cl_pending W) \<Longrightarrow>
    cl_step LOther W (release_conn c (W\<lparr>cl_handlers := remove1 c (cl_handlers W)\<rparr>))"

inductive cl_run :: "cl_label list \<Rightarrow> conn_life \<Rightarrow> conn_life \<Rightarrow> bool" where
  cl_run_Nil: "cl_run [] W W"
| cl_run_snoc: "cl_run ls W V \<Longrightarrow> cl_step l V U \<Longrightarrow> cl_run (ls @ [l]) W U"

text \<open>The wheel of a worker, if it has one, as \<open>start\<close> builds it.\<close>

definition wheel_built :: "nat \<Rightarrow> wheel option \<Rightarrow> bool" where
  "wheel_built N wo \<longleftrightarrow> wo = None \<or> (\<exists>m idle wh. wheel_new m idle = Inr wh \<and> wo = Some (wheel_start wh) \<and> N = (if idle > 0 then nat idle else 1)
     \<and> N \<le> vec_max \<and> N \<le> m)"

section \<open>Invariants\<close>

definition cl_conns_ok :: "conn_life \<Rightarrow> bool" where
  "cl_conns_ok W \<longleftrightarrow> distinct (cl_handlers W) \<and> fst ` set (cl_pending W) \<subseteq> set (cl_handlers W)
     \<and> (\<forall>c. cl_conns W c \<noteq> None \<longleftrightarrow> cl_alive W c) \<and> dom (cl_conns W) \<subseteq> cl_conns_used W
     \<and> (\<forall>(c, fd) \<in> set (cl_pending W) \<union> set (cl_closing W). \<exists>x. cl_conns W c = Some x \<and> conn_fd x = fd)
     \<and> (\<forall>c x. cl_conns W c = Some x \<longrightarrow> 0 \<le> conn_fd x)
     \<and> (\<forall>c d x y. cl_conns W c = Some x \<longrightarrow> cl_conns W d = Some y \<longrightarrow> conn_fd x = conn_fd y \<longrightarrow> c = d)
     \<and> finite (dom (cl_conns W))
     \<and> (\<forall>fd \<ge> 0. count_list (cl_accepted W) fd
          = count_list (w_closed (ac_world (cl_acc W))) fd + card (holders (ac_world (cl_acc W)) fd))"

text \<open>The wheel watches every open connection until it has asked for its shutdown, once.\<close>

definition cl_wheel_ok :: "nat \<Rightarrow> conn_life \<Rightarrow> bool" where
  "cl_wheel_ok N W \<longleftrightarrow> distinct (map fst (cl_shut W)) \<and> fst ` set (cl_shut W) \<subseteq> cl_conns_used W
     \<and> (\<forall>(c, fd) \<in> set (cl_shut W). \<forall>x. cl_conns W c = Some x \<longrightarrow> conn_fd x = fd)
     \<and> (\<forall>wh. ac_wheel (cl_acc W) = Some wh \<longrightarrow> wheel_ok N wh \<and> wheel_running wh
          \<and> (\<forall>e en. entries wh e = Some en \<longrightarrow> has_sched en \<and> e \<in> cl_entries_used W \<and> wconn en \<in> cl_conns_used W
               \<and> wconn en \<notin> fst ` set (cl_shut W))
          \<and> (\<forall>e e' en en'. entries wh e = Some en \<longrightarrow> entries wh e' = Some en' \<longrightarrow> wconn en = wconn en' \<longrightarrow> e = e')
          \<and> (\<forall>c x. cl_conns W c = Some x \<longrightarrow> conn_wheel x \<and> (\<exists>e. conn_entry x = Some e \<and> e \<in> cl_entries_used W
               \<and> (case entries wh e of None \<Rightarrow> c \<in> fst ` set (cl_shut W) | Some en \<Rightarrow> wconn en = c))))"

definition cl_inv :: "nat \<Rightarrow> conn_life \<Rightarrow> bool" where
  "cl_inv N W \<longleftrightarrow> cl_conns_ok W \<and> cl_wheel_ok N W"

subsection \<open>What the parts do\<close>

lemma accept_turn_Inr:
  assumes "accept_turn True fd ad c e a = Inr a'" and "0 \<le> fd"
  shows "\<exists>x pool y. conn_new fd (inet_address_of ad) (w_pool (ac_world a)) = (x, pool) \<and> conn_fd y = fd
     \<and> ac_world a' = (ac_world a)\<lparr>w_pool := pool, w_conns := (w_conns (ac_world a))(c \<mapsto> y)\<rparr>
     \<and> (ac_wheel a = None \<longrightarrow> ac_wheel a' = None)
     \<and> (\<forall>wh. ac_wheel a = Some wh \<longrightarrow> (\<exists>wh'. register_conn c e wh = Inr wh' \<and> ac_wheel a' = Some wh' \<and> conn_wheel y \<and> conn_entry y = Some e))"
proof -
  obtain x pool where n: "conn_new fd (inet_address_of ad) (w_pool (ac_world a)) = (x, pool)" by fastforce
  show ?thesis
  proof (cases "ac_wheel a")
    case None
    then show ?thesis using assms n conn_new_fd [OF n] by (auto simp: accept_turn_def Let_def split: if_splits)
  next
    case (Some wh)
    then obtain wh' where "register_conn c e wh = Inr wh'" using assms n
      by (cases "register_conn c e wh") (auto simp: accept_turn_def)
    then show ?thesis using Some assms n conn_new_fd [OF n]
      by (auto simp: accept_turn_def install_idle_def Let_def split: if_splits intro!: exI [of _ "install_idle e x"])
  qed
qed

lemma accept_turn_end: "\<not> run \<or> res < 0 \<Longrightarrow> accept_turn run res ad c e a = Inr (a\<lparr>ac_looping := False\<rparr>)"
  by (simp add: accept_turn_def)

lemma start_closing_all:
  "(\<And>c. c \<in> set cs \<Longrightarrow> \<exists>x. cl_conns W c = Some x \<and> 0 \<le> conn_fd x) \<Longrightarrow>
   fold start_closing cs W = W\<lparr>cl_closing := cl_closing W @ map (\<lambda>c. (c, conn_fd (the (cl_conns W c)))) cs,
     cl_shut := cl_shut W @ map (\<lambda>c. (c, conn_fd (the (cl_conns W c)))) cs\<rparr>"
proof (induction cs arbitrary: W)
  case Nil
  then show ?case by simp
next
  case (Cons c cs)
  obtain x where x: "cl_conns W c = Some x" "0 \<le> conn_fd x" using Cons.prems by auto
  have "start_closing c W = W\<lparr>cl_closing := cl_closing W @ [(c, conn_fd x)], cl_shut := cl_shut W @ [(c, conn_fd x)]\<rparr>"
    using x by (simp add: start_closing_def)
  then show ?case using Cons.IH [of "start_closing c W"] Cons.prems x by simp
qed

subsection \<open>Connections\<close>

lemma cl_conns_okD:
  assumes "cl_conns_ok W"
  shows "distinct (cl_handlers W)" "fst ` set (cl_pending W) \<subseteq> set (cl_handlers W)"
    "cl_conns W c \<noteq> None \<longleftrightarrow> cl_alive W c" "dom (cl_conns W) \<subseteq> cl_conns_used W"
    "(c, fd) \<in> set (cl_pending W) \<union> set (cl_closing W) \<Longrightarrow> \<exists>x. cl_conns W c = Some x \<and> conn_fd x = fd"
    "cl_conns W c = Some x \<Longrightarrow> 0 \<le> conn_fd x"
    "cl_conns W c = Some x \<Longrightarrow> cl_conns W d = Some y \<Longrightarrow> conn_fd x = conn_fd y \<Longrightarrow> c = d"
    "finite (dom (cl_conns W))"
    "0 \<le> fd \<Longrightarrow> count_list (cl_accepted W) fd
       = count_list (w_closed (ac_world (cl_acc W))) fd + card (holders (ac_world (cl_acc W)) fd)"
proof -
  have A: "\<forall>c. cl_conns W c \<noteq> None \<longleftrightarrow> cl_alive W c"
      "\<forall>(c, fd) \<in> set (cl_pending W) \<union> set (cl_closing W). \<exists>x. cl_conns W c = Some x \<and> conn_fd x = fd"
      "\<forall>c x. cl_conns W c = Some x \<longrightarrow> 0 \<le> conn_fd x"
      "\<forall>c d x y. cl_conns W c = Some x \<longrightarrow> cl_conns W d = Some y \<longrightarrow> conn_fd x = conn_fd y \<longrightarrow> c = d"
      "\<forall>fd \<ge> 0. count_list (cl_accepted W) fd
         = count_list (w_closed (ac_world (cl_acc W))) fd + card (holders (ac_world (cl_acc W)) fd)"
    and B: "distinct (cl_handlers W)" "fst ` set (cl_pending W) \<subseteq> set (cl_handlers W)" "dom (cl_conns W) \<subseteq> cl_conns_used W"
      "finite (dom (cl_conns W))"
    using assms unfolding cl_conns_ok_def by - (elim conjE, assumption)+
  show "distinct (cl_handlers W)" "fst ` set (cl_pending W) \<subseteq> set (cl_handlers W)" "dom (cl_conns W) \<subseteq> cl_conns_used W"
    "finite (dom (cl_conns W))" by (rule B)+
  show "cl_conns W c \<noteq> None \<longleftrightarrow> cl_alive W c" using A(1) by (rule spec)
  show "(c, fd) \<in> set (cl_pending W) \<union> set (cl_closing W) \<Longrightarrow> \<exists>x. cl_conns W c = Some x \<and> conn_fd x = fd" using bspec [OF A(2), of "(c, fd)"] by simp
  show "cl_conns W c = Some x \<Longrightarrow> 0 \<le> conn_fd x" using A(3) by blast
  show "cl_conns W c = Some x \<Longrightarrow> cl_conns W d = Some y \<Longrightarrow> conn_fd x = conn_fd y \<Longrightarrow> c = d" using A(4) by blast
  show "0 \<le> fd \<Longrightarrow> count_list (cl_accepted W) fd
       = count_list (w_closed (ac_world (cl_acc W))) fd + card (holders (ac_world (cl_acc W)) fd)" using A(5) by blast
qed

text \<open>Changes that leave the connections and their holders alone.\<close>

lemma cl_conns_ok_frame:
  assumes ok: "cl_conns_ok W" and "ac_world (cl_acc V) = ac_world (cl_acc W)" and "cl_handlers V = cl_handlers W"
    and "cl_accepted V = cl_accepted W" and "cl_conns_used V = cl_conns_used W"
    and "\<And>c. cl_alive V c = cl_alive W c"
    and "fst ` set (cl_pending V) \<subseteq> set (cl_handlers V)"
    and "\<forall>(c, fd) \<in> set (cl_pending V) \<union> set (cl_closing V). \<exists>x. cl_conns W c = Some x \<and> conn_fd x = fd"
  shows "cl_conns_ok V"
  using ok assms(2-) unfolding cl_conns_ok_def by simp


lemma cl_conns_ok_release:
  assumes ok: "cl_conns_ok W" and c: "cl_conns W c = Some x"
    and V: "V = W\<lparr>cl_handlers := hs, cl_closing := cs\<rparr>" "distinct hs" "fst ` set (cl_pending W) \<subseteq> set hs" "set cs \<subseteq> set (cl_closing W)"
      "\<And>d. d \<noteq> c \<Longrightarrow> cl_alive V d = cl_alive W d"
  shows "cl_conns_ok (release_conn c V)"
proof -
  note D = cl_conns_okD [OF ok]
  have D5: "\<forall>(d, fd) \<in> set (cl_pending W) \<union> set cs. \<exists>x. cl_conns W d = Some x \<and> conn_fd x = fd"
    using D(5) V(4) by fastforce
  have alive: "cl_alive W c" using D(3) [of c] c by simp
  show ?thesis
  proof (cases "cl_alive V c")
    case True
    then have "cl_alive V d = cl_alive W d" for d using V(5) alive by (cases "d = c") auto
    then have "cl_conns_ok V" using ok D5 V(2,3) unfolding cl_conns_ok_def V(1) by simp
    then show ?thesis using True by (simp add: release_conn_def)
  next
    case False
    obtain w where w: "conn_step (Dropped c) (ac_world (cl_acc W)) = Some w" using c by (cases "conn_destroy x (w_pool (ac_world (cl_acc W)))") simp
    have conns: "w_conns w = (cl_conns W)(c := None)" using w c by (auto split: prod.splits)
    let ?U = "V\<lparr>cl_acc := (cl_acc V)\<lparr>ac_world := w\<rparr>\<rparr>"
    have U: "release_conn c V = ?U" using False w by (simp add: release_conn_def V(1))
    have ncs: "c \<notin> set hs" "c \<notin> fst ` set cs" using False by (auto simp: cl_alive_def V(1))
    have sel: "cl_conns ?U = (cl_conns W)(c := None)" "cl_handlers ?U = hs" "cl_closing ?U = cs" "cl_pending ?U = cl_pending W"
        "cl_accepted ?U = cl_accepted W" "cl_conns_used ?U = cl_conns_used W" "ac_world (cl_acc ?U) = w"
      by (simp_all add: V(1) conns)
    have al: "cl_alive ?U d \<longleftrightarrow> d \<noteq> c \<and> cl_alive W d" for d
      using V(5) [of d] False by (auto simp: cl_alive_def V(1))
    show ?thesis
      unfolding U cl_conns_ok_def sel(2-7) conns
    proof (intro conjI)
      show "\<forall>d. ((cl_conns W)(c := None)) d \<noteq> None \<longleftrightarrow> cl_alive ?U d" using D(3) by (simp add: al)
      show "dom ((cl_conns W)(c := None)) \<subseteq> cl_conns_used W" using D(4) by auto
      show "\<forall>(d, fd) \<in> set (cl_pending W) \<union> set cs. \<exists>x. ((cl_conns W)(c := None)) d = Some x \<and> conn_fd x = fd"
      proof (clarify, intro exI conjI)
        fix d fd assume d: "(d, fd) \<in> set (cl_pending W) \<union> set cs"
        then have "d \<noteq> c" using V(3) ncs by force
        moreover obtain y where "cl_conns W d = Some y" "conn_fd y = fd" using bspec [OF D5 d] by auto
        ultimately show "((cl_conns W)(c := None)) d = Some (the (cl_conns W d))" "conn_fd (the (cl_conns W d)) = fd" by simp_all
      qed
      show "\<forall>d y. ((cl_conns W)(c := None)) d = Some y \<longrightarrow> 0 \<le> conn_fd y" using D(6) by simp
      show "\<forall>d e y z. ((cl_conns W)(c := None)) d = Some y \<longrightarrow> ((cl_conns W)(c := None)) e = Some z \<longrightarrow> conn_fd y = conn_fd z \<longrightarrow> d = e"
      proof (intro allI impI)
        fix d e y z assume "((cl_conns W)(c := None)) d = Some y" "((cl_conns W)(c := None)) e = Some z" "conn_fd y = conn_fd z"
        then show "d = e" using D(7) [of d y e z] by (simp split: if_splits)
      qed
      show "\<forall>fd \<ge> 0. count_list (cl_accepted W) fd = count_list (w_closed w) fd + card (holders w fd)"
        using D(9) conn_step_fds(1) [OF w D(8)] by simp
    qed (use V(2,3) D(8) in simp_all)
  qed
qed

lemma cl_conns_ok_accept:
  assumes ok: "cl_conns_ok W" and fd: "0 \<le> fd" "\<And>d x. cl_conns W d = Some x \<Longrightarrow> conn_fd x \<noteq> fd"
    and c: "c \<notin> cl_conns_used W" and a: "accept_turn True fd ad c e (cl_acc W) = Inr a"
  shows "cl_conns_ok (W\<lparr>cl_acc := a, cl_handlers := cl_handlers W @ [c], cl_accepted := cl_accepted W @ [fd],
      cl_conns_used := insert c (cl_conns_used W), cl_entries_used := E\<rparr>)" (is "cl_conns_ok ?U")
proof -
  note D = cl_conns_okD [OF ok]
  have cn: "cl_conns W c = None" using D(4) c by auto
  obtain x pool y where A: "conn_new fd (inet_address_of ad) (w_pool (ac_world (cl_acc W))) = (x, pool)" "conn_fd y = fd"
      "ac_world a = (ac_world (cl_acc W))\<lparr>w_pool := pool, w_conns := (cl_conns W)(c \<mapsto> y)\<rparr>"
    using accept_turn_Inr [OF a fd(1)] by blast
  have sel: "cl_conns ?U = (cl_conns W)(c \<mapsto> y)" "cl_handlers ?U = cl_handlers W @ [c]" "cl_closing ?U = cl_closing W"
      "cl_pending ?U = cl_pending W" "cl_accepted ?U = cl_accepted W @ [fd]" "cl_conns_used ?U = insert c (cl_conns_used W)"
      "w_closed (ac_world (cl_acc ?U)) = w_closed (ac_world (cl_acc W))"
    by (simp_all add: A(3))
  have hold: "holders (ac_world (cl_acc ?U)) f = (if f = fd then insert c (holders (ac_world (cl_acc W)) f) else holders (ac_world (cl_acc W)) f)" for f
    using A(2,3) cn by (auto simp: holders_def)
  have fin: "finite (holders (ac_world (cl_acc W)) f)" for f
    by (rule finite_subset [OF _ D(8)]) (auto simp: holders_def)
  have nh: "c \<notin> holders (ac_world (cl_acc W)) f" for f using cn by (simp add: holders_def)
  have nc: "\<not> cl_alive W c" using D(3) [of c] cn by simp
  show ?thesis
    unfolding cl_conns_ok_def sel
  proof (intro conjI)
    show "distinct (cl_handlers W @ [c])" using D(1) nc by (auto simp: cl_alive_def)
    show "fst ` set (cl_pending W) \<subseteq> set (cl_handlers W @ [c])" using D(2) by auto
    have "cl_alive ?U d \<longleftrightarrow> d = c \<or> cl_alive W d" for d by (auto simp: cl_alive_def)
    then show "\<forall>d. ((cl_conns W)(c \<mapsto> y)) d \<noteq> None \<longleftrightarrow> cl_alive ?U d" using D(3) by simp
    show "dom ((cl_conns W)(c \<mapsto> y)) \<subseteq> insert c (cl_conns_used W)" using D(4) by auto
    show "\<forall>(d, f) \<in> set (cl_pending W) \<union> set (cl_closing W). \<exists>x. ((cl_conns W)(c \<mapsto> y)) d = Some x \<and> conn_fd x = f"
    proof clarify
      fix d f assume d: "(d, f) \<in> set (cl_pending W) \<union> set (cl_closing W)"
      from D(5) [OF d] cn show "\<exists>x. ((cl_conns W)(c \<mapsto> y)) d = Some x \<and> conn_fd x = f" by (cases "d = c") auto
    qed
    show "\<forall>d z. ((cl_conns W)(c \<mapsto> y)) d = Some z \<longrightarrow> 0 \<le> conn_fd z" using D(6) A(2) fd(1) by auto
    show "\<forall>d e z u. ((cl_conns W)(c \<mapsto> y)) d = Some z \<longrightarrow> ((cl_conns W)(c \<mapsto> y)) e = Some u \<longrightarrow> conn_fd z = conn_fd u \<longrightarrow> d = e"
    proof (intro allI impI)
      fix d e z u assume "((cl_conns W)(c \<mapsto> y)) d = Some z" "((cl_conns W)(c \<mapsto> y)) e = Some u" "conn_fd z = conn_fd u"
      then show "d = e" using D(7) [of d z e u] fd(2) [of d z] fd(2) [of e u] A(2) by (auto split: if_splits)
    qed
    show "finite (dom ((cl_conns W)(c \<mapsto> y)))" using D(8) by simp
    show "\<forall>f \<ge> 0. count_list (cl_accepted W @ [fd]) f
        = count_list (w_closed (ac_world (cl_acc W))) f + card (holders (ac_world (cl_acc ?U)) f)"
      unfolding hold using D(9) nh fin by auto
  qed
qed


subsection \<open>The wheel\<close>

text \<open>The wheel's part of the invariant, over its connections \<open>F\<close>, shutdowns \<open>S\<close> and used identities.\<close>

definition watches :: "nat \<Rightarrow> wheel \<Rightarrow> (conn_id \<rightharpoonup> tcp_conn) \<Rightarrow> (conn_id \<times> int) list \<Rightarrow> conn_id set \<Rightarrow> entry_id set \<Rightarrow> bool" where
  "watches N wh F S U E \<longleftrightarrow> wheel_ok N wh \<and> wheel_running wh
     \<and> (\<forall>e en. entries wh e = Some en \<longrightarrow> has_sched en \<and> e \<in> E \<and> wconn en \<in> U \<and> wconn en \<notin> fst ` set S)
     \<and> (\<forall>e e' en en'. entries wh e = Some en \<longrightarrow> entries wh e' = Some en' \<longrightarrow> wconn en = wconn en' \<longrightarrow> e = e')
     \<and> (\<forall>c x. F c = Some x \<longrightarrow> conn_wheel x \<and> (\<exists>e. conn_entry x = Some e \<and> e \<in> E
          \<and> (case entries wh e of None \<Rightarrow> c \<in> fst ` set S | Some en \<Rightarrow> wconn en = c)))"

lemma watchesD:
  assumes "watches N wh F S U E"
  shows "wheel_ok N wh" "wheel_running wh"
    "entries wh e = Some en \<Longrightarrow> has_sched en \<and> e \<in> E \<and> wconn en \<in> U \<and> wconn en \<notin> fst ` set S"
    "entries wh e = Some en \<Longrightarrow> entries wh e' = Some en' \<Longrightarrow> wconn en = wconn en' \<Longrightarrow> e = e'"
    "F c = Some x \<Longrightarrow> conn_wheel x \<and> (\<exists>e. conn_entry x = Some e \<and> e \<in> E
       \<and> (case entries wh e of None \<Rightarrow> c \<in> fst ` set S | Some en \<Rightarrow> wconn en = c))"
proof -
  have A: "\<forall>e en. entries wh e = Some en \<longrightarrow> has_sched en \<and> e \<in> E \<and> wconn en \<in> U \<and> wconn en \<notin> fst ` set S"
      "\<forall>e e' en en'. entries wh e = Some en \<longrightarrow> entries wh e' = Some en' \<longrightarrow> wconn en = wconn en' \<longrightarrow> e = e'"
      "\<forall>c x. F c = Some x \<longrightarrow> conn_wheel x \<and> (\<exists>e. conn_entry x = Some e \<and> e \<in> E
          \<and> (case entries wh e of None \<Rightarrow> c \<in> fst ` set S | Some en \<Rightarrow> wconn en = c))"
    using assms unfolding watches_def by - (elim conjE, assumption)+
  show "wheel_ok N wh" "wheel_running wh" using assms by (simp_all add: watches_def)
  show "entries wh e = Some en \<Longrightarrow> has_sched en \<and> e \<in> E \<and> wconn en \<in> U \<and> wconn en \<notin> fst ` set S" using A(1) by blast
  show "entries wh e = Some en \<Longrightarrow> entries wh e' = Some en' \<Longrightarrow> wconn en = wconn en' \<Longrightarrow> e = e'" using A(2) by blast
  show "F c = Some x \<Longrightarrow> conn_wheel x \<and> (\<exists>e. conn_entry x = Some e \<and> e \<in> E
       \<and> (case entries wh e of None \<Rightarrow> c \<in> fst ` set S | Some en \<Rightarrow> wconn en = c))" using A(3) by blast
qed

lemma watches_drop: "watches N wh F S U E \<Longrightarrow> (\<And>c x. F' c = Some x \<Longrightarrow> F c = Some x) \<Longrightarrow> watches N wh F' S U E"
  unfolding watches_def by blast

lemma watches_refresh:
  assumes "watches N wh F S U E" and "F c = Some x" and "recv_resume x n wh = Inr wh'"
  shows "watches N wh' F S U E"
proof -
  note D = watchesD [OF assms(1)]
  have "wheel_ok N wh' \<and> entries wh' = entries wh \<and> wheel_running wh' = wheel_running wh"
  proof (cases "n > 0 \<and> (\<exists>e. conn_entry x = Some e \<and> entries wh e \<noteq> None)")
    case True
    then obtain e where e: "conn_entry x = Some e" "entries wh e \<noteq> None" by blast
    then have "refresh (Some e) wh = Inr wh'" using assms(3) True D(5) [OF assms(2)]
      by (auto simp: recv_resume_def refresh_weak_def)
    moreover from this have "wheel_running wh' = wheel_running wh" using insert_newest_running by (auto simp: refresh_def)
    ultimately show ?thesis using refresh_ok [OF D(1) e(2)] by auto
  next
    case False
    then have "wh' = wh" using assms(3) D(5) [OF assms(2)] by (auto simp: recv_resume_def refresh_weak_def split: if_splits)
    then show ?thesis using D(1) by simp
  qed
  then show ?thesis using assms(1) unfolding watches_def by simp
qed

lemma watches_register:
  assumes w: "watches N wh F S U E" and "c \<notin> U" and "e \<notin> E" and "fst ` set S \<subseteq> U"
    and r: "register_conn c e wh = Inr wh'" and y: "conn_wheel y" "conn_entry y = Some e"
  shows "watches N wh' (F(c \<mapsto> y)) S (insert c U) (insert e E)"
proof -
  note D = watchesD [OF w]
  have run: "wheel_running wh' = wheel_running wh" using r insert_newest_running by (fastforce simp: register_conn_def)
  have wh': "wheel_ok N wh'" "entries wh' = (entries wh)(e \<mapsto> \<lparr>wconn = c, has_sched = True\<rparr>)"
    using register_conn_ok [OF D(1), of c e] r by auto
  have cS: "c \<notin> fst ` set S" using assms(2,4) by blast
  have old: "wconn en \<noteq> c \<and> e' \<noteq> e" if "entries wh e' = Some en" for e' en using D(3) [OF that] assms(2,3) by auto
  show ?thesis
    unfolding watches_def wh'(2)
  proof (intro conjI allI impI)
    fix e' en assume en: "((entries wh)(e \<mapsto> \<lparr>wconn = c, has_sched = True\<rparr>)) e' = Some en"
    have "has_sched en \<and> e' \<in> insert e E \<and> wconn en \<in> insert c U \<and> wconn en \<notin> fst ` set S"
    proof (cases "e' = e")
      case True
      then have "en = \<lparr>wconn = c, has_sched = True\<rparr>" using en by simp
      then show ?thesis using True cS by simp
    next
      case False
      then show ?thesis using D(3) [of e' en] en by simp
    qed
    then show "has_sched en" "e' \<in> insert e E" "wconn en \<in> insert c U" "wconn en \<notin> fst ` set S" by blast+
  next
    fix e1 e2 en1 en2
    assume u: "((entries wh)(e \<mapsto> \<lparr>wconn = c, has_sched = True\<rparr>)) e1 = Some en1"
      "((entries wh)(e \<mapsto> \<lparr>wconn = c, has_sched = True\<rparr>)) e2 = Some en2" "wconn en1 = wconn en2"
    have k: "wconn en = c \<longleftrightarrow> e' = e" if "((entries wh)(e \<mapsto> \<lparr>wconn = c, has_sched = True\<rparr>)) e' = Some en" for e' en
    proof (cases "e' = e")
      case True
      then have "en = \<lparr>wconn = c, has_sched = True\<rparr>" using that by simp
      then show ?thesis using True by simp
    next
      case False
      then show ?thesis using old [of e' en] that by simp
    qed
    show "e1 = e2"
    proof (cases "e1 = e")
      case True
      then show ?thesis using k [OF u(1)] k [OF u(2)] u(3) by simp
    next
      case False
      then have "e2 \<noteq> e" using k [OF u(1)] k [OF u(2)] u(3) by simp
      with False show ?thesis using D(4) [of e1 en1 e2 en2] u by simp
    qed
  next
    fix d x assume x: "(F(c \<mapsto> y)) d = Some x"
    show "conn_wheel x" using x y D(5) [of d x] by (auto split: if_splits)
    show "\<exists>e'. conn_entry x = Some e' \<and> e' \<in> insert e E
        \<and> (case ((entries wh)(e \<mapsto> \<lparr>wconn = c, has_sched = True\<rparr>)) e' of None \<Rightarrow> d \<in> fst ` set S | Some en \<Rightarrow> wconn en = d)"
    proof (cases "d = c")
      case True
      then show ?thesis using x y by simp
    next
      case False
      then obtain e' where "conn_entry x = Some e'" "e' \<in> E" "case entries wh e' of None \<Rightarrow> d \<in> fst ` set S | Some en \<Rightarrow> wconn en = d"
        using D(5) [of d x] x by auto
      moreover from this(2) have "e' \<noteq> e" using assms(3) by auto
      ultimately show ?thesis by auto
    qed
  qed (use wh'(1) run D(2) in simp_all)
qed

text \<open>A tick shuts the live connections of the entries that disappear.\<close>

lemma watches_tick:
  assumes w: "watches N wh F S U E" and tick: "wheel_tick alive wh = Inr wh'" and al: "\<And>c. F c \<noteq> None \<longleftrightarrow> alive c"
  obtains cs where "closing wh' = closing wh @ cs" "distinct cs" "set cs \<subseteq> dom F" "set cs \<inter> fst ` set S = {}"
    "\<forall>S'. fst ` set S' = fst ` set S \<union> set cs \<longrightarrow> watches N wh' F S' U E"
proof -
  note D = watchesD [OF w]
  obtain dead where dead: "distinct dead" "\<And>e. entries wh' e = (if e \<in> set dead then None else entries wh e)"
    "closing wh' = closing wh @ map (\<lambda>e. wconn (the (entries wh e))) (filter (\<lambda>e. \<exists>en. entries wh e = Some en \<and> alive (wconn en) \<and> has_sched en) dead)"
    "wheel_running wh' = wheel_running wh" by (rule wheel_tick_closing [OF D(1) tick]) blast
  have ok: "wheel_ok N wh'" using wheel_tick_ok [OF D(1), of alive] tick by auto
  let ?es = "filter (\<lambda>e. \<exists>en. entries wh e = Some en \<and> alive (wconn en) \<and> has_sched en) dead"
  let ?cs = "map (\<lambda>e. wconn (the (entries wh e))) ?es"
  have inj: "inj_on (\<lambda>e. wconn (the (entries wh e))) (set ?es)"
  proof (rule inj_onI)
    fix e e' assume "e \<in> set ?es" "e' \<in> set ?es" "wconn (the (entries wh e)) = wconn (the (entries wh e'))"
    then show "e = e'" using D(4) [of e _ e'] by auto
  qed
  have mem: "c \<in> set ?cs \<longleftrightarrow> (\<exists>e en. e \<in> set dead \<and> entries wh e = Some en \<and> wconn en = c \<and> alive c)" for c
    using D(3) by (force simp: image_iff)
  have K: "watches N wh' F S' U E" if S': "fst ` set S' = fst ` set S \<union> set ?cs" for S'
    unfolding watches_def S'
  proof (intro conjI allI impI)
    fix e en assume e: "entries wh' e = Some en"
    then have e': "entries wh e = Some en" "e \<notin> set dead" using dead(2) by (auto split: if_splits)
    have "wconn en \<notin> set ?cs"
    proof
      assume "wconn en \<in> set ?cs"
      then obtain e2 en2 where "e2 \<in> set dead" "entries wh e2 = Some en2" "wconn en2 = wconn en" unfolding mem by blast
      then show False using D(4) [OF e'(1)] e'(2) by metis
    qed
    then show "has_sched en" "e \<in> E" "wconn en \<in> U" "wconn en \<notin> fst ` set S \<union> set ?cs" using D(3) [OF e'(1)] by auto
  next
    fix e e' en en' assume "entries wh' e = Some en" "entries wh' e' = Some en'" "wconn en = wconn en'"
    then show "e = e'" using D(4) [of e en e' en'] dead(2) by (auto split: if_splits)
  next
    fix c x assume x: "F c = Some x"
    show "conn_wheel x" using D(5) [OF x] by blast
    obtain e where e: "conn_entry x = Some e" "e \<in> E" "case entries wh e of None \<Rightarrow> c \<in> fst ` set S | Some en \<Rightarrow> wconn en = c"
      using D(5) [OF x] by blast
    have "case entries wh' e of None \<Rightarrow> c \<in> fst ` set S \<union> set ?cs | Some en \<Rightarrow> wconn en = c"
    proof (cases "entries wh e")
      case None
      then show ?thesis using e(3) dead(2) [of e] by simp
    next
      case (Some en)
      then show ?thesis using e(3) dead(2) [of e] mem [of c] al [of c] x by auto
    qed
    with e show "\<exists>e. conn_entry x = Some e \<and> e \<in> E \<and> (case entries wh' e of None \<Rightarrow> c \<in> fst ` set S \<union> set ?cs | Some en \<Rightarrow> wconn en = c)"
      by blast
  qed (use ok dead(4) D(2) in simp_all)
  show thesis
  proof (rule that [OF dead(3)])
    show "distinct ?cs" using dead(1) inj by (simp add: distinct_map)
    show "set ?cs \<subseteq> dom F" using mem al by blast
    show "set ?cs \<inter> fst ` set S = {}"
    proof (rule equals0I)
      fix c assume c: "c \<in> set ?cs \<inter> fst ` set S"
      then obtain e en where "entries wh e = Some en" "wconn en = c" using mem [of c] by blast
      with D(3) c show False by blast
    qed
  qed (use K in blast)
qed


subsection \<open>All reachable states\<close>

lemma cl_wheel_ok_watches:
  "cl_wheel_ok N W \<longleftrightarrow> distinct (map fst (cl_shut W)) \<and> fst ` set (cl_shut W) \<subseteq> cl_conns_used W
     \<and> (\<forall>(c, fd) \<in> set (cl_shut W). \<forall>x. cl_conns W c = Some x \<longrightarrow> conn_fd x = fd)
     \<and> (\<forall>wh. ac_wheel (cl_acc W) = Some wh \<longrightarrow> watches N wh (cl_conns W) (cl_shut W) (cl_conns_used W) (cl_entries_used W))"
  unfolding cl_wheel_ok_def watches_def ..

lemma release_conn_frame:
  "cl_shut (release_conn c V) = cl_shut V" "cl_conns_used (release_conn c V) = cl_conns_used V"
  "cl_entries_used (release_conn c V) = cl_entries_used V" "ac_wheel (cl_acc (release_conn c V)) = ac_wheel (cl_acc V)"
  "cl_conns (release_conn c V) d = Some x \<Longrightarrow> cl_conns V d = Some x"
  by (auto simp: release_conn_def split: option.splits prod.splits if_splits)

lemma cl_wheel_ok_release:
  assumes "cl_wheel_ok N V"
  shows "cl_wheel_ok N (release_conn c V)"
  unfolding cl_wheel_ok_watches release_conn_frame(1-4)
proof (intro conjI allI impI)
  note A = assms [unfolded cl_wheel_ok_watches]
  show "distinct (map fst (cl_shut V))" "fst ` set (cl_shut V) \<subseteq> cl_conns_used V" using A by simp_all
  show "\<forall>(d, fd) \<in> set (cl_shut V). \<forall>x. cl_conns (release_conn c V) d = Some x \<longrightarrow> conn_fd x = fd"
  proof clarify
    fix d fd x assume d: "(d, fd) \<in> set (cl_shut V)" "cl_conns (release_conn c V) d = Some x"
    have "\<forall>(d, fd) \<in> set (cl_shut V). \<forall>x. cl_conns V d = Some x \<longrightarrow> conn_fd x = fd" using A by (elim conjE)
    from bspec [OF this d(1)] release_conn_frame(5) [OF d(2)] show "conn_fd x = fd" by simp
  qed
  show "watches N wh (cl_conns (release_conn c V)) (cl_shut V) (cl_conns_used V) (cl_entries_used V)"
    if "ac_wheel (cl_acc V) = Some wh" for wh
  proof (rule watches_drop [where F = "cl_conns V"])
    show "watches N wh (cl_conns V) (cl_shut V) (cl_conns_used V) (cl_entries_used V)" using A that by blast
  qed (rule release_conn_frame(5))
qed

lemma cl_step_inv:
  assumes "cl_step l W U" and "cl_inv N W"
  shows "cl_inv N U"
proof -
  have inv: "cl_conns_ok W" "cl_wheel_ok N W" using assms(2) by (simp_all add: cl_inv_def)
  note D = cl_conns_okD [OF inv(1)]
  have D5: "(c, fd) \<in> set (cl_closing W) \<Longrightarrow> \<exists>x. cl_conns W c = Some x \<and> conn_fd x = fd"
    "(c, fd) \<in> set (remove1 p (cl_pending W)) \<Longrightarrow> \<exists>x. cl_conns W c = Some x \<and> conn_fd x = fd" for c fd p
    using D(5) [of c fd] set_remove1_subset [of p "cl_pending W"] by blast+
  have sub: "fst ` set (remove1 p (cl_pending W)) \<subseteq> set (cl_handlers W)" for p
    using D(2) set_remove1_subset [of p "cl_pending W"] by blast
  from assms(1) show ?thesis
  proof cases
    case (cl_accept fd c e ad a)
    obtain pool y where A: "ac_world a = (ac_world (cl_acc W))\<lparr>w_pool := pool, w_conns := (cl_conns W)(c \<mapsto> y)\<rparr>"
      "ac_wheel (cl_acc W) = None \<longrightarrow> ac_wheel a = None"
      "\<forall>wh. ac_wheel (cl_acc W) = Some wh \<longrightarrow> (\<exists>wh'. register_conn c e wh = Inr wh' \<and> ac_wheel a = Some wh' \<and> conn_wheel y \<and> conn_entry y = Some e)"
      using accept_turn_Inr [OF cl_accept(8,4)] by (elim exE conjE) (rule that)
    have S: "fst ` set (cl_shut W) \<subseteq> cl_conns_used W" "c \<notin> fst ` set (cl_shut W)"
      using inv(2) cl_accept(6) by (auto simp: cl_wheel_ok_watches)
    have "watches N wh' ((cl_conns W)(c \<mapsto> y)) (cl_shut W) (insert c (cl_conns_used W)) (insert e (cl_entries_used W))"
      if aw: "ac_wheel a = Some wh'" for wh'
    proof -
      obtain wh where wh: "ac_wheel (cl_acc W) = Some wh" using aw A(2) by (cases "ac_wheel (cl_acc W)") auto
      then have "register_conn c e wh = Inr wh'" "conn_wheel y" "conn_entry y = Some e" using A(3) aw by auto
      moreover have "watches N wh (cl_conns W) (cl_shut W) (cl_conns_used W) (cl_entries_used W)"
        using inv(2) wh by (simp add: cl_wheel_ok_watches)
      ultimately show ?thesis using watches_register [OF _ cl_accept(6,7) S(1)] by blast
    qed
    moreover have "conn_fd x = fd'" if "(d, fd') \<in> set (cl_shut W)" "((cl_conns W)(c \<mapsto> y)) d = Some x" for d fd' x
    proof -
      have "d \<noteq> c" using S(2) that(1) by force
      then show ?thesis using that inv(2) by (auto simp: cl_wheel_ok_watches)
    qed
    ultimately have "cl_wheel_ok N U"
      using inv(2) S(1) by (auto simp: cl_wheel_ok_watches cl_accept(2) A(1))
    then show ?thesis using cl_conns_ok_accept [OF inv(1) cl_accept(4,5,6,8)] by (simp add: cl_inv_def cl_accept(2))
  next
    case (cl_accept_end run res ad c e a)
    have "a = (cl_acc W)\<lparr>ac_looping := False\<rparr>" using cl_accept_end(4,5) by (simp add: accept_turn_end)
    then show ?thesis using inv cl_accept_end(2)
      by (simp add: cl_inv_def cl_conns_ok_def cl_wheel_ok_watches cl_alive_def)
  next
    case (cl_request c x)
    have "cl_conns_ok U"
      by (rule cl_conns_ok_frame [OF inv(1)]) (use D(2,5) cl_request in \<open>auto simp: cl_alive_def\<close>)
    then show ?thesis using inv(2) cl_request(2) by (simp add: cl_inv_def cl_wheel_ok_watches)
  next
    case (cl_done c fd)
    have "cl_conns_ok U"
      by (rule cl_conns_ok_frame [OF inv(1)]) (use sub [of "(c, fd)"] D5 cl_done in \<open>auto simp: cl_alive_def\<close>)
    then show ?thesis using inv(2) cl_done(2) by (simp add: cl_inv_def cl_wheel_ok_watches)
  next
    case (cl_received c fd x wh n wh')
    have "cl_conns_ok U"
      by (rule cl_conns_ok_frame [OF inv(1)]) (use sub [of "(c, fd)"] D5 cl_received in \<open>auto simp: cl_alive_def\<close>)
    moreover have "watches N wh (cl_conns W) (cl_shut W) (cl_conns_used W) (cl_entries_used W)"
      using inv(2) cl_received(5) by (simp add: cl_wheel_ok_watches)
    from watches_refresh [OF this cl_received(4,6)]
    have "watches N wh' (cl_conns W) (cl_shut W) (cl_conns_used W) (cl_entries_used W)" .
    ultimately show ?thesis using inv(2) cl_received(2) by (simp add: cl_inv_def cl_wheel_ok_watches)
  next
    case (cl_shut_done c fd)
    obtain x where x: "cl_conns W c = Some x" using D(5) [of c fd] cl_shut_done(3) by auto
    let ?V = "W\<lparr>cl_closing := remove1 (c, fd) (cl_closing W)\<rparr>"
    have "cl_conns_ok (release_conn c ?V)"
    proof (rule cl_conns_ok_release [OF inv(1) x, where hs = "cl_handlers W" and cs = "remove1 (c, fd) (cl_closing W)"])
      show "cl_alive ?V d = cl_alive W d" if "d \<noteq> c" for d
        using that in_set_remove1 [of _ "(c, fd)" "cl_closing W"] by (force simp: cl_alive_def image_iff)
    qed (use D(1,2) set_remove1_subset [of "(c, fd)" "cl_closing W"] in auto)
    moreover have "cl_wheel_ok N ?V" using inv(2) by (simp add: cl_wheel_ok_watches)
    ultimately show ?thesis using cl_wheel_ok_release cl_shut_done(2) by (simp add: cl_inv_def)
  next
    case (cl_handler_end c)
    obtain x where x: "cl_conns W c = Some x" using D(3) [of c] cl_handler_end(3) by (auto simp: cl_alive_def)
    let ?V = "W\<lparr>cl_handlers := remove1 c (cl_handlers W)\<rparr>"
    have "cl_conns_ok (release_conn c ?V)"
    proof (rule cl_conns_ok_release [OF inv(1) x, where hs = "remove1 c (cl_handlers W)" and cs = "cl_closing W"])
      show "cl_alive ?V d = cl_alive W d" if "d \<noteq> c" for d using that by (simp add: cl_alive_def)
      show "fst ` set (cl_pending W) \<subseteq> set (remove1 c (cl_handlers W))" using D(1,2) cl_handler_end(4) by auto
    qed (use D(1) in auto)
    moreover have "cl_wheel_ok N ?V" using inv(2) by (simp add: cl_wheel_ok_watches)
    ultimately show ?thesis using cl_wheel_ok_release cl_handler_end(2) by (simp add: cl_inv_def)
  next
    case (cl_tick wh b wh')
    have w: "watches N wh (cl_conns W) (cl_shut W) (cl_conns_used W) (cl_entries_used W)"
      using inv(2) cl_tick(3) by (simp add: cl_wheel_ok_watches)
    have tick: "wheel_tick (cl_alive W) wh = Inr wh'"
      using cl_tick(4) watchesD(2) [OF w] by (auto simp: tick_coro_resume_def rbind_eq_Inr)
    obtain cs where cs: "closing wh' = closing wh @ cs" "distinct cs" "set cs \<subseteq> dom (cl_conns W)" "set cs \<inter> fst ` set (cl_shut W) = {}"
      "\<forall>S'. fst ` set S' = fst ` set (cl_shut W) \<union> set cs \<longrightarrow> watches N wh' (cl_conns W) S' (cl_conns_used W) (cl_entries_used W)"
      by (rule watches_tick [OF w tick D(3)])
    let ?V = "W\<lparr>cl_acc := (cl_acc W)\<lparr>ac_wheel := Some wh'\<rparr>\<rparr>"
    let ?new = "map (\<lambda>c. (c, conn_fd (the (cl_conns W c)))) cs"
    have fst_new: "fst ` set ?new = set cs" by (auto simp: image_iff)
    have U: "U = W\<lparr>cl_acc := (cl_acc W)\<lparr>ac_wheel := Some wh'\<rparr>, cl_closing := cl_closing W @ ?new, cl_shut := cl_shut W @ ?new\<rparr>"
      using start_closing_all [of cs ?V] cs(1,3) D(6) cl_tick(2) by force
    have "cl_conns_ok U"
    proof (rule cl_conns_ok_frame [OF inv(1)])
      show "cl_alive U c = cl_alive W c" for c using cs(3) D(3) [of c] fst_new by (auto simp: cl_alive_def U image_Un)
      show "\<forall>(c, fd) \<in> set (cl_pending U) \<union> set (cl_closing U). \<exists>x. cl_conns W c = Some x \<and> conn_fd x = fd"
        using D(5) cs(3) by (auto simp: U)
    qed (use D(2) in \<open>simp_all add: U\<close>)
    moreover have "cl_wheel_ok N U"
      unfolding cl_wheel_ok_watches
    proof (intro conjI)
      show "distinct (map fst (cl_shut U))" using inv(2) cs(2,4) by (auto simp: U cl_wheel_ok_watches comp_def)
      have "set cs \<subseteq> cl_conns_used W" using cs(3) D(4) by (rule subset_trans)
      then show "fst ` set (cl_shut U) \<subseteq> cl_conns_used U" using inv(2) by (auto simp: U cl_wheel_ok_watches)
      show "\<forall>(c, fd) \<in> set (cl_shut U). \<forall>x. cl_conns U c = Some x \<longrightarrow> conn_fd x = fd" using inv(2) by (auto simp: U cl_wheel_ok_watches)
      show "\<forall>wh. ac_wheel (cl_acc U) = Some wh \<longrightarrow> watches N wh (cl_conns U) (cl_shut U) (cl_conns_used U) (cl_entries_used U)"
        using cs(5) fst_new by (simp add: U image_Un)
    qed
    ultimately show ?thesis by (simp add: cl_inv_def)
  qed
qed


lemma cl_new_inv:
  assumes "wheel_built N wo"
  shows "cl_inv N (cl_new h pool wo)"
proof -
  have "cl_conns_ok (cl_new h pool wo)"
    by (simp add: cl_conns_ok_def cl_new_def world_new_def cl_alive_def holders_def)
  moreover have "watches N wh Map.empty [] {} {}" if wo: "wo = Some wh" for wh
  proof -
    obtain m idle wh0 where w: "wheel_new m idle = Inr wh0" "wh = wheel_start wh0" "N = (if idle > 0 then nat idle else 1)"
        "N \<le> vec_max" "N \<le> m"
      using assms wo unfolding wheel_built_def by blast
    have "wheel_ok N wh0 \<and> entries wh0 = Map.empty" using wheel_new_ok [OF w(3,4,5)] w(1) by auto
    moreover have "wheel_ok N (wheel_start wh0) = wheel_ok N wh0" by (simp add: wheel_ok_def wheel_start_def)
    ultimately show ?thesis by (simp add: watches_def w(2)) (simp add: wheel_start_def)
  qed
  ultimately show ?thesis by (simp add: cl_inv_def cl_wheel_ok_watches cl_new_def world_new_def)
qed

lemma cl_run_inv: "cl_run ls W U \<Longrightarrow> cl_inv N W \<Longrightarrow> cl_inv N U"
  by (induction rule: cl_run.induct) (simp_all add: cl_step_inv)

subsection \<open>Silent connections\<close>

lemma aged_exists:
  assumes ok: "wheel_ok N w" and e: "entries w e \<noteq> None"
  shows "\<exists>k. aged N k e w"
proof -
  note D = wheel_okD [OF ok]
  let ?J = "{j. j < N \<and> e \<in> set (bucket_list w ! j)}"
  have "e \<in> (\<Union>b \<in> set (bucket_list w). set b)" using ok e by (auto simp: wheel_ok_def)
  then obtain b where b: "b \<in> set (bucket_list w)" "e \<in> set b" by blast
  then obtain j where "j < N" "e \<in> set (bucket_list w ! j)" using D(3) in_set_conv_nth [of b] by metis
  then have ne: "?J \<noteq> {}" by blast
  have fin: "finite ?J" by simp
  define M where "M = Max ?J"
  have "M \<in> ?J" unfolding M_def by (rule Max_in [OF fin ne])
  then have m: "M < N" "e \<in> set (bucket_list w ! M)" by simp_all
  have le: "i \<le> M" if "i \<in> ?J" for i unfolding M_def by (rule Max_ge [OF fin that])
  have "e \<notin> set (bucket_list w ! i)" if "M < i" "i < N" for i
  proof
    assume "e \<in> set (bucket_list w ! i)"
    then have "i \<in> ?J" using that by simp
    from le [OF this] that(1) show False by simp
  qed
  moreover have "N - 1 - (N - 1 - M) = M" using m(1) by simp
  ultimately have "aged N (N - 1 - M) e w" using m unfolding aged_def by simp
  then show ?thesis ..
qed

text \<open>The connection is gone, its shutdown has been asked for, or its entry has seen \<open>k\<close> ticks.\<close>

definition silent_for :: "nat \<Rightarrow> nat \<Rightarrow> conn_id \<Rightarrow> conn_life \<Rightarrow> bool" where
  "silent_for N k c W \<longleftrightarrow> cl_conns W c = None \<and> c \<in> cl_conns_used W \<or> c \<in> fst ` set (cl_shut W)
     \<or> (\<exists>wh e x k'. ac_wheel (cl_acc W) = Some wh \<and> cl_conns W c = Some x \<and> conn_entry x = Some e \<and> entries wh e \<noteq> None
          \<and> aged N k' e wh \<and> k \<le> k')"

lemma silent_forI:
  "ac_wheel (cl_acc W) = Some wh \<Longrightarrow> cl_conns W c = Some x \<Longrightarrow> conn_entry x = Some e \<Longrightarrow> entries wh e \<noteq> None \<Longrightarrow>
   aged N k' e wh \<Longrightarrow> k \<le> k' \<Longrightarrow> silent_for N k c W"
  unfolding silent_for_def by blast

lemma silent_for_kept:
  assumes "silent_for N k c W" and "cl_conns U c = cl_conns W c \<or> cl_conns U c = None \<and> c \<in> cl_conns_used U"
    and "cl_conns_used W \<subseteq> cl_conns_used U" and "cl_shut U = cl_shut W" and "ac_wheel (cl_acc U) = ac_wheel (cl_acc W)"
  shows "silent_for N k c U"
  using assms unfolding silent_for_def by (metis subsetD)

lemma release_conn_conns:
  "cl_conns (release_conn d V) c = cl_conns V c \<or> cl_conns (release_conn d V) c = None"
  by (auto simp: release_conn_def split: option.splits prod.splits)

lemma silent_release:
  assumes "silent_for N k c W" and "c \<in> cl_conns_used W" and "cl_acc V = cl_acc W" and "cl_conns_used V = cl_conns_used W"
    and "cl_shut V = cl_shut W"
  shows "silent_for N k c (release_conn d V)"
proof (rule silent_for_kept [OF assms(1)])
  show "cl_conns (release_conn d V) c = cl_conns W c \<or> cl_conns (release_conn d V) c = None \<and> c \<in> cl_conns_used (release_conn d V)"
    using release_conn_conns [of d V c] assms(2-4) by (simp add: release_conn_frame(2))
qed (simp_all add: release_conn_frame(1-4) assms(3-5))

lemma start_closing_frame:
  "cl_conns (fold start_closing cs V) = cl_conns V \<and> cl_conns_used (fold start_closing cs V) = cl_conns_used V
   \<and> ac_wheel (cl_acc (fold start_closing cs V)) = ac_wheel (cl_acc V) \<and> set (cl_shut V) \<subseteq> set (cl_shut (fold start_closing cs V))"
proof (induction cs arbitrary: V)
  case (Cons c cs)
  have "set (cl_shut V) \<subseteq> set (cl_shut (start_closing c V))" by (auto simp: start_closing_def split: option.split)
  moreover have "cl_conns (start_closing c V) = cl_conns V" "cl_conns_used (start_closing c V) = cl_conns_used V"
    "ac_wheel (cl_acc (start_closing c V)) = ac_wheel (cl_acc V)" by (simp_all add: start_closing_def split: option.split)
  ultimately show ?case using Cons.IH [of "start_closing c V"] by auto
qed simp

lemma silent_step:
  assumes step: "cl_step l W U" and inv: "cl_inv N W" and s: "silent_for N k c W"
    and quiet: "\<And>n. l = LReceived c n \<Longrightarrow> n \<le> 0"
  shows "silent_for N (k + (if l = LTick then 1 else 0)) c U"
proof -
  have invU: "cl_inv N U" by (rule cl_step_inv [OF step inv])
  have W: "watches N wh (cl_conns W) (cl_shut W) (cl_conns_used W) (cl_entries_used W)" if "ac_wheel (cl_acc W) = Some wh" for wh
    using inv that by (simp add: cl_inv_def cl_wheel_ok_watches)
  have used: "c \<in> cl_conns_used W"
    using s inv by (auto simp: silent_for_def cl_inv_def cl_conns_ok_def cl_wheel_ok_watches)
  from step show ?thesis
  proof cases
    case (cl_accept fd d e ad a)
    obtain pool y where A: "ac_world a = (ac_world (cl_acc W))\<lparr>w_pool := pool, w_conns := (cl_conns W)(d \<mapsto> y)\<rparr>"
      "\<forall>wh. ac_wheel (cl_acc W) = Some wh \<longrightarrow> (\<exists>wh'. register_conn d e wh = Inr wh' \<and> ac_wheel a = Some wh')"
      using accept_turn_Inr [OF cl_accept(8,4)] by (elim exE conjE) (rule that, simp, blast)
    have d: "c \<noteq> d" using used cl_accept(6) by auto
    then have cU: "cl_conns U c = cl_conns W c" by (simp add: cl_accept(2) A(1))
    consider "cl_conns W c = None \<or> c \<in> fst ` set (cl_shut W)"
      | wh e' x k' where "ac_wheel (cl_acc W) = Some wh" "cl_conns W c = Some x" "conn_entry x = Some e'" "entries wh e' \<noteq> None"
          "aged N k' e' wh" "k \<le> k'" using s unfolding silent_for_def by blast
    then show ?thesis
    proof cases
      case 1
      then show ?thesis using cU used by (auto simp: silent_for_def cl_accept(1,2))
    next
      case (2 wh e' x k')
      note D = watchesD [OF W [OF 2(1)]]
      obtain wh' where wh': "register_conn d e wh = Inr wh'" "ac_wheel a = Some wh'" using A(2) 2(1) by blast
      have "e \<noteq> e'" using D(3) [of e'] 2(4) cl_accept(7) by auto
      moreover have "k' < N" using 2(5) by (simp add: aged_def)
      ultimately have "aged N k' e' wh' \<and> entries wh' e' = entries wh e'"
        using aged_step [OF D(1) 2(5), of "Register d e"] wh'(1) by auto
      then show ?thesis using 2 cU wh'(2)
        by (intro silent_forI [where wh = wh' and x = x and e = e' and k' = k']) (simp_all add: cl_accept(1,2))
    qed
  next
    case cl_accept_end
    then show ?thesis using s by (auto intro!: silent_for_kept [OF s] simp: accept_turn_end)
  next
    case cl_request
    then show ?thesis by (auto intro!: silent_for_kept [OF s])
  next
    case cl_done
    then show ?thesis by (auto intro!: silent_for_kept [OF s])
  next
    case (cl_received d fd y wh n wh')
    note D = watchesD [OF W [OF cl_received(5)]]
    consider "cl_conns W c = None \<or> c \<in> fst ` set (cl_shut W)"
      | e x k' where "cl_conns W c = Some x" "conn_entry x = Some e" "entries wh e \<noteq> None" "aged N k' e wh" "k \<le> k'"
      using s cl_received(5) unfolding silent_for_def by auto
    then show ?thesis
    proof cases
      case 1
      then show ?thesis using used by (auto simp: silent_for_def cl_received(1,2))
    next
      case (2 e x k')
      have "aged N k' e wh' \<and> entries wh' e = entries wh e"
      proof (cases "n > 0 \<and> (\<exists>e2. conn_entry y = Some e2)")
        case True
        then obtain e2 where e2: "conn_entry y = Some e2" by blast
        have "c \<noteq> d" using quiet [of n] True cl_received(1) by auto
        moreover have "case entries wh e of None \<Rightarrow> c \<in> fst ` set (cl_shut W) | Some en \<Rightarrow> wconn en = c"
            "case entries wh e2 of None \<Rightarrow> d \<in> fst ` set (cl_shut W) | Some en \<Rightarrow> wconn en = d"
          using D(5) [OF 2(1)] D(5) [OF cl_received(4)] 2(2) e2 by auto
        ultimately have "e2 \<noteq> e \<or> entries wh e2 = None" using 2(3) by (auto split: option.splits)
        moreover have "k' < N" using 2(4) by (simp add: aged_def)
        moreover have "wheel_step (Refresh e2) wh = Inr wh'"
          using cl_received(6) True e2 D(5) [OF cl_received(4)] by (simp add: recv_resume_def)
        ultimately show ?thesis using aged_step [OF D(1) 2(4), of "Refresh e2"] 2(3,4)
          by (cases "entries wh e2 = None") (auto simp: refresh_weak_def)
      next
        case False
        then have "wh' = wh" using cl_received(6) by (auto simp: recv_resume_def split: if_splits option.splits)
        then show ?thesis using 2(4) by simp
      qed
      then show ?thesis using 2
        by (intro silent_forI [where wh = wh' and x = x and e = e and k' = k']) (simp_all add: cl_received(1,2))
    qed
  next
    case (cl_shut_done d fd)
    then show ?thesis using silent_release [OF s used] by simp
  next
    case (cl_handler_end d)
    then show ?thesis using silent_release [OF s used] by simp
  next
    case (cl_tick wh b wh')
    note D = watchesD [OF W [OF cl_tick(3)]]
    have tick: "wheel_tick (cl_alive W) wh = Inr wh'"
      using cl_tick(4) D(2) by (auto simp: tick_coro_resume_def rbind_eq_Inr)
    have U: "cl_conns U = cl_conns W" "cl_conns_used U = cl_conns_used W" "ac_wheel (cl_acc U) = Some wh'"
        "set (cl_shut W) \<subseteq> set (cl_shut U)"
      using start_closing_frame [of _ "W\<lparr>cl_acc := (cl_acc W)\<lparr>ac_wheel := Some wh'\<rparr>\<rparr>"] by (simp_all add: cl_tick(2))
    consider "cl_conns W c = None \<or> c \<in> fst ` set (cl_shut W)"
      | e x k' where "cl_conns W c = Some x" "conn_entry x = Some e" "entries wh e \<noteq> None" "aged N k' e wh" "k \<le> k'"
      using s cl_tick(3) unfolding silent_for_def by auto
    then show ?thesis
    proof cases
      case 1
      then show ?thesis using used U by (auto simp: silent_for_def)
    next
      case (2 e x k')
      have WU: "watches N wh' (cl_conns U) (cl_shut U) (cl_conns_used U) (cl_entries_used U)"
        using invU U(3) by (simp add: cl_inv_def cl_wheel_ok_watches)
      show ?thesis
      proof (cases "Suc k' < N")
        case True
        then have "aged N (Suc k') e wh' \<and> entries wh' e = entries wh e"
          using aged_step [OF D(1) 2(4), of "Tick (cl_alive W)"] tick by auto
        then show ?thesis using 2 U cl_tick(1)
          by (intro silent_forI [where wh = wh' and x = x and e = e and k' = "Suc k'"]) simp_all
      next
        case False
        moreover have "k' < N" using 2(4) by (simp add: aged_def)
        ultimately have "k' = N - 1" by linarith
        moreover obtain en where "entries wh e = Some en" using 2(3) by blast
        ultimately have "entries wh' e = None" using aged_evict [OF D(1), of e en "cl_alive W"] 2(4) tick by auto
        then have "c \<in> fst ` set (cl_shut U)" using watchesD(5) [OF WU, of c x] 2(1,2) U(1) by auto
        then show ?thesis by (simp add: silent_for_def)
      qed
    qed
  qed
qed

lemma silent_run:
  "cl_run ls W U \<Longrightarrow> cl_inv N W \<Longrightarrow> silent_for N k c W \<Longrightarrow> \<forall>n. LReceived c n \<in> set ls \<longrightarrow> n \<le> 0 \<Longrightarrow>
   silent_for N (k + count_list ls LTick) c U"
proof (induction rule: cl_run.induct)
  case (cl_run_snoc ls W V l U)
  have "silent_for N (k + count_list ls LTick) c V" using cl_run_snoc by simp
  from silent_step [OF cl_run_snoc.hyps(2) cl_run_inv [OF cl_run_snoc.hyps(1) cl_run_snoc.prems(1)] this] cl_run_snoc.prems(3)
  show ?case by (auto simp: add.commute split: if_splits)
qed simp

lemma cl_step_wheel: "cl_step l W U \<Longrightarrow> ac_wheel (cl_acc W) \<noteq> None \<Longrightarrow> ac_wheel (cl_acc U) \<noteq> None"
proof (induction rule: cl_step.induct)
  case (cl_accept W fd c e ad a)
  then show ?case using accept_turn_Inr [OF cl_accept(6,2)] by fastforce
qed (auto simp: accept_turn_end release_conn_frame(4) start_closing_frame)

lemma cl_run_wheel: "cl_run ls W U \<Longrightarrow> ac_wheel (cl_acc W) \<noteq> None \<Longrightarrow> ac_wheel (cl_acc U) \<noteq> None"
  by (induction rule: cl_run.induct) (use cl_step_wheel in blast)+

lemma silent_start:
  assumes inv: "cl_inv N W" and "ac_wheel (cl_acc W) \<noteq> None" and x: "cl_conns W c = Some x"
  shows "silent_for N 0 c W"
proof -
  obtain wh where wh: "ac_wheel (cl_acc W) = Some wh" using assms(2) by blast
  then have w: "watches N wh (cl_conns W) (cl_shut W) (cl_conns_used W) (cl_entries_used W)"
    using inv by (simp add: cl_inv_def cl_wheel_ok_watches)
  obtain e where e: "conn_entry x = Some e" "entries wh e = None \<longrightarrow> c \<in> fst ` set (cl_shut W)"
    using watchesD(5) [OF w x] by (auto split: option.splits)
  show ?thesis
  proof (cases "entries wh e = None")
    case True
    then show ?thesis using e(2) by (simp add: silent_for_def)
  next
    case False
    from aged_exists [OF watchesD(1) [OF w] False] obtain k where "aged N k e wh" by blast
    then show ?thesis using silent_forI [OF wh x e(1) False] by simp
  qed
qed

lemma silent_end:
  assumes inv: "cl_inv N W" and s: "silent_for N k c W" and "N \<le> k" and x: "cl_conns W c = Some x"
  shows "(c, conn_fd x) \<in> set (cl_shut W)"
proof -
  have "c \<in> fst ` set (cl_shut W)" using s assms(3) x by (auto simp: silent_for_def aged_def)
  then obtain fd where fd: "(c, fd) \<in> set (cl_shut W)" by force
  have "\<forall>(c, fd) \<in> set (cl_shut W). \<forall>x. cl_conns W c = Some x \<longrightarrow> conn_fd x = fd"
    using inv by (simp add: cl_inv_def cl_wheel_ok_watches)
  from bspec [OF this fd] x have "conn_fd x = fd" by simp
  with fd show ?thesis by simp
qed

section \<open>Properties\<close>

text \<open>
  C8: Descriptors outlive their operations.  Whatever connections a worker accepts, serves and evicts,
  every operation in flight names the descriptor of a connection that is still open, so none acts on a
  descriptor that was closed and given to another connection; a connection is open as long as its
  handler or a closing coroutine holds it; open connections have different descriptors; each accepted
  descriptor has been closed exactly once or belongs to an open connection; and the wheel has no
  connection shut twice.
\<close>

theorem operations_name_open_descriptors:
  assumes "wheel_built N wo" and "cl_run ls (cl_new h pool wo) W"
  shows "(\<forall>(c, fd) \<in> set (cl_pending W) \<union> set (cl_closing W). \<exists>x. cl_conns W c = Some x \<and> conn_fd x = fd)
    \<and> (\<forall>c. cl_conns W c \<noteq> None \<longleftrightarrow> c \<in> set (cl_handlers W) \<or> c \<in> fst ` set (cl_closing W))
    \<and> (\<forall>c d x y. cl_conns W c = Some x \<longrightarrow> cl_conns W d = Some y \<longrightarrow> conn_fd x = conn_fd y \<longrightarrow> c = d)
    \<and> (\<forall>fd \<ge> 0. count_list (cl_accepted W) fd
         = count_list (w_closed (ac_world (cl_acc W))) fd + card (holders (ac_world (cl_acc W)) fd))
    \<and> distinct (map fst (cl_shut W))"
  using cl_run_inv [OF assms(2) cl_new_inv [OF assms(1)]]
  unfolding cl_inv_def cl_conns_ok_def cl_wheel_ok_def cl_alive_def by (elim conjE) (intro conjI; assumption)


text \<open>
  C9: A silent connection is shut.  On a worker with a wheel of \<open>N\<close> seconds, a connection that is open at
  some moment and receives no data during the next \<open>N\<close> ticks is closed by then, or the shutdown of its
  own descriptor has been requested, whatever the worker does with other connections and with the
  accept loop in between.
\<close>

theorem silent_connection_is_shut:
  assumes "wheel_built N (Some wh0)" and "cl_run ls (cl_new h pool (Some wh0)) W" and "cl_conns W c \<noteq> None"
    and "cl_run ls' W U" and "\<forall>n. LReceived c n \<in> set ls' \<longrightarrow> n \<le> 0" and "N \<le> count_list ls' LTick"
  shows "case cl_conns U c of None \<Rightarrow> True | Some x \<Rightarrow> (c, conn_fd x) \<in> set (cl_shut U)"
proof -
  have inv: "cl_inv N W" by (rule cl_run_inv [OF assms(2) cl_new_inv [OF assms(1)]])
  have "ac_wheel (cl_acc W) \<noteq> None" by (rule cl_run_wheel [OF assms(2)]) (simp add: cl_new_def)
  moreover obtain y where "cl_conns W c = Some y" using assms(3) by blast
  ultimately have "silent_for N 0 c W" by (rule silent_start [OF inv])
  from silent_end [OF cl_run_inv [OF assms(4) inv] silent_run [OF assms(4) inv this assms(5)]] assms(6)
  show ?thesis by (simp split: option.split)
qed

section \<open>A concrete run\<close>

text \<open>One connection is accepted on a worker with a timeout of one second.\<close>

lemma demo_accepted:
  "\<exists>wh0 W x. wheel_built 1 (Some wh0) \<and> cl_run [LOther] (cl_new (Some 0) None (Some wh0)) W
     \<and> cl_handlers W = [1] \<and> cl_pending W = [] \<and> cl_conns W 1 = Some x \<and> conn_fd x = 5"
proof -
  obtain w0 where w0: "wheel_new 1000 1 = Inr w0" "wheel_ok 1 w0" using wheel_new_ok [of 1 1 1000] by (auto simp: vec_max_def)
  then have built: "wheel_built 1 (Some (wheel_start w0))"
    unfolding wheel_built_def by (intro disjI2 exI [of _ 1000] exI [of _ 1] exI [of _ w0]) (simp add: vec_max_def)
  let ?W = "cl_new (Some 0) None (Some (wheel_start w0))"
  have wh: "wheel_ok 1 (wheel_start w0)" using w0(2) by (simp add: wheel_ok_def wheel_start_def)
  obtain a where a: "accept_turn True 5 demo_peer 1 1 (cl_acc ?W) = Inr a"
    by (rule accept_turn_ok [of "cl_acc ?W" "wheel_start w0" 1 5 demo_peer 1 1]) (use wh in \<open>simp_all add: cl_new_def\<close>)
  then obtain y where y: "conn_fd y = 5" "w_conns (ac_world a) = (cl_conns ?W)(1 \<mapsto> y)"
    using accept_turn_Inr [OF a] by auto
  have "cl_step LOther ?W (?W\<lparr>cl_acc := a, cl_handlers := cl_handlers ?W @ [1], cl_accepted := cl_accepted ?W @ [5],
      cl_conns_used := insert 1 (cl_conns_used ?W), cl_entries_used := insert 1 (cl_entries_used ?W)\<rparr>)" (is "cl_step _ _ ?U")
    by (rule cl_accept [OF _ _ _ _ _ a]) (simp_all add: cl_new_def world_new_def)
  then have "cl_run [LOther] ?W ?U" using cl_run_snoc [OF cl_run_Nil, of LOther ?W ?U] by simp
  moreover have "cl_handlers ?U = [1]" "cl_pending ?U = []" "cl_conns ?U 1 = Some y" using y by (simp_all add: cl_new_def)
  ultimately show ?thesis using built y(1) by blast
qed

theorem operations_name_open_descriptors_witness:
  "\<exists>wh0 ls W x. wheel_built 1 (Some wh0) \<and> cl_run ls (cl_new (Some 0) None (Some wh0)) W
     \<and> (1, 5) \<in> set (cl_pending W) \<and> cl_conns W 1 = Some x \<and> conn_fd x = 5"
proof -
  obtain wh0 W x where W: "wheel_built 1 (Some wh0)" "cl_run [LOther] (cl_new (Some 0) None (Some wh0)) W"
    "cl_handlers W = [1]" "cl_pending W = []" "cl_conns W 1 = Some x" "conn_fd x = 5" using demo_accepted by blast
  have "cl_step LOther W (W\<lparr>cl_pending := [(1, 5)]\<rparr>)" using cl_request [of 1 W x] W by simp
  from cl_run_snoc [OF W(2) this] have run: "cl_run [LOther, LOther] (cl_new (Some 0) None (Some wh0)) (W\<lparr>cl_pending := [(1, 5)]\<rparr>)"
    by simp
  from operations_name_open_descriptors [OF W(1) run]
  have "\<exists>x. cl_conns (W\<lparr>cl_pending := [(1, 5)]\<rparr>) 1 = Some x \<and> conn_fd x = 5" by auto
  moreover have "(1, 5) \<in> set (cl_pending (W\<lparr>cl_pending := [(1, 5)]\<rparr>))" by simp
  ultimately show ?thesis using W(1) run by blast
qed

theorem silent_connection_is_shut_witness:
  "\<exists>wh0 ls W U. wheel_built 1 (Some wh0) \<and> cl_run ls (cl_new (Some 0) None (Some wh0)) W \<and> cl_run [LTick] W U
     \<and> (1, 5) \<in> set (cl_shut U)"
proof -
  obtain wh0 W x where W: "wheel_built 1 (Some wh0)" "cl_run [LOther] (cl_new (Some 0) None (Some wh0)) W"
    "cl_handlers W = [1]" "cl_conns W 1 = Some x" "conn_fd x = 5" using demo_accepted by blast
  have inv: "cl_inv 1 W" by (rule cl_run_inv [OF W(2) cl_new_inv [OF W(1)]])
  have "ac_wheel (cl_acc W) \<noteq> None" by (rule cl_run_wheel [OF W(2)]) (simp add: cl_new_def)
  then obtain wh where wh: "ac_wheel (cl_acc W) = Some wh" by blast
  then have w: "wheel_ok 1 wh" "wheel_running wh" using inv by (simp_all add: cl_inv_def cl_wheel_ok_def)
  obtain wh' where "wheel_tick (cl_alive W) wh = Inr wh'" using wheel_tick_ok [OF w(1)] by blast
  then have tick: "tick_coro_resume (cl_alive W) wh = Inr (wheel_running wh', wh')" using w(2) by (simp add: tick_coro_resume_def)
  let ?U = "fold start_closing (drop (length (closing wh)) (closing wh')) (W\<lparr>cl_acc := (cl_acc W)\<lparr>ac_wheel := Some wh'\<rparr>\<rparr>)"
  have run: "cl_run [LTick] W ?U" using cl_run_snoc [OF cl_run_Nil cl_tick [OF wh tick]] by simp
  have "cl_conns ?U 1 = Some x" using W(4) by (simp add: start_closing_frame)
  with silent_connection_is_shut [OF W(1,2) _ run, of 1] W(4,5) have "(1, 5) \<in> set (cl_shut ?U)" by simp
  then show ?thesis using W(1,2) run by blast
qed

end
