(* ===== verification/Coroutines.thy ===== *)
theory Coroutines
  imports Coro_Prelude
begin

text \<open>
  \<open>Task\<close> and \<open>FireAndForget\<close> (\<open>task.hpp\<close>, \<open>fire_and_forget.hpp\<close>, \<open>fire_and_forget.cc\<close>) and
  \<open>Scheduler::spawn\<close>: promises, final awaiter, the awaiting protocol with symmetric transfer, and
  the life of coroutine frames.  What a coroutine function does is a \<open>prog\<close>, the state machine
  the compiler makes of its body: it is an argument of the model, everything that runs between two
  of its actions is the code of these files.  Frames live on an explicit heap; handles are not
  reused, so that a stale one is noticed.
\<close>

section \<open>Coroutine bodies and frames\<close>

datatype ('v, 'x) prog =
    Return 'v                                    \<comment> \<open>\<open>co_return v\<close>\<close>
  | Throw 'x                                     \<comment> \<open>an exception leaves the body\<close>
  | AwaitTask "('v, 'x) prog" "'x + 'v \<Rightarrow> ('v, 'x) prog"   \<comment> \<open>\<open>co_await f()\<close> for a coroutine function \<open>f\<close>\<close>
  | AwaitIo nat "int \<Rightarrow> ('v, 'x) prog"           \<comment> \<open>\<open>co_await\<close> of an I/O awaiter\<close>
  | Spawn "('v, 'x) prog" "('v, 'x) prog"        \<comment> \<open>\<open>sched.spawn(f())\<close>, then the rest\<close>
  | DropTask "('v, 'x) prog" "('v, 'x) prog"     \<comment> \<open>a task is created and never awaited\<close>

datatype ('v, 'x) promise_result = NotDone | HasValue 'v | HasException 'x

text \<open>Where a coroutine stands.  A waiting one holds the task it waits for.\<close>

datatype ('v, 'x) point =
    AtStart "('v, 'x) prog"                      \<comment> \<open>at \<open>initial_suspend\<close>\<close>
  | Running "('v, 'x) prog"                      \<comment> \<open>on the stack\<close>
  | InAwait handle "'x + 'v \<Rightarrow> ('v, 'x) prog"
  | InIo "int \<Rightarrow> ('v, 'x) prog"
  | ShimAwait handle                             \<comment> \<open>the shell of \<open>spawn\<close>, which owns its task\<close>
  | AtFinal                                      \<comment> \<open>at \<open>final_suspend\<close>, \<open>done()\<close>\<close>

record ('v, 'x) frame =
  fr_point :: "('v, 'x) point"
  fr_result :: "('v, 'x) promise_result"
  fr_cont :: handle                              \<comment> \<open>0 is \<open>std::noop_coroutine()\<close>\<close>

type_synonym ('v, 'x) frames = "handle \<rightharpoonup> ('v, 'x) frame"

datatype co_error =
    DanglingHandle | ResumedRunning | ResumedDone | NotCompleted | BadVariant | DestroyedTwice | DestroyedRunning
  | NothingRuns | OutOfFuel

section \<open>Task and promise\<close>

definition promise_new :: "('v, 'x) prog \<Rightarrow> ('v, 'x) frame" where
  "promise_new p = \<lparr>fr_point = AtStart p, fr_result = NotDone, fr_cont = 0\<rparr>"

definition return_value :: "'v \<Rightarrow> ('v, 'x) frame \<Rightarrow> ('v, 'x) frame" where
  "return_value v f = f\<lparr>fr_result := HasValue v\<rparr>"

definition unhandled_exception :: "'x \<Rightarrow> ('v, 'x) frame \<Rightarrow> ('v, 'x) frame" where
  "unhandled_exception x f = f\<lparr>fr_result := HasException x\<rparr>"

definition final_await_suspend :: "('v, 'x) frame \<Rightarrow> handle" where
  "final_await_suspend f = fr_cont f"

definition task_await_ready :: "handle \<Rightarrow> ('v, 'x) frames \<Rightarrow> bool" where
  "task_await_ready h F \<longleftrightarrow> h = 0 \<or> (\<exists>f \<in> set_option (F h). fr_point f = AtFinal)"

definition task_await_suspend :: "handle \<Rightarrow> handle \<Rightarrow> ('v, 'x) frames \<Rightarrow> co_error + (handle \<times> ('v, 'x) frames)" where
  "task_await_suspend h caller F =
     (case F h of None \<Rightarrow> Inl DanglingHandle | Some f \<Rightarrow> Inr (h, F(h \<mapsto> f\<lparr>fr_cont := caller\<rparr>)))"

definition task_await_resume :: "handle \<Rightarrow> ('v, 'x) frames \<Rightarrow> co_error + ('x + 'v)" where
  "task_await_resume h F =
     (case F h of None \<Rightarrow> Inl DanglingHandle
      | Some f \<Rightarrow> (case fr_result f of
          NotDone \<Rightarrow> Inl BadVariant | HasException x \<Rightarrow> Inr (Inl x) | HasValue v \<Rightarrow> Inr (Inr v)))"

text \<open>\<open>Task<void>\<close> keeps an exception pointer instead of the variant: null until an exception is stored.\<close>

record 'x void_promise =
  vp_exception :: "'x option"
  vp_continuation :: handle

definition void_promise_new :: "'x void_promise" where
  "void_promise_new = \<lparr>vp_exception = None, vp_continuation = 0\<rparr>"

definition return_void :: "'x void_promise \<Rightarrow> 'x void_promise" where
  "return_void pr = pr"

definition void_unhandled_exception :: "'x \<Rightarrow> 'x void_promise \<Rightarrow> 'x void_promise" where
  "void_unhandled_exception x pr = pr\<lparr>vp_exception := Some x\<rparr>"

definition void_await_suspend :: "handle \<Rightarrow> 'x void_promise \<Rightarrow> 'x void_promise" where
  "void_await_suspend caller pr = pr\<lparr>vp_continuation := caller\<rparr>"

definition void_await_resume :: "'x void_promise \<Rightarrow> 'x + unit" where
  "void_await_resume pr = (case vp_exception pr of Some x \<Rightarrow> Inl x | None \<Rightarrow> Inr ())"

text \<open>After the body has ended both forms hand the same outcome to the awaiting coroutine.\<close>

lemma void_outcome:
  "F h = Some (return_value () f) \<Longrightarrow> task_await_resume h F = Inr (void_await_resume (return_void void_promise_new))"
  "F h = Some (unhandled_exception x f) \<Longrightarrow> task_await_resume h F = Inr (void_await_resume (void_unhandled_exception x pr))"
  by (simp_all add: task_await_resume_def return_value_def unhandled_exception_def void_await_resume_def
      return_void_def void_promise_new_def void_unhandled_exception_def)

text \<open>
  \<open>coroutine_handle::destroy\<close>: the locals and parameters of the frame go first, among them the
  task it waits for.  The fuel bounds the length of such a chain.
\<close>

fun frame_destroy :: "nat \<Rightarrow> handle \<Rightarrow> ('v, 'x) frames \<Rightarrow> co_error + ('v, 'x) frames" where
  "frame_destroy 0 h F = Inl OutOfFuel"
| "frame_destroy (Suc n) h F =
     (case F h of None \<Rightarrow> Inl DestroyedTwice
      | Some f \<Rightarrow> (case fr_point f of
          Running p \<Rightarrow> Inl DestroyedRunning
        | InAwait c k \<Rightarrow> rbind (frame_destroy n c F) (\<lambda>F'. Inr (F'(h := None)))
        | ShimAwait c \<Rightarrow> rbind (frame_destroy n c F) (\<lambda>F'. Inr (F'(h := None)))
        | _ \<Rightarrow> Inr (F(h := None))))"

text \<open>The \<open>Task\<close> object is a handle that may be null; moving leaves null behind.\<close>

definition task_destroy :: "nat \<Rightarrow> handle \<Rightarrow> ('v, 'x) frames \<Rightarrow> co_error + ('v, 'x) frames" where
  "task_destroy n h F = (if h \<noteq> 0 then frame_destroy n h F else Inr F)"

definition task_move :: "handle \<Rightarrow> handle \<times> handle" where
  "task_move other = (other, 0)"

definition task_release :: "handle \<Rightarrow> handle \<times> handle" where
  "task_release self = (self, 0)"

definition task_move_assign :: "nat \<Rightarrow> bool \<Rightarrow> handle \<Rightarrow> handle \<Rightarrow> ('v, 'x) frames
    \<Rightarrow> co_error + (handle \<times> handle \<times> ('v, 'x) frames)" where
  "task_move_assign n same self other F =
     (if same then Inr (self, other, F)
      else rbind (task_destroy n self F) (\<lambda>F'. Inr (other, 0, F')))"

section \<open>The machine\<close>

text \<open>
  \<open>co_stack\<close>: the running coroutine first, below it those whose call of \<open>spawn\<close> has not returned.
\<close>

record ('v, 'x) machine =
  co_frames :: "('v, 'x) frames"
  co_stack :: "handle list"
  co_next :: handle                        \<comment> \<open>the next fresh handle\<close>
  co_requests :: "(handle \<times> nat) list"     \<comment> \<open>history: I/O requests made\<close>
  co_aborted :: bool

definition machine_new :: "('v, 'x) machine" where
  "machine_new = \<lparr>co_frames = Map.empty, co_stack = [], co_next = 1, co_requests = [], co_aborted = False\<rparr>"

text \<open>Calling a coroutine function that returns a \<open>Task\<close>.\<close>

definition call_task :: "('v, 'x) prog \<Rightarrow> ('v, 'x) machine \<Rightarrow> handle \<times> ('v, 'x) machine" where
  "call_task p m = (co_next m, m\<lparr>co_frames := (co_frames m)(co_next m \<mapsto> promise_new p), co_next := Suc (co_next m)\<rparr>)"

text \<open>
  Resuming \<open>h\<close>, by a call or a symmetric transfer, on top of the stack of \<open>m\<close>.  When the awaited
  task hands over its outcome the temporary task object is destroyed; the shell of \<open>spawn\<close> ends and
  destroys itself with its task, or, with an exception, logs it and aborts.
\<close>

definition resume :: "handle \<Rightarrow> ('v, 'x) machine \<Rightarrow> co_error + ('v, 'x) machine" where
  "resume h m =
     (if h = 0 then Inr m else
      case co_frames m h of None \<Rightarrow> Inl DanglingHandle
      | Some f \<Rightarrow> (case fr_point f of
          AtStart p \<Rightarrow> Inr (m\<lparr>co_frames := (co_frames m)(h \<mapsto> f\<lparr>fr_point := Running p\<rparr>), co_stack := h # co_stack m\<rparr>)
        | Running p \<Rightarrow> Inl ResumedRunning
        | AtFinal \<Rightarrow> Inl ResumedDone
        | InIo k \<Rightarrow> Inl NotCompleted
        | InAwait c k \<Rightarrow> rbind (task_await_resume c (co_frames m)) (\<lambda>r.
            rbind (task_destroy (co_next m) c (co_frames m)) (\<lambda>F.
              Inr (m\<lparr>co_frames := F(h \<mapsto> f\<lparr>fr_point := Running (k r)\<rparr>), co_stack := h # co_stack m\<rparr>)))
        | ShimAwait c \<Rightarrow> rbind (task_await_resume c (co_frames m)) (\<lambda>r. case r of
              Inl x \<Rightarrow> Inr (m\<lparr>co_aborted := True\<rparr>)
            | Inr v \<Rightarrow> rbind (frame_destroy (co_next m) h (co_frames m)) (\<lambda>F. Inr (m\<lparr>co_frames := F\<rparr>)))))"

text \<open>A completed I/O operation: the scheduler resumes the coroutine with the result.\<close>

definition resume_io :: "handle \<Rightarrow> int \<Rightarrow> ('v, 'x) machine \<Rightarrow> co_error + ('v, 'x) machine" where
  "resume_io h r m =
     (case co_frames m h of None \<Rightarrow> Inl DanglingHandle
      | Some f \<Rightarrow> (case fr_point f of
          InIo k \<Rightarrow> Inr (m\<lparr>co_frames := (co_frames m)(h \<mapsto> f\<lparr>fr_point := Running (k r)\<rparr>), co_stack := h # co_stack m\<rparr>)
        | _ \<Rightarrow> Inl NotCompleted))"

text \<open>\<open>co_await\<close> of the task \<open>t\<close> in the coroutine \<open>caller\<close>, whose frame is set to \<open>pt\<close> meanwhile.\<close>

definition await_task :: "handle \<Rightarrow> handle \<Rightarrow> ('v, 'x) point \<Rightarrow> ('v, 'x) machine \<Rightarrow> co_error + ('v, 'x) machine" where
  "await_task t caller pt m =
     (case co_frames m caller of None \<Rightarrow> Inl DanglingHandle
      | Some f \<Rightarrow>
          (let m1 = m\<lparr>co_frames := (co_frames m)(caller \<mapsto> f\<lparr>fr_point := pt\<rparr>)\<rparr> in
           if task_await_ready t (co_frames m1) then resume caller m1
           else rbind (task_await_suspend t caller (co_frames m1)) (\<lambda>(next, F). resume next (m1\<lparr>co_frames := F\<rparr>))))"

text \<open>\<open>spawn_shim(t)\<close> starts at once on top of the stack and awaits its parameter.\<close>

definition spawn :: "handle \<Rightarrow> ('v, 'x) machine \<Rightarrow> co_error + ('v, 'x) machine" where
  "spawn t m =
     (let s = co_next m;
          shim = \<lparr>fr_point = ShimAwait t, fr_result = NotDone, fr_cont = 0\<rparr>
      in await_task t s (ShimAwait t) (m\<lparr>co_frames := (co_frames m)(s \<mapsto> shim), co_next := Suc s\<rparr>))"

text \<open>The end of a body: \<open>final_suspend\<close> transfers to the continuation.\<close>

definition finish :: "handle \<Rightarrow> ('v, 'x) frame \<Rightarrow> ('v, 'x) machine \<Rightarrow> co_error + ('v, 'x) machine" where
  "finish h f m =
     (let g = f\<lparr>fr_point := AtFinal\<rparr>
      in resume (final_await_suspend g) (m\<lparr>co_frames := (co_frames m)(h \<mapsto> g)\<rparr>))"

text \<open>The next action of the running coroutine; \<open>m\<close> has the stack below it.\<close>

fun exec_prog :: "handle \<Rightarrow> ('v, 'x) frame \<Rightarrow> ('v, 'x) prog \<Rightarrow> ('v, 'x) machine \<Rightarrow> co_error + ('v, 'x) machine" where
  "exec_prog h f (Return v) m = finish h (return_value v f) m"
| "exec_prog h f (Throw x) m = finish h (unhandled_exception x f) m"
| "exec_prog h f (AwaitTask p k) m = (let (t, m1) = call_task p m in await_task t h (InAwait t k) m1)"
| "exec_prog h f (AwaitIo r k) m =
     Inr (m\<lparr>co_frames := (co_frames m)(h \<mapsto> f\<lparr>fr_point := InIo k\<rparr>), co_requests := co_requests m @ [(h, r)]\<rparr>)"
| "exec_prog h f (Spawn p q) m =
     (let (t, m1) = call_task p m
      in spawn t (m1\<lparr>co_frames := (co_frames m1)(h \<mapsto> f\<lparr>fr_point := Running q\<rparr>), co_stack := h # co_stack m1\<rparr>))"
| "exec_prog h f (DropTask p q) m =
     (let (t, m1) = call_task p m
      in rbind (task_destroy (co_next m1) t (co_frames m1)) (\<lambda>F.
           Inr (m1\<lparr>co_frames := F(h \<mapsto> f\<lparr>fr_point := Running q\<rparr>), co_stack := h # co_stack m1\<rparr>)))"

definition exec :: "('v, 'x) machine \<Rightarrow> co_error + ('v, 'x) machine" where
  "exec m =
     (case co_stack m of [] \<Rightarrow> Inl NothingRuns
      | h # st \<Rightarrow> (case co_frames m h of None \<Rightarrow> Inl DanglingHandle
          | Some f \<Rightarrow> (case fr_point f of
              Running p \<Rightarrow> exec_prog h f p (m\<lparr>co_stack := st\<rparr>)
            | _ \<Rightarrow> Inl NothingRuns)))"

text \<open>The event loop between two actions of a coroutine.\<close>

inductive co_step :: "('v, 'x) machine \<Rightarrow> ('v, 'x) machine \<Rightarrow> bool" where
  co_exec: "\<not> co_aborted m \<Longrightarrow> exec m = Inr m' \<Longrightarrow> co_step m m'"
| co_spawn: "\<not> co_aborted m \<Longrightarrow> co_stack m = [] \<Longrightarrow> call_task p m = (t, m1) \<Longrightarrow> spawn t m1 = Inr m' \<Longrightarrow> co_step m m'"
| co_complete: "\<not> co_aborted m \<Longrightarrow> co_stack m = [] \<Longrightarrow> resume_io h r m = Inr m' \<Longrightarrow> co_step m m'"

definition co_reach :: "('v, 'x) machine \<Rightarrow> bool" where
  "co_reach m \<longleftrightarrow> co_step\<^sup>*\<^sup>* machine_new m"

text \<open>
  What is logged when an exception leaves the shell: the line depends on the kind of the exception in
  flight, if any.  The fatal line aborts when it is finished, \<open>std::terminate\<close> follows otherwise.
\<close>

datatype caught = StdException string | OtherException

definition uncaught_line :: "caught \<Rightarrow> string" where
  "uncaught_line x = (case x of
     StdException what \<Rightarrow> ''FireAndForget uncaught exception: '' @ what
   | OtherException \<Rightarrow> ''FireAndForget uncaught exception: (unknown)'')"

definition log_fire_and_forget_uncaught :: "caught option \<Rightarrow> ('v, 'x) machine \<Rightarrow> string option \<times> ('v, 'x) machine" where
  "log_fire_and_forget_uncaught ep m = (map_option uncaught_line ep, m\<lparr>co_aborted := True\<rparr>)"

section \<open>Invariant\<close>

text \<open>
  Every frame is on the stack, waits for I/O or waits for a task whose continuation it is; every
  frame but the shells of \<open>spawn\<close> has exactly one frame that waits for it.
\<close>

definition waits_on :: "('v, 'x) frames \<Rightarrow> handle \<Rightarrow> handle \<Rightarrow> bool" where
  "waits_on F g h \<longleftrightarrow> (\<exists>f. F g = Some f \<and> (fr_point f = ShimAwait h \<or> (\<exists>k. fr_point f = InAwait h k)))"

fun is_shim :: "('v, 'x) point \<Rightarrow> bool" where
  "is_shim (ShimAwait c) = True"
| "is_shim _ = False"

fun is_running :: "('v, 'x) point \<Rightarrow> bool" where
  "is_running (Running p) = True"
| "is_running _ = False"

fun settled :: "('v, 'x) point \<Rightarrow> bool" where
  "settled (AtStart p) = False"
| "settled AtFinal = False"
| "settled _ = True"

definition co_ok :: "('v, 'x) frames \<Rightarrow> handle list \<Rightarrow> handle \<Rightarrow> bool" where
  "co_ok F st nx \<longleftrightarrow> 0 < nx \<and> distinct st
     \<and> (\<forall>h f. F h = Some f \<longrightarrow> 0 < h \<and> h < nx \<and> settled (fr_point f) \<and> (is_running (fr_point f) \<longleftrightarrow> h \<in> set st)
          \<and> (is_shim (fr_point f) \<or> waits_on F (fr_cont f) h))
     \<and> set st \<subseteq> dom F
     \<and> (\<forall>g h. waits_on F g h \<longrightarrow> (\<exists>f. F h = Some f \<and> fr_cont f = g \<and> \<not> is_shim (fr_point f)))"

definition co_inv :: "('v, 'x) machine \<Rightarrow> bool" where
  "co_inv m \<longleftrightarrow> co_aborted m \<or> co_ok (co_frames m) (co_stack m) (co_next m)"

lemma co_okD:
  assumes "co_ok F st nx"
  shows "0 < nx" "distinct st" "F h = Some f \<Longrightarrow> 0 < h" "F h = Some f \<Longrightarrow> h < nx"
    "F h = Some f \<Longrightarrow> settled (fr_point f)" "F h = Some f \<Longrightarrow> is_running (fr_point f) \<longleftrightarrow> h \<in> set st"
    "F h = Some f \<Longrightarrow> \<not> is_shim (fr_point f) \<Longrightarrow> waits_on F (fr_cont f) h"
    "h \<in> set st \<Longrightarrow> \<exists>f p. F h = Some f \<and> fr_point f = Running p"
    "waits_on F g h \<Longrightarrow> \<exists>f. F h = Some f \<and> fr_cont f = g \<and> \<not> is_shim (fr_point f)"
proof -
  show "h \<in> set st \<Longrightarrow> \<exists>f p. F h = Some f \<and> fr_point f = Running p"
    using assms unfolding co_ok_def by (metis domD is_running.elims(2) subsetD)
qed (use assms in \<open>auto simp: co_ok_def\<close>)

lemma co_okI:
  assumes "0 < nx" "distinct st"
    and "\<And>h f. F h = Some f \<Longrightarrow> 0 < h \<and> h < nx \<and> settled (fr_point f) \<and> (is_running (fr_point f) \<longleftrightarrow> h \<in> set st)"
    and "\<And>h f. F h = Some f \<Longrightarrow> \<not> is_shim (fr_point f) \<Longrightarrow> waits_on F (fr_cont f) h"
    and "set st \<subseteq> dom F"
    and "\<And>g h. waits_on F g h \<Longrightarrow> \<exists>f. F h = Some f \<and> fr_cont f = g \<and> \<not> is_shim (fr_point f)"
  shows "co_ok F st nx"
  using assms unfolding co_ok_def by blast

lemma co_ok_fresh: "co_ok F st nx \<Longrightarrow> nx \<le> h \<Longrightarrow> F h = None \<and> h \<notin> set st"
  using co_okD(4,8) by (metis leD not_Some_eq)

lemma co_ok_mono: "co_ok F st nx \<Longrightarrow> nx \<le> nx' \<Longrightarrow> co_ok F st nx'"
  unfolding co_ok_def by (meson less_le_trans)

text \<open>The frame at the top of the stack changes only its own point: waiting is not affected.\<close>

lemma waits_on_upd: "waits_on (F(h \<mapsto> f)) g c \<longleftrightarrow>
    (if g = h then fr_point f = ShimAwait c \<or> (\<exists>k. fr_point f = InAwait c k) else waits_on F g c)"
  by (auto simp: waits_on_def)

lemma waits_on_del: "waits_on (F(h := None)) g c \<longleftrightarrow> g \<noteq> h \<and> waits_on F g c"
  by (auto simp: waits_on_def)

lemma running_waits_not: "F h = Some f \<Longrightarrow> is_running (fr_point f) \<Longrightarrow> \<not> waits_on F h c"
  by (auto simp: waits_on_def)

lemma co_ok_set_point:
  assumes ok: "co_ok F st nx" and h: "F h = Some f"
    and old: "\<And>c. fr_point f \<noteq> ShimAwait c" "\<And>c k. fr_point f \<noteq> InAwait c k"
    and new: "\<And>c. pt \<noteq> ShimAwait c" "\<And>c k. pt \<noteq> InAwait c k" "settled pt"
    and st: "distinct st'" "set st' = (if is_running pt then insert h (set st) else set st - {h})"
  shows "co_ok (F(h \<mapsto> f\<lparr>fr_point := pt\<rparr>)) st' nx"
proof (rule co_okI)
  have w: "waits_on (F(h \<mapsto> f\<lparr>fr_point := pt\<rparr>)) g c \<longleftrightarrow> waits_on F g c" for g c
    using old new h by (auto simp: waits_on_def)
  have ns: "\<not> is_shim pt" "\<not> is_shim (fr_point f)" using new(1) old(1) by (cases pt; auto; cases "fr_point f"; auto)+
  show "0 < nx" "distinct st'" using co_okD(1) [OF ok] st by auto
  show "0 < g \<and> g < nx \<and> settled (fr_point e) \<and> (is_running (fr_point e) \<longleftrightarrow> g \<in> set st')"
    if "(F(h \<mapsto> f\<lparr>fr_point := pt\<rparr>)) g = Some e" for g e
    using that co_okD(3-6) [OF ok] h new(3) st(2) by (auto split: if_splits)
  show "waits_on (F(h \<mapsto> f\<lparr>fr_point := pt\<rparr>)) (fr_cont e) g"
    if "(F(h \<mapsto> f\<lparr>fr_point := pt\<rparr>)) g = Some e" "\<not> is_shim (fr_point e)" for g e
    unfolding w using that co_okD(7) [OF ok] h ns by (auto split: if_splits)
  show "set st' \<subseteq> dom (F(h \<mapsto> f\<lparr>fr_point := pt\<rparr>))" using ok st(2) by (auto simp: co_ok_def split: if_splits)
  show "\<exists>e. (F(h \<mapsto> f\<lparr>fr_point := pt\<rparr>)) c = Some e \<and> fr_cont e = g \<and> \<not> is_shim (fr_point e)"
    if "waits_on (F(h \<mapsto> f\<lparr>fr_point := pt\<rparr>)) g c" for g c
    using co_okD(9) [OF ok that [unfolded w]] h ns by auto
qed

definition child_frame :: "('v, 'x) prog \<Rightarrow> handle \<Rightarrow> ('v, 'x) frame" where
  "child_frame p g = \<lparr>fr_point = Running p, fr_result = NotDone, fr_cont = g\<rparr>"

definition shim_frame :: "handle \<Rightarrow> ('v, 'x) frame" where
  "shim_frame t = \<lparr>fr_point = ShimAwait t, fr_result = NotDone, fr_cont = 0\<rparr>"

lemma child_frame_simps [simp]:
  "fr_point (child_frame p g) = Running p" "fr_cont (child_frame p g) = g"
  "fr_point (shim_frame t) = ShimAwait t" "fr_cont (shim_frame t) = 0"
  by (simp_all add: child_frame_def shim_frame_def)

text \<open>A running coroutine awaits a new task, which takes its place on the stack.\<close>

lemma co_ok_await:
  assumes ok: "co_ok F (h # st) nx" and h: "F h = Some f" "is_running (fr_point f)"
  shows "co_ok (F(h \<mapsto> f\<lparr>fr_point := InAwait nx k\<rparr>, nx \<mapsto> child_frame p h)) (nx # st) (Suc nx)" (is "co_ok ?F _ _")
proof (rule co_okI)
  have nx: "F nx = None" "nx \<notin> set (h # st)" using co_ok_fresh [OF ok, of nx] by auto
  then have hn: "h \<noteq> nx" using h(1) by auto
  have nw: "\<not> waits_on F g nx" for g using co_okD(9) [OF ok, of g nx] nx(1) by auto
  have nh: "\<not> waits_on F h c" for c using running_waits_not [of F h f] h by blast
  have w: "waits_on ?F g c \<longleftrightarrow> (if g = h then c = nx else waits_on F g c)" for g c
    using hn nx(1) by (auto simp: waits_on_def)
  show "0 < Suc nx" by simp
  show "distinct (nx # st)" using co_okD(2) [OF ok] nx(2) by simp
  show "0 < g \<and> g < Suc nx \<and> settled (fr_point e) \<and> (is_running (fr_point e) \<longleftrightarrow> g \<in> set (nx # st))"
    if "?F g = Some e" for g e
    using that co_okD(1-6) [OF ok] h by (auto split: if_splits intro: less_SucI)
  show "waits_on ?F (fr_cont e) g" if "?F g = Some e" "\<not> is_shim (fr_point e)" for g e
  proof -
    consider "g = nx" "e = child_frame p h" | "g = h" "g \<noteq> nx" "e = f\<lparr>fr_point := InAwait nx k\<rparr>"
      | "g \<noteq> nx" "g \<noteq> h" "F g = Some e" using \<open>?F g = Some e\<close> by (auto split: if_splits)
    then show ?thesis
    proof cases
      case 1
      then show ?thesis by (simp add: w)
    next
      case 2
      have "\<not> is_shim (fr_point f)" using h(2) by (cases "fr_point f") auto
      then have "waits_on F (fr_cont f) h" by (rule co_okD(7) [OF ok h(1)])
      with 2 nh show ?thesis by (auto simp: w)
    next
      case 3
      with co_okD(7) [OF ok 3(3)] that(2) nh show ?thesis by (auto simp: w)
    qed
  qed
  show "set (nx # st) \<subseteq> dom ?F" using ok by (auto simp: co_ok_def)
  show "\<exists>e. ?F c = Some e \<and> fr_cont e = g \<and> \<not> is_shim (fr_point e)" if "waits_on ?F g c" for g c
  proof (cases "g = h")
    case True
    then show ?thesis using that by (simp add: w)
  next
    case False
    then have "waits_on F g c" using that by (simp add: w)
    with co_okD(9) [OF ok this] nw [of g] False h show ?thesis by auto
  qed
qed

text \<open>\<open>spawn\<close> adds a shell and the task it awaits.\<close>

lemma co_ok_spawn:
  assumes ok: "co_ok F st nx"
  shows "co_ok (F(nx \<mapsto> child_frame p (Suc nx), Suc nx \<mapsto> shim_frame nx)) (nx # st) (Suc (Suc nx))" (is "co_ok ?F _ _")
proof (rule co_okI)
  have nx: "F nx = None" "F (Suc nx) = None" "nx \<notin> set st" "Suc nx \<notin> set st"
    using co_ok_fresh [OF ok] by auto
  have nw: "\<not> waits_on F g nx" "\<not> waits_on F g (Suc nx)" "\<not> waits_on F nx g" "\<not> waits_on F (Suc nx) g" for g
    using co_okD(9) [OF ok, of g] nx by (auto simp: waits_on_def)
  have w: "waits_on ?F g c \<longleftrightarrow> (if g = Suc nx then c = nx else waits_on F g c)" for g c
    using nx by (auto simp: waits_on_def)
  show "0 < Suc (Suc nx)" by simp
  show "distinct (nx # st)" using co_okD(2) [OF ok] nx(3) by simp
  show "0 < g \<and> g < Suc (Suc nx) \<and> settled (fr_point e) \<and> (is_running (fr_point e) \<longleftrightarrow> g \<in> set (nx # st))"
    if "?F g = Some e" for g e
    using that co_okD(1-6) [OF ok] nx by (auto split: if_splits intro!: less_SucI)
  show "waits_on ?F (fr_cont e) g" if "?F g = Some e" "\<not> is_shim (fr_point e)" for g e
  proof (cases "g = nx \<or> g = Suc nx")
    case True
    then show ?thesis using that by (auto simp: w split: if_splits)
  next
    case False
    with co_okD(7) [OF ok _ that(2)] that(1) nw show ?thesis by (auto simp: w split: if_splits)
  qed
  show "set (nx # st) \<subseteq> dom ?F" using ok by (auto simp: co_ok_def)
  show "\<exists>e. ?F c = Some e \<and> fr_cont e = g \<and> \<not> is_shim (fr_point e)" if "waits_on ?F g c" for g c
    using that co_okD(9) [OF ok, of g c] nw by (auto simp: w split: if_splits)
qed

text \<open>A task is done: its frame goes and the waiting coroutine runs, or the shell goes as well.\<close>

lemma co_ok_child_done:
  assumes ok: "co_ok F (h # st) nx" and h: "F h = Some f" and g: "F g = Some e" "fr_point e = InAwait h k"
  shows "co_ok (F(h := None, g \<mapsto> e\<lparr>fr_point := Running q\<rparr>)) (g # st) nx" (is "co_ok ?F _ _")
proof (rule co_okI)
  have wg: "waits_on F g h" using g by (auto simp: waits_on_def)
  have cont: "c = g" if "waits_on F c h" for c using co_okD(9) [OF ok that] co_okD(9) [OF ok wg] by auto
  have run: "is_running (fr_point f)" using co_okD(6) [OF ok h] by simp
  have gh: "g \<noteq> h" using g run h by auto
  have gst: "g \<notin> set (h # st)" using co_okD(6) [OF ok g(1)] g(2) by simp
  have w: "waits_on ?F d c \<longleftrightarrow> d \<noteq> g \<and> waits_on F d c" for d c
    using gh running_waits_not [of F h f] h run by (auto simp: waits_on_def)
  have only: "c = h" if "waits_on F g c" for c using that g by (auto simp: waits_on_def)
  show "0 < nx" by (rule co_okD(1) [OF ok])
  show "distinct (g # st)" using co_okD(2) [OF ok] gst by simp
  show "0 < d \<and> d < nx \<and> settled (fr_point c) \<and> (is_running (fr_point c) \<longleftrightarrow> d \<in> set (g # st))"
    if "?F d = Some c" for d c
    using that co_okD(2-6) [OF ok] g by (auto split: if_splits)
  show "waits_on ?F (fr_cont c) d" if "?F d = Some c" "\<not> is_shim (fr_point c)" for d c
  proof (cases "d = g")
    case True
    have "waits_on F (fr_cont e) g" using co_okD(7) [OF ok g(1)] g(2) by simp
    moreover have "fr_cont e \<noteq> g" using only [of g] calculation gh by auto
    moreover have "fr_cont c = fr_cont e" using that(1) True by auto
    ultimately show ?thesis using True by (simp only: w simp_thms)
  next
    case False
    then have "F d = Some c" "d \<noteq> h" using that(1) by (auto split: if_splits)
    with co_okD(7) [OF ok this(1) that(2)] only [of d] show ?thesis by (auto simp: w)
  qed
  show "set (g # st) \<subseteq> dom ?F" using ok co_okD(2) [OF ok] by (auto simp: co_ok_def)
  show "\<exists>x. ?F c = Some x \<and> fr_cont x = d \<and> \<not> is_shim (fr_point x)" if "waits_on ?F d c" for d c
  proof -
    have d: "d \<noteq> g" "waits_on F d c" using that by (simp_all add: w)
    then obtain x where x: "F c = Some x" "fr_cont x = d" "\<not> is_shim (fr_point x)" using co_okD(9) [OF ok] by blast
    moreover have "c \<noteq> h" using cont d by auto
    ultimately show ?thesis using g by auto
  qed
qed

lemma co_ok_shim_done:
  assumes ok: "co_ok F (h # st) nx" and h: "F h = Some f" and g: "F g = Some e" "fr_point e = ShimAwait h"
  shows "co_ok (F(h := None, g := None)) st nx" (is "co_ok ?F _ _")
proof (rule co_okI)
  have wg: "waits_on F g h" using g by (auto simp: waits_on_def)
  have cont: "c = g" if "waits_on F c h" for c using co_okD(9) [OF ok that] co_okD(9) [OF ok wg] by auto
  have run: "is_running (fr_point f)" using co_okD(6) [OF ok h] by simp
  have w: "waits_on ?F d c \<longleftrightarrow> d \<noteq> g \<and> waits_on F d c" for d c
    using running_waits_not [of F h f] h run by (auto simp: waits_on_def)
  have only: "c = h" if "waits_on F g c" for c using that g by (auto simp: waits_on_def)
  have nog: "\<not> waits_on F d g" for d using co_okD(9) [OF ok, of d g] g by auto
  have gst: "g \<notin> set st" using co_okD(6) [OF ok g(1)] g(2) by auto
  show "0 < nx" by (rule co_okD(1) [OF ok])
  show "distinct st" using co_okD(2) [OF ok] by simp
  show "0 < d \<and> d < nx \<and> settled (fr_point c) \<and> (is_running (fr_point c) \<longleftrightarrow> d \<in> set st)" if "?F d = Some c" for d c
    using that co_okD(2-6) [OF ok] by (auto split: if_splits)
  show "waits_on ?F (fr_cont c) d" if "?F d = Some c" "\<not> is_shim (fr_point c)" for d c
  proof -
    have d: "F d = Some c" "d \<noteq> h" "d \<noteq> g" using that(1) by (auto split: if_splits)
    with co_okD(7) [OF ok d(1) that(2)] only [of d] show ?thesis by (auto simp: w)
  qed
  show "set st \<subseteq> dom ?F" using ok co_okD(2) [OF ok] gst by (auto simp: co_ok_def)
  show "\<exists>x. ?F c = Some x \<and> fr_cont x = d \<and> \<not> is_shim (fr_point x)" if "waits_on ?F d c" for d c
  proof -
    have d: "d \<noteq> g" "waits_on F d c" using that by (simp_all add: w)
    then obtain x where x: "F c = Some x" "fr_cont x = d" "\<not> is_shim (fr_point x)" using co_okD(9) [OF ok] by blast
    moreover have "c \<noteq> h" "c \<noteq> g" using cont d nog by auto
    ultimately show ?thesis by auto
  qed
qed

section \<open>What each action does\<close>

fun outcome :: "('v, 'x) promise_result \<Rightarrow> ('x + 'v) option" where
  "outcome NotDone = None"
| "outcome (HasValue v) = Some (Inr v)"
| "outcome (HasException x) = Some (Inl x)"

lemma task_await_resume_outcome:
  "F h = Some f \<Longrightarrow> outcome (fr_result f) = Some r \<Longrightarrow> task_await_resume h F = Inr r"
  by (cases "fr_result f") (auto simp: task_await_resume_def)

lemma finish_await:
  assumes "co_frames m g = Some e" and "fr_point e = InAwait h k" and "g \<noteq> h" and "0 < g" and "0 < h" and "0 < co_next m"
    and "fr_cont f = g" and "outcome (fr_result f) = Some r"
  shows "finish h f m = Inr (m\<lparr>co_frames := (co_frames m)(h := None, g \<mapsto> e\<lparr>fr_point := Running (k r)\<rparr>),
      co_stack := g # co_stack m\<rparr>)"
proof -
  define F where "F = (co_frames m)(h \<mapsto> f\<lparr>fr_point := AtFinal\<rparr>)"
  have F: "F g = Some e" "F(h := None) = (co_frames m)(h := None)" "F h = Some (f\<lparr>fr_point := AtFinal\<rparr>)"
    using assms(1,3) by (auto simp: F_def)
  obtain n where n: "co_next m = Suc n" using assms(6) by (cases "co_next m") auto
  have r: "task_await_resume h F = Inr r" using task_await_resume_outcome [of F h "f\<lparr>fr_point := AtFinal\<rparr>" r] F(3) assms by simp
  have d: "task_destroy (co_next m) h F = Inr ((co_frames m)(h := None))"
    using assms(5) F by (simp add: task_destroy_def n)
  have "finish h f m = resume g (m\<lparr>co_frames := F\<rparr>)" using assms(7) by (simp add: finish_def Let_def final_await_suspend_def F_def)
  also have "\<dots> = Inr (m\<lparr>co_frames := (co_frames m)(h := None, g \<mapsto> e\<lparr>fr_point := Running (k r)\<rparr>), co_stack := g # co_stack m\<rparr>)"
    using F(1) assms(2,4) by (simp add: resume_def r d)
  finally show ?thesis .
qed

lemma finish_shim:
  assumes "co_frames m g = Some e" and "fr_point e = ShimAwait h" and "g \<noteq> h" and "0 < g" and "1 < co_next m"
    and "fr_cont f = g" and "outcome (fr_result f) = Some r"
  shows "finish h f m = Inr (case r of
      Inr v \<Rightarrow> m\<lparr>co_frames := (co_frames m)(h := None, g := None)\<rparr>
    | Inl x \<Rightarrow> m\<lparr>co_frames := (co_frames m)(h \<mapsto> f\<lparr>fr_point := AtFinal\<rparr>), co_aborted := True\<rparr>)"
proof -
  define F where "F = (co_frames m)(h \<mapsto> f\<lparr>fr_point := AtFinal\<rparr>)"
  have F: "F g = Some e" "F(h := None, g := None) = (co_frames m)(h := None, g := None)"
      "F h = Some (f\<lparr>fr_point := AtFinal\<rparr>)"
    using assms(1,3) by (auto simp: F_def)
  obtain n where n: "co_next m = Suc (Suc n)" using assms(5) less_imp_Suc_add [of 1 "co_next m"] by auto
  have r: "task_await_resume h F = Inr r" using task_await_resume_outcome [of F h "f\<lparr>fr_point := AtFinal\<rparr>" r] F(3) assms by simp
  have d: "frame_destroy (co_next m) g F = Inr ((co_frames m)(h := None, g := None))"
    using assms(2) F by (simp add: n)
  have fin: "finish h f m = resume g (m\<lparr>co_frames := F\<rparr>)" using assms(6) by (simp add: finish_def Let_def final_await_suspend_def F_def)
  show ?thesis
  proof (cases r)
    case (Inl x)
    have "resume g (m\<lparr>co_frames := F\<rparr>) = Inr (m\<lparr>co_frames := F, co_aborted := True\<rparr>)"
      using F(1) assms(2,4) r by (simp add: resume_def Inl)
    then show ?thesis by (simp only: fin Inl F_def sum.case)
  next
    case (Inr v)
    have "resume g (m\<lparr>co_frames := F\<rparr>) = Inr (m\<lparr>co_frames := (co_frames m)(h := None, g := None)\<rparr>)"
      using F(1) assms(2,4) r d by (simp add: resume_def Inr)
    then show ?thesis by (simp only: fin Inr sum.case)
  qed
qed

lemma exec_await:
  assumes "co_frames m h = Some f" and "h < co_next m"
  shows "exec_prog h f (AwaitTask p k) m = Inr (m\<lparr>co_frames := (co_frames m)
      (h \<mapsto> f\<lparr>fr_point := InAwait (co_next m) k\<rparr>, co_next m \<mapsto> child_frame p h),
      co_stack := co_next m # co_stack m, co_next := Suc (co_next m)\<rparr>)"
  using assms by (simp add: call_task_def await_task_def Let_def task_await_ready_def task_await_suspend_def
      promise_new_def resume_def child_frame_def fun_upd_twist)

lemma spawn_new:
  assumes "0 < co_next m"
  shows "spawn (co_next m) (snd (call_task p m)) = Inr (m\<lparr>co_frames := (co_frames m)
      (co_next m \<mapsto> child_frame p (Suc (co_next m)), Suc (co_next m) \<mapsto> shim_frame (co_next m)),
      co_stack := co_next m # co_stack m, co_next := Suc (Suc (co_next m))\<rparr>)"
  using assms by (simp add: spawn_def call_task_def await_task_def Let_def task_await_ready_def task_await_suspend_def
      promise_new_def resume_def child_frame_def shim_frame_def fun_upd_twist)

lemma exec_spawn:
  assumes "h < co_next m"
  shows "exec_prog h f (Spawn p q) m = Inr (m\<lparr>co_frames := (co_frames m)(h \<mapsto> f\<lparr>fr_point := Running q\<rparr>,
      co_next m \<mapsto> child_frame p (Suc (co_next m)), Suc (co_next m) \<mapsto> shim_frame (co_next m)),
      co_stack := co_next m # h # co_stack m, co_next := Suc (Suc (co_next m))\<rparr>)"
proof -
  let ?m = "m\<lparr>co_frames := (co_frames m)(h \<mapsto> f\<lparr>fr_point := Running q\<rparr>), co_stack := h # co_stack m\<rparr>"
  have "(co_frames m)(co_next m \<mapsto> promise_new p, h \<mapsto> f\<lparr>fr_point := Running q\<rparr>)
      = (co_frames ?m)(co_next ?m \<mapsto> promise_new p)" using assms by (simp add: fun_upd_twist)
  then have "(snd (call_task p m))\<lparr>co_frames := (co_frames (snd (call_task p m)))(h \<mapsto> f\<lparr>fr_point := Running q\<rparr>),
      co_stack := h # co_stack (snd (call_task p m))\<rparr> = snd (call_task p ?m)"
    by (intro machine.equality) (simp_all add: call_task_def)
  then have "exec_prog h f (Spawn p q) m = spawn (co_next ?m) (snd (call_task p ?m))"
    by (simp add: call_task_def)
  also have "\<dots> = Inr (?m\<lparr>co_frames := (co_frames ?m)
      (co_next ?m \<mapsto> child_frame p (Suc (co_next ?m)), Suc (co_next ?m) \<mapsto> shim_frame (co_next ?m)),
      co_stack := co_next ?m # co_stack ?m, co_next := Suc (Suc (co_next ?m))\<rparr>)"
    by (rule spawn_new) (use assms in auto)
  finally show ?thesis by simp
qed

lemma exec_drop:
  assumes "co_frames m (co_next m) = None" and "0 < co_next m"
  shows "exec_prog h f (DropTask p q) m = Inr (m\<lparr>co_frames := (co_frames m)(h \<mapsto> f\<lparr>fr_point := Running q\<rparr>),
      co_stack := h # co_stack m, co_next := Suc (co_next m)\<rparr>)"
  using assms by (simp add: call_task_def task_destroy_def promise_new_def fun_upd_idem)

section \<open>Safety\<close>

text \<open>The frame that a finishing task transfers to.\<close>

lemma co_ok_parent:
  assumes ok: "co_ok F (h # st) nx" and h: "F h = Some f"
  obtains e where "F (fr_cont f) = Some e" "fr_cont f \<noteq> h" "0 < fr_cont f" "0 < h" "1 < nx"
    "fr_point e = ShimAwait h \<or> (\<exists>k. fr_point e = InAwait h k)"
proof -
  have run: "is_running (fr_point f)" using co_okD(6) [OF ok h] by simp
  then have "\<not> is_shim (fr_point f)" by (cases "fr_point f") auto
  then have w: "waits_on F (fr_cont f) h" by (rule co_okD(7) [OF ok h])
  then obtain e where e: "F (fr_cont f) = Some e" "fr_point e = ShimAwait h \<or> (\<exists>k. fr_point e = InAwait h k)"
    by (auto simp: waits_on_def)
  have "fr_cont f \<noteq> h" using w running_waits_not [of F h f h] h run by auto
  with e co_okD(3,4) [OF ok e(1)] co_okD(3,4) [OF ok h] show thesis by (intro that) auto
qed

text \<open>One action from a state with the invariant.\<close>

definition next_prog :: "('v, 'x) machine \<Rightarrow> ('v, 'x) prog option" where
  "next_prog m = (case co_stack m of [] \<Rightarrow> None
     | h # st \<Rightarrow> (case co_frames m h of Some f \<Rightarrow> (case fr_point f of Running p \<Rightarrow> Some p | _ \<Rightarrow> None) | None \<Rightarrow> None))"

fun is_spawn :: "('v, 'x) prog \<Rightarrow> bool" where
  "is_spawn (Spawn p q) = True"
| "is_spawn _ = False"

lemma finish_ok:
  assumes ok: "co_ok (co_frames m) (h # co_stack m) (co_next m)" and h: "co_frames m h = Some f0"
    and f: "fr_cont f = fr_cont f0" "outcome (fr_result f) = Some r"
  shows "\<exists>m'. finish h f m = Inr m' \<and> co_inv m' \<and> length (co_stack m') \<le> Suc (length (co_stack m))"
proof -
  obtain e where e: "co_frames m (fr_cont f) = Some e" "fr_cont f \<noteq> h" "0 < fr_cont f" "0 < h" "1 < co_next m"
      "fr_point e = ShimAwait h \<or> (\<exists>k. fr_point e = InAwait h k)"
    using co_ok_parent [OF ok h] f(1) by metis
  from e(6) show ?thesis
  proof
    assume s: "fr_point e = ShimAwait h"
    show ?thesis
      using finish_shim [OF e(1) s e(2,3,5) refl f(2)] co_ok_shim_done [OF ok h e(1) s]
      by (cases r) (auto simp: co_inv_def)
  next
    assume "\<exists>k. fr_point e = InAwait h k"
    then obtain k where k: "fr_point e = InAwait h k" by blast
    show ?thesis
      using finish_await [OF e(1) k e(2,3,4) _ refl f(2)] e(5) co_ok_child_done [OF ok h e(1) k]
      by (auto simp: co_inv_def)
  qed
qed

lemma exec_ok:
  assumes inv: "co_inv m" and "\<not> co_aborted m" and st: "co_stack m = h # st"
  shows "\<exists>m' p. exec m = Inr m' \<and> co_inv m' \<and> next_prog m = Some p
    \<and> length (co_stack m') \<le> length (co_stack m) + (if is_spawn p then 1 else 0)"
proof -
  have ok: "co_ok (co_frames m) (h # st) (co_next m)" using assms by (simp add: co_inv_def)
  obtain f p where h: "co_frames m h = Some f" "fr_point f = Running p" using co_okD(8) [OF ok, of h] by auto
  have hn: "h < co_next m" "0 < co_next m" "is_running (fr_point f)" using co_okD(1,4) [OF ok] h by auto
  let ?m = "m\<lparr>co_stack := st\<rparr>"
  have exec: "exec m = exec_prog h f p ?m" and np: "next_prog m = Some p" using h st by (simp_all add: exec_def next_prog_def)
  have fresh: "co_frames m (co_next m) = None" using co_ok_fresh [OF ok, of "co_next m"] by simp
  have set_run: "co_ok ((co_frames m)(h \<mapsto> f\<lparr>fr_point := Running q\<rparr>)) (h # st) (co_next m)" for q
    by (rule co_ok_set_point [OF ok h(1)]) (use h co_okD(2) [OF ok] in auto)
  have "\<exists>m'. exec_prog h f p ?m = Inr m' \<and> co_inv m'
      \<and> length (co_stack m') \<le> Suc (length st) + (if is_spawn p then 1 else 0)"
  proof (cases p)
    case (Return v)
    then show ?thesis using finish_ok [of ?m h f "return_value v f" "Inr v"] ok h by (simp add: return_value_def)
  next
    case (Throw x)
    then show ?thesis using finish_ok [of ?m h f "unhandled_exception x f" "Inl x"] ok h by (simp add: unhandled_exception_def)
  next
    case (AwaitTask q k)
    then show ?thesis using exec_await [of ?m h f q k] co_ok_await [OF ok h(1) hn(3), of k q] h hn
      by (simp add: co_inv_def)
  next
    case (AwaitIo r k)
    have "co_ok ((co_frames m)(h \<mapsto> f\<lparr>fr_point := InIo k\<rparr>)) st (co_next m)"
      by (rule co_ok_set_point [OF ok h(1)]) (use h co_okD(2) [OF ok] in auto)
    with AwaitIo show ?thesis by (simp add: co_inv_def)
  next
    case (Spawn q q')
    then show ?thesis using exec_spawn [of h ?m f q q'] co_ok_spawn [OF set_run] hn by (simp add: co_inv_def)
  next
    case (DropTask q q')
    then show ?thesis using exec_drop [of ?m h f q q'] co_ok_mono [OF set_run, of "Suc (co_next m)"] hn fresh
      by (simp add: co_inv_def)
  qed
  then show ?thesis using exec np st by auto
qed

lemma resume_io_ok:
  assumes "co_inv m" and "\<not> co_aborted m" and "co_stack m = []" and "co_frames m h = Some f" and "fr_point f = InIo k"
  shows "\<exists>m'. resume_io h r m = Inr m' \<and> co_inv m' \<and> co_stack m' = [h]"
proof -
  have "co_ok ((co_frames m)(h \<mapsto> f\<lparr>fr_point := Running (k r)\<rparr>)) [h] (co_next m)"
    by (rule co_ok_set_point [of _ "[]"]) (use assms in \<open>auto simp: co_inv_def\<close>)
  then show ?thesis using assms by (simp add: resume_io_def co_inv_def)
qed

lemma spawn_ok:
  assumes "co_inv m" and "\<not> co_aborted m" and "co_stack m = []" and "call_task p m = (t, m1)"
  shows "\<exists>m'. spawn t m1 = Inr m' \<and> co_inv m'"
proof -
  have ok: "co_ok (co_frames m) [] (co_next m)" using assms(1-3) by (simp add: co_inv_def)
  have t: "t = co_next m" "m1 = snd (call_task p m)" using assms(4) by (auto simp: call_task_def)
  show ?thesis using spawn_new [of m p] co_ok_spawn [OF ok] co_okD(1) [OF ok] assms(3) by (simp add: t co_inv_def)
qed

lemma co_reach_inv: "co_reach m \<Longrightarrow> co_inv m"
  unfolding co_reach_def
proof (induction rule: rtranclp_induct)
  case base
  show ?case by (simp add: co_inv_def co_ok_def machine_new_def waits_on_def)
next
  case (step m m')
  from step(2) show ?case
  proof cases
    case co_exec
    then obtain h st where "co_stack m = h # st" by (cases "co_stack m") (auto simp: exec_def)
    with exec_ok [OF step(3)] co_exec show ?thesis by fastforce
  next
    case (co_spawn p t m1)
    with spawn_ok [OF step(3)] show ?thesis by fastforce
  next
    case (co_complete h r)
    then obtain f k where "co_frames m h = Some f" "fr_point f = InIo k"
      by (auto simp: resume_io_def split: option.splits point.splits)
    from resume_io_ok [OF step(3) co_complete(1,2) this, of r] co_complete(3) show ?thesis by auto
  qed
qed

section \<open>The direct reading of a body\<close>

text \<open>
  What the source text suggests: \<open>co_await f()\<close> runs \<open>f\<close> and yields its value or exception,
  \<open>co_await\<close> of an I/O operation yields the next result.  The result is the outcome with the
  requests made and the results left over, \<^const>\<open>None\<close> while results are missing (and for bodies
  that spawn, which have no sequential reading).
\<close>

primrec direct :: "('v, 'x) prog \<Rightarrow> int list \<Rightarrow> (('x + 'v) \<times> nat list \<times> int list) option" where
  "direct (Return v) is = Some (Inr v, [], is)"
| "direct (Throw x) is = Some (Inl x, [], is)"
| "direct (AwaitTask p k) is = (case direct p is of None \<Rightarrow> None
     | Some (r, qs, is1) \<Rightarrow> (case direct (k r) is1 of None \<Rightarrow> None
        | Some (r', qs', is2) \<Rightarrow> Some (r', qs @ qs', is2)))"
| "direct (AwaitIo q k) is = (case is of [] \<Rightarrow> None
     | i # is1 \<Rightarrow> (case direct (k i) is1 of None \<Rightarrow> None
        | Some (r, qs, is2) \<Rightarrow> Some (r, q # qs, is2)))"
| "direct (Spawn p q) is = None"
| "direct (DropTask p q) is = direct q is"

text \<open>The machine fed with the results of I/O operations, each for the last request made.\<close>

inductive feed :: "('v, 'x) machine \<Rightarrow> int list \<Rightarrow> ('v, 'x) machine \<Rightarrow> bool" where
  feed_refl: "feed m [] m"
| feed_exec: "\<not> co_aborted m \<Longrightarrow> exec m = Inr m1 \<Longrightarrow> feed m1 is m' \<Longrightarrow> feed m is m'"
| feed_io: "\<not> co_aborted m \<Longrightarrow> co_stack m = [] \<Longrightarrow> co_requests m \<noteq> [] \<Longrightarrow>
    resume_io (fst (last (co_requests m))) i m = Inr m1 \<Longrightarrow> feed m1 is m' \<Longrightarrow> feed m (i # is) m'"

lemma feed_trans: "feed m is m1 \<Longrightarrow> feed m1 is' m2 \<Longrightarrow> feed m (is @ is') m2"
  by (induction rule: feed.induct) (auto intro: feed.intros)

lemma feed_steps: "feed m is m' \<Longrightarrow> co_step\<^sup>*\<^sup>* m m'"
  by (induction rule: feed.induct) (auto intro: converse_rtranclp_into_rtranclp co_step.intros)

fun of_outcome :: "'x + 'v \<Rightarrow> ('v, 'x) prog" where
  "of_outcome (Inl x) = Throw x"
| "of_outcome (Inr v) = Return v"

lemma exec_running:
  "co_stack m = h # st \<Longrightarrow> co_frames m h = Some f \<Longrightarrow> fr_point f = Running p \<Longrightarrow>
   exec m = exec_prog h f p (m\<lparr>co_stack := st\<rparr>)"
  by (simp add: exec_def)

lemma exec_outcome:
  assumes "co_stack m = h # st" and "co_frames m h = Some f" and "fr_point f = Running (of_outcome r)"
  shows "\<exists>f'. exec m = finish h f' (m\<lparr>co_stack := st\<rparr>) \<and> fr_cont f' = fr_cont f \<and> outcome (fr_result f') = Some r"
  using exec_running [OF assms] by (cases r) (auto simp: return_value_def unhandled_exception_def)

definition at_prog :: "('v, 'x) machine \<Rightarrow> handle \<Rightarrow> ('v, 'x) frame \<Rightarrow> ('v, 'x) prog \<Rightarrow> bool" where
  "at_prog m h f p \<longleftrightarrow> co_inv m \<and> \<not> co_aborted m \<and> co_stack m = [h] \<and> co_frames m h = Some (f\<lparr>fr_point := Running p\<rparr>)"

lemma at_progD:
  assumes "at_prog m h f p"
  shows "co_inv m" "\<not> co_aborted m" "co_stack m = [h]" "co_frames m h = Some (f\<lparr>fr_point := Running p\<rparr>)"
    "co_ok (co_frames m) [h] (co_next m)" "0 < h" "h < co_next m" "co_frames m (co_next m) = None"
proof -
  show ok: "co_ok (co_frames m) [h] (co_next m)" using assms unfolding at_prog_def co_inv_def by auto
  show f: "co_frames m h = Some (f\<lparr>fr_point := Running p\<rparr>)" using assms by (simp add: at_prog_def)
  show "0 < h" "h < co_next m" using co_okD(3,4) [OF ok f] by auto
  show "co_frames m (co_next m) = None" using co_ok_fresh [OF ok, of "co_next m"] by simp
qed (use assms in \<open>auto simp: at_prog_def\<close>)

text \<open>Up to its last action a body does in its frame what the direct reading says, and leaves all other frames alone.\<close>

definition reduces :: "('v, 'x) machine \<Rightarrow> handle \<Rightarrow> ('v, 'x) frame \<Rightarrow> int list \<Rightarrow> 'x + 'v \<Rightarrow> nat list \<Rightarrow> int list \<Rightarrow> bool" where
  "reduces m h f is r qs is' \<longleftrightarrow> (\<exists>xs m'. is = xs @ is' \<and> feed m xs m' \<and> at_prog m' h f (of_outcome r)
     \<and> co_frames m' = (co_frames m)(h \<mapsto> f\<lparr>fr_point := Running (of_outcome r)\<rparr>)
     \<and> map snd (co_requests m') = map snd (co_requests m) @ qs)"

lemma reduces_step:
  assumes "feed m xs m1" and "reduces m1 h f is r qs' is'"
    and "co_frames m1 = (co_frames m)(h \<mapsto> g)" and "map snd (co_requests m1) = map snd (co_requests m) @ qs"
  shows "reduces m h f (xs @ is) r (qs @ qs') is'"
proof -
  obtain ys m' where m': "is = ys @ is'" "feed m1 ys m'" "at_prog m' h f (of_outcome r)"
      "co_frames m' = (co_frames m1)(h \<mapsto> f\<lparr>fr_point := Running (of_outcome r)\<rparr>)"
      "map snd (co_requests m') = map snd (co_requests m1) @ qs'"
    using assms(2) unfolding reduces_def by blast
  from feed_trans [OF assms(1) m'(2)] m' assms(3,4) show ?thesis
    unfolding reduces_def by (intro exI [of _ "xs @ ys"] exI [of _ m']) simp
qed

lemma reduces_outcome:
  assumes "at_prog m h f (of_outcome r)"
  shows "reduces m h f is r [] is"
  unfolding reduces_def
proof (intro exI conjI)
  show "is = [] @ is" "feed m [] m" "at_prog m h f (of_outcome r)" "map snd (co_requests m) = map snd (co_requests m) @ []"
    using assms by (simp_all add: feed_refl)
  show "co_frames m = (co_frames m)(h \<mapsto> f\<lparr>fr_point := Running (of_outcome r)\<rparr>)"
    using at_progD(4) [OF assms] by (simp add: fun_upd_idem)
qed

lemma exec_at_prog:
  assumes "at_prog m h f p" and "exec m = Inr m1"
  shows "co_inv m1" "feed m [] m1"
  using exec_ok [OF at_progD(1,2,3) [OF assms(1)]] assms at_progD(2) [OF assms(1)]
  by (auto intro: feed.intros)

lemma io_reduces:
  assumes at: "at_prog m h f (AwaitIo q k)" and IH: "\<And>m. at_prog m h f (k i) \<Longrightarrow> reduces m h f is r qs is'"
  shows "reduces m h f (i # is) r (q # qs) is'"
proof -
  note D = at_progD [OF at]
  let ?m1 = "m\<lparr>co_stack := [], co_frames := (co_frames m)(h \<mapsto> f\<lparr>fr_point := InIo k\<rparr>), co_requests := co_requests m @ [(h, q)]\<rparr>"
  let ?m2 = "m\<lparr>co_frames := (co_frames m)(h \<mapsto> f\<lparr>fr_point := Running (k i)\<rparr>), co_requests := co_requests m @ [(h, q)]\<rparr>"
  have e: "exec m = Inr ?m1" using exec_running [OF D(3,4)] by simp
  have r: "resume_io h i ?m1 = Inr ?m2" using D(3) by (simp add: resume_io_def)
  have fd: "feed m [i] ?m2"
    by (rule feed_exec [OF D(2) e], rule feed_io) (use D(2) r in \<open>auto intro: feed_refl\<close>)
  have "co_inv ?m2"
    using resume_io_ok [OF exec_at_prog(1) [OF at e], of h "f\<lparr>fr_point := InIo k\<rparr>" k i] D(2) r by auto
  then have rd: "reduces ?m2 h f is r qs is'" by (intro IH) (use D in \<open>simp add: at_prog_def\<close>)
  have "reduces m h f ([i] @ is) r ([q] @ qs) is'" by (rule reduces_step [OF fd rd]) auto
  then show ?thesis by simp
qed

lemma drop_reduces:
  assumes at: "at_prog m h f (DropTask p q)" and IH: "\<And>m. at_prog m h f q \<Longrightarrow> reduces m h f is r qs is'"
  shows "reduces m h f is r qs is'"
proof -
  note D = at_progD [OF at]
  let ?m1 = "m\<lparr>co_frames := (co_frames m)(h \<mapsto> f\<lparr>fr_point := Running q\<rparr>), co_next := Suc (co_next m)\<rparr>"
  have e: "exec m = Inr ?m1" using exec_running [OF D(3,4)] exec_drop [of "m\<lparr>co_stack := []\<rparr>" h "f\<lparr>fr_point := Running (DropTask p q)\<rparr>" p q] D
    by simp
  have rd: "reduces ?m1 h f is r qs is'"
    by (rule IH) (use D exec_at_prog(1) [OF at e] in \<open>simp add: at_prog_def\<close>)
  have "reduces m h f ([] @ is) r ([] @ qs) is'" by (rule reduces_step [OF exec_at_prog(2) [OF at e] rd]) auto
  then show ?thesis by simp
qed

lemma await_reduces:
  assumes at: "at_prog m h f (AwaitTask p k)"
    and IHp: "\<And>m h f. at_prog m h f p \<Longrightarrow> reduces m h f is r qs is1"
    and IHk: "\<And>m. at_prog m h f (k r) \<Longrightarrow> reduces m h f is1 r' qs' is2"
  shows "reduces m h f is r' (qs @ qs') is2"
proof -
  note D = at_progD [OF at]
  let ?c = "co_next m" and ?w = "f\<lparr>fr_point := InAwait (co_next m) k\<rparr>"
  let ?m1 = "m\<lparr>co_frames := (co_frames m)(h \<mapsto> ?w, ?c \<mapsto> child_frame p h), co_stack := [?c], co_next := Suc ?c\<rparr>"
  have e1: "exec m = Inr ?m1"
    using exec_running [OF D(3,4)] exec_await [of "m\<lparr>co_stack := []\<rparr>" h "f\<lparr>fr_point := Running (AwaitTask p k)\<rparr>" p k] D
    by simp
  have "at_prog ?m1 ?c (child_frame p h) p"
    using exec_at_prog(1) [OF at e1] D(2) by (simp add: at_prog_def child_frame_def)
  from IHp [OF this] obtain xs m2 where m2: "is = xs @ is1" "feed ?m1 xs m2" "at_prog m2 ?c (child_frame p h) (of_outcome r)"
      "co_frames m2 = (co_frames m)(h \<mapsto> ?w, ?c \<mapsto> (child_frame p h)\<lparr>fr_point := Running (of_outcome r)\<rparr>)"
      "map snd (co_requests m2) = map snd (co_requests m) @ qs"
    unfolding reduces_def by auto
  note D2 = at_progD [OF m2(3)]
  obtain f' where f': "exec m2 = finish ?c f' (m2\<lparr>co_stack := []\<rparr>)" "fr_cont f' = h" "outcome (fr_result f') = Some r"
    using exec_outcome [OF D2(3,4)] by auto
  let ?m3 = "m2\<lparr>co_frames := (co_frames m)(h \<mapsto> f\<lparr>fr_point := Running (k r)\<rparr>), co_stack := [h]\<rparr>"
  have fr: "(co_frames m2)(?c := None, h \<mapsto> f\<lparr>fr_point := Running (k r)\<rparr>) = (co_frames m)(h \<mapsto> f\<lparr>fr_point := Running (k r)\<rparr>)"
    using D(8) m2(4) by (auto simp: fun_eq_iff)
  have e2: "exec m2 = Inr ?m3"
    using finish_await [of "m2\<lparr>co_stack := []\<rparr>" h ?w ?c k f' r] f' m2(4) D D2 fr by simp
  have fd: "feed m xs ?m3"
    using feed_trans [OF feed_exec [OF D(2) e1 m2(2)] feed_exec [OF D2(2) e2 feed_refl]] by simp
  have rd: "reduces ?m3 h f is1 r' qs' is2"
    by (rule IHk) (use D2(2) exec_at_prog(1) [OF m2(3) e2] in \<open>simp add: at_prog_def\<close>)
  show ?thesis unfolding m2(1) by (rule reduces_step [OF fd rd]) (use m2(5) in auto)
qed

lemma body_reduces: "direct p is = Some (r, qs, is') \<Longrightarrow> at_prog m h f p \<Longrightarrow> reduces m h f is r qs is'"
proof (induction p arbitrary: "is" r qs is' m h f)
  case (Return v)
  have d: "r = Inr v" "qs = []" "is' = is" using Return(1) by auto
  show ?case using reduces_outcome [of m h f r "is"] Return(2) unfolding d by simp
next
  case (Throw x)
  have d: "r = Inl x" "qs = []" "is' = is" using Throw(1) by auto
  show ?case using reduces_outcome [of m h f r "is"] Throw(2) unfolding d by simp
next
  case (AwaitTask p k)
  from AwaitTask.prems(1) obtain r1 qs1 is1 qs2 where d: "direct p is = Some (r1, qs1, is1)"
      "direct (k r1) is1 = Some (r, qs2, is')" "qs = qs1 @ qs2"
    by (auto split: option.splits prod.splits)
  show ?case unfolding d(3)
    by (rule await_reduces [OF AwaitTask.prems(2) AwaitTask.IH(1) [OF d(1)] AwaitTask.IH(2) [OF rangeI d(2)]])
next
  case (AwaitIo q k)
  from AwaitIo.prems(1) obtain i is1 qs1 where d: "is = i # is1" "direct (k i) is1 = Some (r, qs1, is')" "qs = q # qs1"
    by (auto split: option.splits prod.splits list.splits)
  show ?case unfolding d(1,3) by (rule io_reduces [OF AwaitIo.prems(2) AwaitIo.IH [OF rangeI d(2)]])
next
  case (Spawn p q)
  then show ?case by simp
next
  case (DropTask p q)
  show ?case by (rule drop_reduces [OF DropTask.prems(2)]) (use DropTask in auto)
qed

section \<open>Properties\<close>

text \<open>
  C1: Coroutine safety.  However many coroutines are spawned, whatever they await, spawn, throw or
  drop, and in whatever order their I/O completes, the running one can always take its next action: no
  destroyed or finished frame is resumed, none is destroyed twice or while it runs, and no result is
  read before it is there.  Only a nested \<open>spawn\<close> deepens the call stack: awaiting and finishing
  transfer control in place.
\<close>

theorem coroutines_never_fault:
  assumes "co_reach m" and "\<not> co_aborted m" and "co_stack m = h # st"
  shows "\<exists>m' p. exec m = Inr m' \<and> next_prog m = Some p
    \<and> length (co_stack m') \<le> length (co_stack m) + (if is_spawn p then 1 else 0)"
  using exec_ok [OF co_reach_inv [OF assms(1)] assms(2,3)] by blast

theorem coroutines_never_fault_witness:
  "\<exists>m1 m2 p :: (int, nat) prog. spawn 1 (snd (call_task (AwaitTask (Throw 5) (\<lambda>r. Return 3)) machine_new)) = Inr m1
     \<and> co_stack m1 = [1] \<and> exec m1 = Inr m2 \<and> next_prog m1 = Some p \<and> co_stack m2 = [3]"
proof -
  let ?p = "AwaitTask (Throw 5) (\<lambda>r. Return 3) :: (int, nat) prog"
  let ?m = "machine_new :: (int, nat) machine"
  obtain m1 where m1: "spawn 1 (snd (call_task ?p ?m)) = Inr m1" "co_stack m1 = [1]" "\<not> co_aborted m1"
    using spawn_new [of ?m ?p] by (simp add: machine_new_def)
  have "co_step ?m m1"
    by (rule co_spawn [of _ ?p 1 "snd (call_task ?p ?m)"]) (use m1 in \<open>simp_all add: machine_new_def call_task_def\<close>)
  then have "co_reach m1" by (auto simp: co_reach_def)
  from coroutines_never_fault [OF this m1(3,2)] obtain m2 p where m2: "exec m1 = Inr m2" "next_prog m1 = Some p" by blast
  moreover have "co_stack m2 = [3]" using m2 m1 by (auto simp: machine_new_def spawn_def call_task_def await_task_def
    task_await_ready_def task_await_suspend_def resume_def promise_new_def exec_def Let_def)
  ultimately show ?thesis using m1 by blast
qed

text \<open>
  C3: A coroutine means what it says.  A task handed to \<open>spawn\<close> in an idle event loop runs exactly like
  the direct reading of its body on the results of its I/O, whatever tasks it awaits: it makes the same
  requests; when it returns every frame it created is gone, the frames of all other coroutines are
  untouched and the stack is empty again; when an exception leaves it the process is aborted.
\<close>

theorem spawned_task_runs_directly:
  assumes "co_reach m" and "\<not> co_aborted m" and "co_stack m = []"
    and "call_task p m = (t, m1)" and "direct p is = Some (r, qs, is')"
  shows "\<exists>m2 xs m'. spawn t m1 = Inr m2 \<and> is = xs @ is' \<and> feed m2 xs m'
    \<and> map snd (co_requests m') = map snd (co_requests m) @ qs
    \<and> (case r of Inr v \<Rightarrow> co_frames m' = co_frames m \<and> co_stack m' = [] \<and> \<not> co_aborted m'
        | Inl x \<Rightarrow> co_aborted m')"
proof -
  have inv: "co_inv m" by (rule co_reach_inv [OF assms(1)])
  then have ok: "co_ok (co_frames m) [] (co_next m)" using assms(2,3) by (simp add: co_inv_def)
  let ?c = "co_next m" and ?s = "Suc (co_next m)"
  have t: "t = ?c" "m1 = snd (call_task p m)" using assms(4) by (auto simp: call_task_def)
  let ?m2 = "m\<lparr>co_frames := (co_frames m)(?c \<mapsto> child_frame p ?s, ?s \<mapsto> shim_frame ?c), co_stack := [?c], co_next := Suc ?s\<rparr>"
  have sp: "spawn t m1 = Inr ?m2" using spawn_new [of m p] co_okD(1) [OF ok] assms(3) by (simp add: t)
  have "at_prog ?m2 ?c (child_frame p ?s) p"
    using co_ok_spawn [OF ok] assms(2) by (simp add: at_prog_def co_inv_def child_frame_def)
  from body_reduces [OF assms(5) this] obtain xs m3 where m3: "is = xs @ is'" "feed ?m2 xs m3"
      "at_prog m3 ?c (child_frame p ?s) (of_outcome r)"
      "co_frames m3 = (co_frames m)(?c \<mapsto> (child_frame p ?s)\<lparr>fr_point := Running (of_outcome r)\<rparr>, ?s \<mapsto> shim_frame ?c)"
      "map snd (co_requests m3) = map snd (co_requests m) @ qs"
    unfolding reduces_def by (auto simp: fun_upd_twist)
  note D = at_progD [OF m3(3)]
  obtain f' where f': "exec m3 = finish ?c f' (m3\<lparr>co_stack := []\<rparr>)" "fr_cont f' = ?s" "outcome (fr_result f') = Some r"
    using exec_outcome [OF D(3,4)] by auto
  have fr: "(co_frames m3)(?c := None, ?s := None) = co_frames m"
    using co_ok_fresh [OF ok] m3(4) by (auto simp: fun_eq_iff)
  let ?m' = "case r of Inr v \<Rightarrow> m3\<lparr>co_stack := [], co_frames := co_frames m\<rparr>
    | Inl x \<Rightarrow> m3\<lparr>co_stack := [], co_frames := (co_frames m3)(?c \<mapsto> f'\<lparr>fr_point := AtFinal\<rparr>), co_aborted := True\<rparr>"
  have "exec m3 = Inr ?m'"
    using finish_shim [of "m3\<lparr>co_stack := []\<rparr>" ?s "shim_frame ?c" ?c f' r] f' m3(4) D(7) co_okD(1) [OF ok] fr
    by (cases r) simp_all
  then have "feed ?m2 xs ?m'" using feed_trans [OF m3(2) feed_exec [OF D(2) _ feed_refl]] by simp
  then show ?thesis using sp m3(1,5) D(2) by (intro exI [of _ ?m2] exI [of _ xs] exI [of _ ?m']) (cases r, simp_all)
qed

theorem spawned_task_runs_directly_witness:
  "\<exists>m2 m'. spawn 1 (snd (call_task (AwaitTask (AwaitIo 7 (\<lambda>i. if i < 0 then Throw () else Return i))
       (\<lambda>r. case r of Inl x \<Rightarrow> Return 0 | Inr v \<Rightarrow> Return (v + 1))) machine_new)) = Inr m2
     \<and> feed m2 [- 4] m' \<and> map snd (co_requests m') = [7] \<and> co_frames m' = Map.empty \<and> co_stack m' = []"
proof -
  let ?p = "AwaitTask (AwaitIo 7 (\<lambda>i. if i < 0 then Throw () else Return i))
       (\<lambda>r. case r of Inl x \<Rightarrow> Return 0 | Inr v \<Rightarrow> Return (v + 1))"
  have "co_reach machine_new" by (simp add: co_reach_def)
  from spawned_task_runs_directly [OF this _ _ _, of ?p 1 "snd (call_task ?p machine_new)" "[- 4]" "Inr 0" "[7]" "[]"]
  obtain m2 xs m' where "spawn 1 (snd (call_task ?p machine_new)) = Inr m2" "[- 4] = xs @ []" "feed m2 xs m'"
      "map snd (co_requests m') = map snd (co_requests (machine_new :: (int, unit) machine)) @ [7]"
      "co_frames m' = co_frames machine_new" "co_stack m' = []"
    by (auto simp: machine_new_def call_task_def)
  then show ?thesis by (intro exI [of _ m2] exI [of _ m']) (simp add: machine_new_def)
qed

end
