(* ===== verification/Task_Owners.thy ===== *)
theory Task_Owners
  imports Coroutines
begin

text \<open>
  The \<open>Task\<close> objects of a program (\<open>task.hpp\<close>) and the frames they own: calls of coroutine functions,
  moves, assignments, \<open>release\<close> and destructors in any order, on the same heap of frames as the machine
  of \<open>Coroutines\<close>.
\<close>

section \<open>Task objects\<close>

text \<open>
  Objects have names; \<open>handle_\<close> of an object is null after a move.  A handle given away by
  \<open>release\<close> is recorded, its frame belongs to whoever has taken it.
\<close>

record ('v, 'x) task_scope =
  ts_tasks :: "nat \<rightharpoonup> handle"
  ts_released :: "handle list"
  ts_machine :: "('v, 'x) machine"

definition task_scope_new :: "('v, 'x) task_scope" where
  "task_scope_new = \<lparr>ts_tasks = Map.empty, ts_released = [], ts_machine = machine_new\<rparr>"

datatype ('v, 'x) task_op =
    Create nat "('v, 'x) prog"          \<comment> \<open>\<open>Task<T> v = f();\<close>\<close>
  | MoveConstruct nat nat               \<comment> \<open>\<open>Task<T> v(std::move(w));\<close>\<close>
  | MoveAssign nat nat                  \<comment> \<open>\<open>v = std::move(w);\<close>, perhaps with itself\<close>
  | ReleaseTask nat                     \<comment> \<open>\<open>v.release()\<close>\<close>
  | DestroyTask nat                     \<comment> \<open>the end of the life of \<open>v\<close>\<close>
  | Progress handle "('v, 'x) frame"    \<comment> \<open>the body has run on to its next suspension point\<close>

text \<open>A use of an object that does not live is a fault, and so is every fault of the frames.\<close>

fun task_exec :: "('v, 'x) task_op \<Rightarrow> ('v, 'x) task_scope \<Rightarrow> co_error + ('v, 'x) task_scope" where
  "task_exec (Create v p) s =
     (let (h, m) = call_task p (ts_machine s) in Inr (s\<lparr>ts_tasks := (ts_tasks s)(v \<mapsto> h), ts_machine := m\<rparr>))"
| "task_exec (MoveConstruct v w) s =
     (case ts_tasks s w of None \<Rightarrow> Inl DanglingHandle
      | Some b \<Rightarrow> (let (h, h') = task_move b in Inr (s\<lparr>ts_tasks := (ts_tasks s)(w \<mapsto> h', v \<mapsto> h)\<rparr>)))"
| "task_exec (MoveAssign v w) s =
     (case (ts_tasks s v, ts_tasks s w) of
        (Some a, Some b) \<Rightarrow>
          rbind (task_move_assign (co_next (ts_machine s)) (v = w) a b (co_frames (ts_machine s))) (\<lambda>(h, h', F).
            Inr (s\<lparr>ts_tasks := (ts_tasks s)(w \<mapsto> h', v \<mapsto> h), ts_machine := (ts_machine s)\<lparr>co_frames := F\<rparr>\<rparr>))
      | _ \<Rightarrow> Inl DanglingHandle)"
| "task_exec (ReleaseTask v) s =
     (case ts_tasks s v of None \<Rightarrow> Inl DanglingHandle
      | Some a \<Rightarrow> (let (h, h') = task_release a
          in Inr (s\<lparr>ts_tasks := (ts_tasks s)(v \<mapsto> h'), ts_released := (if h \<noteq> 0 then [h] else []) @ ts_released s\<rparr>)))"
| "task_exec (DestroyTask v) s =
     (case ts_tasks s v of None \<Rightarrow> Inl DanglingHandle
      | Some a \<Rightarrow> rbind (task_destroy (co_next (ts_machine s)) a (co_frames (ts_machine s))) (\<lambda>F.
          Inr (s\<lparr>ts_tasks := (ts_tasks s)(v := None), ts_machine := (ts_machine s)\<lparr>co_frames := F\<rparr>\<rparr>)))"
| "task_exec (Progress h f) s =
     Inr (s\<lparr>ts_machine := (ts_machine s)\<lparr>co_frames := (co_frames (ts_machine s))(h \<mapsto> f)\<rparr>\<rparr>)"

fun task_run :: "('v, 'x) task_op list \<Rightarrow> ('v, 'x) task_scope \<Rightarrow> co_error + ('v, 'x) task_scope" where
  "task_run [] s = Inr s"
| "task_run (x # xs) s = rbind (task_exec x s) (task_run xs)"

text \<open>
  What the language guarantees: an object is constructed once before it is used and destroyed once.
  A body that has run on stands at its start, at its end or waits for I/O: a frame that waits for
  another task holds that task as its temporary, the subject of \<open>Coroutines\<close>.
\<close>

fun holds_no_task :: "('v, 'x) point \<Rightarrow> bool" where
  "holds_no_task (AtStart p) = True"
| "holds_no_task AtFinal = True"
| "holds_no_task (InIo k) = True"
| "holds_no_task _ = False"

fun task_legal :: "('v, 'x) task_op \<Rightarrow> ('v, 'x) task_scope \<Rightarrow> bool" where
  "task_legal (Create v p) s = (ts_tasks s v = None)"
| "task_legal (MoveConstruct v w) s = (ts_tasks s v = None \<and> ts_tasks s w \<noteq> None)"
| "task_legal (MoveAssign v w) s = (ts_tasks s v \<noteq> None \<and> ts_tasks s w \<noteq> None)"
| "task_legal (ReleaseTask v) s = (ts_tasks s v \<noteq> None)"
| "task_legal (DestroyTask v) s = (ts_tasks s v \<noteq> None)"
| "task_legal (Progress h f) s = (co_frames (ts_machine s) h \<noteq> None \<and> holds_no_task (fr_point f))"

fun legal_run :: "('v, 'x) task_op list \<Rightarrow> ('v, 'x) task_scope \<Rightarrow> bool" where
  "legal_run [] s = True"
| "legal_run (x # xs) s = (task_legal x s \<and> (case task_exec x s of Inl e \<Rightarrow> True | Inr s' \<Rightarrow> legal_run xs s'))"

section \<open>Ownership\<close>

text \<open>Frames are owned by exactly one object or have been released.\<close>

definition owned :: "(nat \<rightharpoonup> handle) \<Rightarrow> handle set" where
  "owned T = {h. h \<noteq> 0 \<and> (\<exists>v. T v = Some h)}"

definition sole_owner :: "(nat \<rightharpoonup> handle) \<Rightarrow> bool" where
  "sole_owner T \<longleftrightarrow> (\<forall>v w h. T v = Some h \<longrightarrow> T w = Some h \<longrightarrow> h \<noteq> 0 \<longrightarrow> v = w)"

definition owners_ok :: "('v, 'x) task_scope \<Rightarrow> bool" where
  "owners_ok s \<longleftrightarrow> sole_owner (ts_tasks s) \<and> owned (ts_tasks s) \<inter> set (ts_released s) = {} \<and> distinct (ts_released s)
     \<and> dom (co_frames (ts_machine s)) = owned (ts_tasks s) \<union> set (ts_released s)
     \<and> (\<forall>h \<in> dom (co_frames (ts_machine s)). 0 < h \<and> h < co_next (ts_machine s))
     \<and> (\<forall>f \<in> ran (co_frames (ts_machine s)). holds_no_task (fr_point f)) \<and> 0 < co_next (ts_machine s)"

lemma owners_okD:
  assumes "owners_ok s"
  shows "sole_owner (ts_tasks s)" "owned (ts_tasks s) \<inter> set (ts_released s) = {}" "distinct (ts_released s)"
    "dom (co_frames (ts_machine s)) = owned (ts_tasks s) \<union> set (ts_released s)"
    "\<forall>h \<in> dom (co_frames (ts_machine s)). 0 < h \<and> h < co_next (ts_machine s)"
    "\<forall>f \<in> ran (co_frames (ts_machine s)). holds_no_task (fr_point f)" "0 < co_next (ts_machine s)"
  using assms unfolding owners_ok_def by - (elim conjE, assumption)+

text \<open>How the owned frames change with the map of objects.\<close>

lemma owned_iff: "h \<in> owned T \<longleftrightarrow> h \<noteq> 0 \<and> (\<exists>v. T v = Some h)"
  by (simp add: owned_def)

lemma owned_upd: "owned (T(v \<mapsto> b)) = owned (T(v := None)) \<union> ({b} - {0})"
proof (rule set_eqI)
  have "(\<exists>w. (T(v \<mapsto> b)) w = Some h) \<longleftrightarrow> b = h \<or> (\<exists>w. (T(v := None)) w = Some h)" for h
    by (metis fun_upd_apply option.discI option.inject)
  then show "h \<in> owned (T(v \<mapsto> b)) \<longleftrightarrow> h \<in> owned (T(v := None)) \<union> ({b} - {0})" for h
    by (auto simp: owned_iff)
qed

lemma owned_drop: "owned (T(v := None)) = owned T - set_option (T v)" if "sole_owner T"
proof (rule set_eqI)
  have "(\<exists>w. (T(v := None)) w = Some h) \<longleftrightarrow> (\<exists>w. T w = Some h) \<and> T v \<noteq> Some h" if "h \<noteq> 0" for h
    using \<open>sole_owner T\<close> that unfolding sole_owner_def by (metis fun_upd_apply option.discI)
  then show "h \<in> owned (T(v := None)) \<longleftrightarrow> h \<in> owned T - set_option (T v)" for h
    unfolding owned_iff Diff_iff elem_set by blast
qed

lemma owned_null: "sole_owner T \<Longrightarrow> owned (T(v \<mapsto> 0)) = owned T - set_option (T v)"
  by (simp add: owned_upd owned_drop)

lemma sole_drop: "sole_owner T \<Longrightarrow> sole_owner (T(v := None))" "sole_owner T \<Longrightarrow> sole_owner (T(v \<mapsto> 0))"
  unfolding sole_owner_def by (metis fun_upd_apply option.discI, metis fun_upd_apply option.inject)

lemma sole_add: "sole_owner T \<Longrightarrow> h \<notin> owned T \<Longrightarrow> sole_owner (T(v \<mapsto> h))"
  unfolding sole_owner_def owned_def mem_Collect_eq by (metis fun_upd_apply option.inject)

text \<open>The handle of \<open>w\<close> passes to \<open>v\<close>, whose old one is gone.\<close>

lemma pass_handle:
  assumes T: "sole_owner T" and w: "T w = Some b" and vw: "v \<noteq> w"
  shows "sole_owner (T(w \<mapsto> 0, v \<mapsto> b))"
    and "owned (T(w \<mapsto> 0, v \<mapsto> b)) = owned T - set_option (T v)"
proof -
  let ?U = "T(w \<mapsto> 0)"
  have U: "sole_owner ?U" "owned ?U = owned T - {b}" using sole_drop(2) [OF T] owned_null [OF T, of w] w by simp_all
  show "sole_owner (?U(v \<mapsto> b))" by (rule sole_add [OF U(1)]) (simp add: U(2))
  have "b \<noteq> 0 \<Longrightarrow> b \<in> owned T" "0 \<notin> owned T" using w by (auto simp: owned_iff)
  moreover have "b \<noteq> 0 \<Longrightarrow> T v \<noteq> Some b" using T w vw unfolding sole_owner_def by blast
  moreover have "owned (?U(v \<mapsto> b)) = owned T - {b} - set_option (T v) \<union> (set_option (Some b) - {0})"
    using vw by (simp add: owned_upd [of ?U] owned_drop [OF U(1)] U(2))
  ultimately show "owned (?U(v \<mapsto> b)) = owned T - set_option (T v)" by (cases "b = 0") auto
qed

text \<open>The destructor of an object finds its frame and removes nothing else.\<close>

lemma task_destroy_owned:
  assumes ok: "owners_ok s" and v: "ts_tasks s v = Some a"
  shows "task_destroy (co_next (ts_machine s)) a (co_frames (ts_machine s)) = Inr ((co_frames (ts_machine s))(a := None))"
proof (cases "a = 0")
  case True
  have "0 \<notin> dom (co_frames (ts_machine s))" using owners_okD(5) [OF ok] by blast
  then show ?thesis using True by (simp add: task_destroy_def domIff fun_upd_idem)
next
  case False
  have "a \<in> dom (co_frames (ts_machine s))" using owners_okD(4) [OF ok] v False by (auto simp: owned_def)
  then obtain f where f: "co_frames (ts_machine s) a = Some f" "holds_no_task (fr_point f)"
    using owners_okD(6) [OF ok] by (auto simp: ran_def)
  obtain n where "co_next (ts_machine s) = Suc n" using owners_okD(7) [OF ok] by (cases "co_next (ts_machine s)") auto
  then show ?thesis using f False by (cases "fr_point f") (simp_all add: task_destroy_def)
qed

text \<open>Frames and objects change together: what is left to show for each operation.\<close>

lemma owners_okI:
  assumes "sole_owner T" "owned T \<inter> set R = {}" "distinct R" "dom F = owned T \<union> set R"
    and "\<forall>h \<in> dom F. 0 < h \<and> h < n" "\<forall>f \<in> ran F. holds_no_task (fr_point f)" "0 < n"
    and "ts_tasks s = T" "ts_released s = R" "co_frames (ts_machine s) = F" "co_next (ts_machine s) = n"
  shows "owners_ok s"
  using assms by (simp add: owners_ok_def)

lemma ran_del: "\<forall>f \<in> ran F. P f \<Longrightarrow> \<forall>f \<in> ran (F(a := None)). P f"
  by (auto simp: ran_def split: if_splits)

lemma ran_add: "\<forall>f \<in> ran F. P f \<Longrightarrow> P g \<Longrightarrow> \<forall>f \<in> ran (F(a \<mapsto> g)). P f"
  by (auto simp: ran_def split: if_splits)

lemma owners_drop:
  assumes ok: "owners_ok s" and s': "sole_owner T" "owned T = owned (ts_tasks s) - {a}" "ts_tasks s v = Some a"
  shows "owners_ok (s\<lparr>ts_tasks := T, ts_machine := (ts_machine s)\<lparr>co_frames := (co_frames (ts_machine s))(a := None)\<rparr>\<rparr>)"
proof -
  note D = owners_okD [OF ok]
  have "0 \<notin> set (ts_released s)" using D(4,5) by blast
  moreover have "a \<noteq> 0 \<Longrightarrow> a \<in> owned (ts_tasks s)" using s'(3) by (auto simp: owned_iff)
  ultimately have a: "a \<notin> set (ts_released s)" using D(2) by (cases "a = 0") auto
  show ?thesis
    by (rule owners_okI [OF s'(1) _ D(3) _ _ ran_del [OF D(6)] D(7)]) (use D(2,4,5) s'(2) a in auto)
qed

lemma task_exec_ok:
  assumes ok: "owners_ok s" and legal: "task_legal x s"
  shows "\<exists>s'. task_exec x s = Inr s' \<and> owners_ok s'"
proof (cases x)
  case (Create v p)
  let ?n = "co_next (ts_machine s)"
  note D = owners_okD [OF ok]
  have n: "?n \<notin> dom (co_frames (ts_machine s))" using D(5) by blast
  then have "?n \<notin> owned (ts_tasks s)" "?n \<notin> set (ts_released s)" using D(4) by auto
  moreover have "ts_tasks s v = None" using legal Create by simp
  ultimately have "owners_ok (s\<lparr>ts_tasks := (ts_tasks s)(v \<mapsto> ?n), ts_machine := snd (call_task p (ts_machine s))\<rparr>)"
    by (intro owners_okI [OF sole_add [OF D(1)] _ D(3) _ _ ran_add [OF D(6), of "promise_new p"]])
      (use D(2,4,5,7) in \<open>auto simp: owned_upd owned_drop [OF D(1)] call_task_def promise_new_def intro: less_SucI\<close>)
  then show ?thesis using Create by (simp add: call_task_def)
next
  case (MoveConstruct v w)
  note D = owners_okD [OF ok]
  obtain b where b: "ts_tasks s v = None" "ts_tasks s w = Some b" "v \<noteq> w" using legal MoveConstruct by fastforce
  have "owners_ok (s\<lparr>ts_tasks := (ts_tasks s)(w \<mapsto> 0, v \<mapsto> b)\<rparr>)"
    by (rule owners_okI [OF pass_handle(1) [OF D(1) b(2,3)] _ D(3) _ D(5) D(6) D(7)])
      (use D(2,4) pass_handle(2) [OF D(1) b(2,3)] b(1) in auto)
  then show ?thesis using MoveConstruct b by (simp add: task_move_def)
next
  case (MoveAssign v w)
  note D = owners_okD [OF ok]
  obtain a b where ab: "ts_tasks s v = Some a" "ts_tasks s w = Some b" using legal MoveAssign by auto
  show ?thesis
  proof (cases "v = w")
    case True
    then show ?thesis using MoveAssign ab ok by (simp add: task_move_assign_def fun_upd_idem)
  next
    case False
    note P = pass_handle [OF D(1) ab(2) False]
    have "owners_ok (s\<lparr>ts_tasks := (ts_tasks s)(w \<mapsto> 0, v \<mapsto> b),
        ts_machine := (ts_machine s)\<lparr>co_frames := (co_frames (ts_machine s))(a := None)\<rparr>\<rparr>)"
      by (rule owners_drop [OF ok P(1) _ ab(1)]) (simp add: P(2) ab(1))
    then show ?thesis using MoveAssign ab False task_destroy_owned [OF ok ab(1)] by (simp add: task_move_assign_def)
  qed
next
  case (ReleaseTask v)
  note D = owners_okD [OF ok]
  obtain a where a: "ts_tasks s v = Some a" using legal ReleaseTask by auto
  have "a \<noteq> 0 \<Longrightarrow> a \<in> owned (ts_tasks s)" using a by (auto simp: owned_def)
  moreover have "0 \<notin> owned (ts_tasks s)" by (simp add: owned_def)
  ultimately have "owners_ok (s\<lparr>ts_tasks := (ts_tasks s)(v \<mapsto> 0), ts_released := (if a \<noteq> 0 then [a] else []) @ ts_released s\<rparr>)"
    by (intro owners_okI [OF sole_drop(2) [OF D(1)] _ _ _ D(5) D(6) D(7)])
      (use D(2-4) owned_null [OF D(1), of v] a in auto)
  then show ?thesis using ReleaseTask a by (simp add: task_release_def)
next
  case (DestroyTask v)
  note D = owners_okD [OF ok]
  obtain a where a: "ts_tasks s v = Some a" using legal DestroyTask by auto
  show ?thesis
    using DestroyTask a task_destroy_owned [OF ok a] owners_drop [OF ok sole_drop(1) [OF D(1)] _ a] owned_drop [OF D(1), of v]
    by simp
next
  case (Progress h f)
  note D = owners_okD [OF ok]
  have "h \<in> dom (co_frames (ts_machine s))" "holds_no_task (fr_point f)" using legal Progress by auto
  then have "owners_ok (s\<lparr>ts_machine := (ts_machine s)\<lparr>co_frames := (co_frames (ts_machine s))(h \<mapsto> f)\<rparr>\<rparr>)"
    by (intro owners_okI [OF D(1-3) _ _ ran_add [OF D(6)] D(7)]) (use D(4,5) in auto)
  then show ?thesis using Progress by simp
qed

lemma task_run_ok:
  "owners_ok s \<Longrightarrow> legal_run xs s \<Longrightarrow> \<exists>s'. task_run xs s = Inr s' \<and> owners_ok s'"
proof (induction xs arbitrary: s)
  case (Cons x xs)
  then obtain s1 where s1: "task_exec x s = Inr s1" "owners_ok s1" using task_exec_ok [of s x] by auto
  with Cons.prems Cons.IH [of s1] show ?case by simp
qed simp

lemma task_scope_new_ok: "owners_ok task_scope_new"
  by (simp add: owners_ok_def task_scope_new_def machine_new_def sole_owner_def owned_def)

section \<open>No frame is lost or destroyed twice\<close>

text \<open>
  C2: Whatever a program does with its task objects - calls, move constructions, assignments also to
  itself, releases and destructors, in any order the language permits - no frame is destroyed twice
  and none is used after its end; at every moment the frames that exist are those of exactly one
  object each and the released ones, so that none is leaked once the objects are gone.
\<close>

theorem task_objects_own_frames:
  assumes "legal_run xs task_scope_new"
  shows "\<exists>s. task_run xs task_scope_new = Inr s \<and> sole_owner (ts_tasks s) \<and> distinct (ts_released s)
    \<and> owned (ts_tasks s) \<inter> set (ts_released s) = {}
    \<and> dom (co_frames (ts_machine s)) = owned (ts_tasks s) \<union> set (ts_released s)
    \<and> (ts_tasks s = Map.empty \<longrightarrow> dom (co_frames (ts_machine s)) = set (ts_released s))"
proof -
  obtain s where s: "task_run xs task_scope_new = Inr s" "owners_ok s" using task_run_ok [OF task_scope_new_ok assms] by blast
  have "ts_tasks s = Map.empty \<longrightarrow> dom (co_frames (ts_machine s)) = set (ts_released s)"
    unfolding owners_okD(4) [OF s(2)] by (simp add: owned_def)
  with s(1) owners_okD(1-4) [OF s(2)] show ?thesis by (intro exI [of _ s] conjI)
qed

text \<open>
  Two tasks, the second assigned over the first, assigned to itself, released; the destructors of both
  objects then find nothing to destroy.
\<close>

definition demo_task_ops :: "(nat, nat) task_op list" where
  "demo_task_ops = [Create 0 (Return 5), Create 1 (Return 6), MoveAssign 0 1, MoveAssign 0 0, MoveConstruct 2 0,
     Progress 2 \<lparr>fr_point = AtFinal, fr_result = HasValue 6, fr_cont = 0\<rparr>, ReleaseTask 2, DestroyTask 0, DestroyTask 1, DestroyTask 2]"

lemma demo_task_run:
  "legal_run demo_task_ops task_scope_new"
  "\<exists>s. task_run demo_task_ops task_scope_new = Inr s \<and> ts_tasks s = Map.empty \<and> ts_released s = [2]"
  by (simp_all add: demo_task_ops_def task_scope_new_def machine_new_def call_task_def task_move_assign_def task_move_def
      task_release_def task_destroy_def promise_new_def numeral_2_eq_2 fun_eq_iff)

lemma task_objects_own_frames_witness:
  "\<exists>s. task_run demo_task_ops task_scope_new = Inr s \<and> dom (co_frames (ts_machine s)) = {2}"
  using task_objects_own_frames [OF demo_task_run(1)] demo_task_run(2) by auto

text \<open>
  Awaiting an object that has been moved from is not caught: \<open>await_ready\<close> is true for the null
  handle, and \<open>await_resume\<close> then reads the promise of no frame.
\<close>

lemma empty_task_await:
  "F 0 = None \<Longrightarrow> task_await_ready 0 F \<and> task_await_resume 0 F = Inl DanglingHandle"
  by (simp add: task_await_ready_def task_await_resume_def)

end
