(* ===== verification/Runtime.thy ===== *)
theory Runtime
  imports Scheduler Coroutines "HOL-Library.Multiset"
begin

text \<open>
  Coroutines on the event loop: the scheduler of \<open>Scheduler\<close> and the coroutine machine of
  \<open>Coroutines\<close> run together.  A coroutine that awaits I/O leaves an awaiter with the ring or a job
  with the thread pool; the completion, or the post of the pool's thread, makes it ready, and the loop
  resumes it with the result found in its awaiter (\<open>scheduler.cc\<close>, \<open>io_operation.cc\<close>, \<open>ops/\<close>,
  \<open>submit_awaiter.hpp\<close>).
\<close>

section \<open>What an action does to the suspended coroutines\<close>

definition waiting :: "('v, 'x) machine \<Rightarrow> handle set" where
  "waiting m = {h. \<exists>f k. co_frames m h = Some f \<and> fr_point f = InIo k}"

lemma waitingI: "co_frames m h = Some f \<Longrightarrow> fr_point f = InIo k \<Longrightarrow> h \<in> waiting m"
  by (auto simp: waiting_def)

lemma waiting_cong: "co_frames m = co_frames m' \<Longrightarrow> waiting m = waiting m'"
  by (simp add: waiting_def)

text \<open>Frames that come and go between two states wait for no I/O.\<close>

lemma waiting_eqI:
  assumes "\<And>h f k. co_frames m h = Some f \<Longrightarrow> fr_point f = InIo k \<Longrightarrow> co_frames m' h = Some f"
    and "\<And>h f k. co_frames m' h = Some f \<Longrightarrow> fr_point f = InIo k \<Longrightarrow> co_frames m h = Some f"
  shows "waiting m' = waiting m"
  unfolding waiting_def using assms by (intro Collect_cong) blast

fun awaits_io :: "('v, 'x) prog \<Rightarrow> nat option" where
  "awaits_io (AwaitIo r k) = Some r"
| "awaits_io _ = None"

lemma finish_waiting:
  assumes ok: "co_ok (co_frames m) (h # co_stack m) (co_next m)" and h: "co_frames m h = Some f0"
    and f: "fr_cont f = fr_cont f0" "outcome (fr_result f) = Some r" and fin: "finish h f m = Inr m'"
  shows "waiting m' = waiting m \<and> co_requests m' = co_requests m"
proof -
  have run: "is_running (fr_point f0)" using co_okD(6) [OF ok h] by simp
  obtain e where e: "co_frames m (fr_cont f) = Some e" "fr_cont f \<noteq> h" "0 < fr_cont f" "0 < h" "1 < co_next m"
      "fr_point e = ShimAwait h \<or> (\<exists>k. fr_point e = InAwait h k)"
    using co_ok_parent [OF ok h] f(1) by metis
  from e(6) show ?thesis
  proof
    assume s: "fr_point e = ShimAwait h"
    show ?thesis
      using finish_shim [OF e(1) s e(2,3,5) refl f(2)] fin e(1) s h run
      by (cases r) (auto intro!: waiting_eqI split: if_splits)
  next
    assume "\<exists>k. fr_point e = InAwait h k"
    then obtain k where k: "fr_point e = InAwait h k" by blast
    have "0 < co_next m" using e(5) by simp
    then show ?thesis
      using finish_await [OF e(1) k e(2,3,4) _ refl f(2)] fin e(1) k h run
      by (auto intro!: waiting_eqI split: if_splits)
  qed
qed

lemma exec_waiting:
  assumes inv: "co_inv m" and na: "\<not> co_aborted m" and st: "co_stack m = h # st" and p: "next_prog m = Some p"
    and ex: "exec m = Inr m'" and io: "awaits_io p = None"
  shows "waiting m' = waiting m \<and> co_requests m' = co_requests m"
proof -
  have ok: "co_ok (co_frames m) (h # st) (co_next m)" using inv na st by (simp add: co_inv_def)
  obtain f where h: "co_frames m h = Some f" "fr_point f = Running p"
    using p st by (auto simp: next_prog_def split: option.splits point.splits)
  have hn: "h < co_next m" "0 < co_next m" using co_okD(1,4) [OF ok] h by auto
  have fresh: "co_frames m (co_next m) = None" "co_frames m (Suc (co_next m)) = None"
    using co_ok_fresh [OF ok] by auto
  let ?m = "m\<lparr>co_stack := st\<rparr>"
  have e: "exec_prog h f p ?m = Inr m'" using ex st h by (simp add: exec_def)
  have w: "waiting ?m = waiting m" by (rule waiting_cong) simp
  show ?thesis
  proof (cases p)
    case (Return v)
    then show ?thesis using finish_waiting [of ?m h f "return_value v f" "Inr v" m'] ok h e w by (simp add: return_value_def)
  next
    case (Throw x)
    then show ?thesis using finish_waiting [of ?m h f "unhandled_exception x f" "Inl x" m'] ok h e w
      by (simp add: unhandled_exception_def)
  next
    case (AwaitTask q k)
    then show ?thesis using exec_await [of ?m h f q k] h hn e fresh
      by (auto intro!: waiting_eqI split: if_splits)
  next
    case (AwaitIo r k)
    then show ?thesis using io by simp
  next
    case (Spawn q q')
    then show ?thesis using exec_spawn [of h ?m f q q'] h hn e fresh
      by (auto intro!: waiting_eqI split: if_splits)
  next
    case (DropTask q q')
    then show ?thesis using exec_drop [of ?m h f q q'] h hn e fresh
      by (auto intro!: waiting_eqI split: if_splits)
  qed
qed

lemma exec_io_waiting:
  assumes inv: "co_inv m" and na: "\<not> co_aborted m" and st: "co_stack m = h # st" and p: "next_prog m = Some p"
    and ex: "exec m = Inr m'" and io: "awaits_io p = Some r"
  shows "waiting m' = insert h (waiting m)" "h \<notin> waiting m" "0 < h" "co_requests m' = co_requests m @ [(h, r)]"
    "co_stack m' = st" "co_aborted m' = co_aborted m"
proof -
  have ok: "co_ok (co_frames m) (h # st) (co_next m)" using inv na st by (simp add: co_inv_def)
  obtain f where h: "co_frames m h = Some f" "fr_point f = Running p"
    using p st by (auto simp: next_prog_def split: option.splits point.splits)
  obtain k where k: "p = AwaitIo r k" using io by (cases p) auto
  have m': "m' = m\<lparr>co_stack := st, co_frames := (co_frames m)(h \<mapsto> f\<lparr>fr_point := InIo k\<rparr>), co_requests := co_requests m @ [(h, r)]\<rparr>"
    using ex st h k by (simp add: exec_def)
  show "waiting m' = insert h (waiting m)" using h m' by (auto simp: waiting_def)
  show "h \<notin> waiting m" using h by (auto simp: waiting_def)
  show "0 < h" using co_okD(3) [OF ok h(1)] .
qed (use assms in \<open>auto simp: exec_def next_prog_def split: option.splits point.splits prog.splits elim!: awaits_io.elims\<close>)

lemma spawn_waiting:
  assumes inv: "co_inv m" and na: "\<not> co_aborted m" and "co_stack m = []" and t: "call_task p m = (t, m1)" "spawn t m1 = Inr m'"
  shows "waiting m' = waiting m \<and> co_requests m' = co_requests m \<and> co_aborted m' = co_aborted m"
proof -
  have ok: "co_ok (co_frames m) [] (co_next m)" using inv na assms(3) by (simp add: co_inv_def)
  have "t = co_next m" "m1 = snd (call_task p m)" using t by (auto simp: call_task_def)
  then show ?thesis using spawn_new [of m p] co_okD(1) [OF ok] co_ok_fresh [OF ok] t(2)
    by (auto intro!: waiting_eqI split: if_splits)
qed

lemma resume_io_waiting:
  assumes "resume_io h r m = Inr m'"
  shows "waiting m' = waiting m - {h} \<and> h \<in> waiting m \<and> co_requests m' = co_requests m \<and> co_aborted m' = co_aborted m"
  using assms by (auto simp: resume_io_def waiting_def split: option.splits point.splits if_splits)

lemma resume_io_defined: "h \<in> waiting m \<Longrightarrow> \<exists>m'. resume_io h r m = Inr m'"
  by (auto simp: waiting_def resume_io_def)


section \<open>The composed state\<close>

text \<open>
  \<open>rt_awaiter\<close> is the awaiter inside the frame of a coroutine that waits for the ring, \<open>rt_jobs\<close> are
  the coroutines whose job a pool thread has still to finish, \<open>rt_job_result\<close> what it left behind.
  A ticket numbers the requests of all coroutines.
\<close>

record ('v, 'x) runtime =
  rt_sched :: sched
  rt_mach :: "('v, 'x) machine"
  rt_awaiter :: "handle \<rightharpoonup> op_addr"
  rt_jobs :: "handle list"
  rt_job_result :: "handle \<rightharpoonup> int"
  rt_ticket :: "handle \<Rightarrow> nat"                     \<comment> \<open>history: the latest request of a coroutine\<close>
  rt_completed :: "(nat \<times> int) list"               \<comment> \<open>history: requests answered by the kernel or the pool\<close>
  rt_delivered :: "(handle \<times> nat \<times> int) list"      \<comment> \<open>history: results handed to coroutines\<close>

definition rt_new :: "nat \<Rightarrow> ('v, 'x) runtime" where
  "rt_new n = \<lparr>rt_sched = sched_new n, rt_mach = machine_new, rt_awaiter = Map.empty, rt_jobs = [],
     rt_job_result = Map.empty, rt_ticket = (\<lambda>h. 0), rt_completed = [], rt_delivered = []\<rparr>"

text \<open>\<open>await_resume\<close>: the result in the awaiter.\<close>

definition rt_result :: "('v, 'x) runtime \<Rightarrow> handle \<Rightarrow> int option" where
  "rt_result R h = (case rt_awaiter R h of
     Some a \<Rightarrow> map_option op_result (ops (rt_sched R) a) | None \<Rightarrow> rt_job_result R h)"

text \<open>What the scheduler holds of awaiters and coroutines.\<close>

fun op_ud :: "user_data \<Rightarrow> op_addr option" where
  "op_ud (UdOp a) = Some a"
| "op_ud _ = None"

definition submitted :: "sched \<Rightarrow> op_addr list" where
  "submitted s = List.map_filter op_ud (sq s @ inflight s)"

definition op_cqe :: "cqe \<Rightarrow> (op_addr \<times> int) option" where
  "op_cqe c = map_option (\<lambda>a. (a, cqe_res c)) (op_ud (cqe_data c))"

definition arrivals :: "sched \<Rightarrow> (op_addr \<times> int) list" where
  "arrivals s = List.map_filter op_cqe (cq s @ batch (pc s))"

definition same_view :: "sched \<Rightarrow> sched \<Rightarrow> bool" where
  "same_view s s' \<longleftrightarrow> mset (submitted s') = mset (submitted s) \<and> mset (arrivals s') = mset (arrivals s)
     \<and> ready s' = ready s \<and> cross_handles s' = cross_handles s \<and> ops s' = ops s \<and> finished s' = finished s"

section \<open>Steps\<close>

text \<open>
  Steps of the coroutine on top of the stack (an awaiter goes to the ring, or to the pool when
  \<open>pooled\<close> says so of the request), of the loop, of the application's other code, of the kernel and of
  other threads.  A one-shot request has one completion; the awaiter of a coroutine does not overlap
  another live one.
\<close>

inductive rt_step :: "env \<Rightarrow> (nat \<Rightarrow> bool) \<Rightarrow> ('v, 'x) runtime \<Rightarrow> ('v, 'x) runtime \<Rightarrow> bool" for env pooled where
  rt_exec: "in_user (pc (rt_sched R)) \<Longrightarrow> next_prog (rt_mach R) = Some p \<Longrightarrow> awaits_io p = None \<Longrightarrow>
    exec (rt_mach R) = Inr m \<Longrightarrow> rt_step env pooled R (R\<lparr>rt_mach := m\<rparr>)"
| rt_ring: "in_user (pc (rt_sched R)) \<Longrightarrow> co_stack (rt_mach R) = h # st \<Longrightarrow> next_prog (rt_mach R) = Some p \<Longrightarrow>
    awaits_io p = Some r \<Longrightarrow> \<not> pooled r \<Longrightarrow> exec (rt_mach R) = Inr m \<Longrightarrow> a \<notin> ran (rt_awaiter R) \<Longrightarrow>
    get_sqe (UdOp a) (rt_sched R) = Some s \<Longrightarrow>
    rt_step env pooled R (R\<lparr>rt_mach := m, rt_sched := prepare_common a h s, rt_awaiter := (rt_awaiter R)(h \<mapsto> a),
      rt_ticket := (rt_ticket R)(h := length (co_requests (rt_mach R)))\<rparr>)"
| rt_pool: "in_user (pc (rt_sched R)) \<Longrightarrow> co_stack (rt_mach R) = h # st \<Longrightarrow> next_prog (rt_mach R) = Some p \<Longrightarrow>
    awaits_io p = Some r \<Longrightarrow> pooled r \<Longrightarrow> exec (rt_mach R) = Inr m \<Longrightarrow>
    rt_step env pooled R (R\<lparr>rt_mach := m, rt_jobs := rt_jobs R @ [h],
      rt_ticket := (rt_ticket R)(h := length (co_requests (rt_mach R)))\<rparr>)"
| rt_spawn: "in_user (pc (rt_sched R)) \<Longrightarrow> pc (rt_sched R) \<noteq> InResume \<Longrightarrow> co_stack (rt_mach R) = [] \<Longrightarrow>
    call_task p (rt_mach R) = (t, m1) \<Longrightarrow> spawn t m1 = Inr m \<Longrightarrow> rt_step env pooled R (R\<lparr>rt_mach := m\<rparr>)"
| rt_stop: "in_user (pc (rt_sched R)) \<Longrightarrow> rt_step env pooled R (R\<lparr>rt_sched := stop_own (rt_sched R)\<rparr>)"
| rt_timer: "in_user (pc (rt_sched R)) \<Longrightarrow> tq_step env (tq (rt_sched R)) q \<Longrightarrow>
    rt_step env pooled R (R\<lparr>rt_sched := (rt_sched R)\<lparr>tq := q\<rparr>\<rparr>)"
| rt_resume: "pc (rt_sched R) = ReadyLoop \<Longrightarrow> ready (rt_sched R) = h # hs \<Longrightarrow> runnable (rt_sched R) h \<Longrightarrow>
    rt_result R h = Some v \<Longrightarrow> resume_io h v (rt_mach R) = Inr m \<Longrightarrow>
    rt_step env pooled R (R\<lparr>rt_mach := m,
      rt_sched := (rt_sched R)\<lparr>ready := hs, popped := popped (rt_sched R) @ [h], pc := InResume\<rparr>,
      rt_awaiter := (rt_awaiter R)(h := None), rt_job_result := (rt_job_result R)(h := None),
      rt_delivered := rt_delivered R @ [(h, rt_ticket R h, v)]\<rparr>)"
| rt_loop: "loop_step env (rt_sched R) s \<Longrightarrow> in_user (pc (rt_sched R)) \<longrightarrow> co_stack (rt_mach R) = [] \<Longrightarrow>
    \<not> (pc (rt_sched R) = ReadyLoop \<and> ready (rt_sched R) \<noteq> [] \<and> runnable (rt_sched R) (hd (ready (rt_sched R)))) \<Longrightarrow>
    rt_step env pooled R (R\<lparr>rt_sched := s\<rparr>)"
| rt_other: "ext_step (rt_sched R) s \<Longrightarrow> same_view (rt_sched R) s \<Longrightarrow> rt_step env pooled R (R\<lparr>rt_sched := s\<rparr>)"
| rt_kernel: "UdOp a \<in> set (inflight (rt_sched R)) \<Longrightarrow> ops (rt_sched R) a = Some op \<Longrightarrow>
    rt_step env pooled R (R\<lparr>rt_sched := (rt_sched R)\<lparr>inflight := remove1 (UdOp a) (inflight (rt_sched R)),
        cq := cq (rt_sched R) @ [\<lparr>cqe_data = UdOp a, cqe_res = v, cqe_more = False\<rparr>]\<rparr>,
      rt_completed := rt_completed R @ [(rt_ticket R (op_handle op), v)]\<rparr>)"
| rt_job_done: "h \<in> set (rt_jobs R) \<Longrightarrow>
    rt_step env pooled R (R\<lparr>rt_jobs := remove1 h (rt_jobs R), rt_job_result := (rt_job_result R)(h \<mapsto> v),
      rt_sched := (post_enqueue h (rt_sched R))\<lparr>wakers := Suc (wakers (rt_sched R))\<rparr>,
      rt_completed := rt_completed R @ [(rt_ticket R h, v)]\<rparr>)"

text \<open>After an uncaught exception the process is gone.\<close>

definition rt_live_step :: "env \<Rightarrow> (nat \<Rightarrow> bool) \<Rightarrow> ('v, 'x) runtime \<Rightarrow> ('v, 'x) runtime \<Rightarrow> bool" where
  "rt_live_step env pooled R R' \<longleftrightarrow> \<not> co_aborted (rt_mach R) \<and> rt_step env pooled R R'"

definition rt_reach :: "env \<Rightarrow> (nat \<Rightarrow> bool) \<Rightarrow> nat \<Rightarrow> ('v, 'x) runtime \<Rightarrow> bool" where
  "rt_reach env pooled n R \<longleftrightarrow> (rt_live_step env pooled)\<^sup>*\<^sup>* (rt_new n) R"

section \<open>The view of the scheduler\<close>

lemma map_filter_append: "List.map_filter f (xs @ ys) = List.map_filter f xs @ List.map_filter f ys"
  by (simp add: List.map_filter_def)

lemma map_filter_remove1:
  "f x = Some y \<Longrightarrow> x \<in> set xs \<Longrightarrow> mset (List.map_filter f xs) = add_mset y (mset (List.map_filter f (remove1 x xs)))"
  by (induction xs) (auto simp: List.map_filter_simps split: option.splits)

lemmas view_simps = submitted_def arrivals_def op_cqe_def map_filter_append List.map_filter_simps

lemma same_viewI:
  assumes "sq s' @ inflight s' = sq s @ inflight s \<or> mset (submitted s') = mset (submitted s)"
    and "mset (arrivals s') = mset (arrivals s)"
    and "ready s' = ready s" "cross_handles s' = cross_handles s" "ops s' = ops s" "finished s' = finished s"
  shows "same_view s s'"
  using assms by (auto simp: same_view_def submitted_def)

text \<open>All steps of the loop but three leave the view alone.\<close>

lemma loop_step_view:
  assumes "loop_step env s s'" and "pc s \<noteq> LoopTop \<or> stopping s"
    and "\<And>c cs. pc s = Completing (c # cs) \<Longrightarrow> op_ud (cqe_data c) = None"
    and "pc s = ReadyLoop \<Longrightarrow> ready s = []"
  shows "same_view s s'"
  using assms(1)
proof cases
  case (task_start f fs)
  obtain q where "s' = s\<lparr>pc := InTask fs, tq := q\<rparr>" using run_task_frame [OF task_start(3)] by auto
  then show ?thesis using task_start(1) by (auto simp: same_view_def view_simps)
next
  case (complete_timer c cs)
  obtain q where "s' = s\<lparr>pc := InTimer cs, tq := q\<rparr>"
    using timerfd_on_complete_frame [OF complete_timer(4)] by auto
  then show ?thesis using complete_timer(1,2) by (auto simp: same_view_def view_simps)
next
  case wait_return
  have "mset (List.map_filter op_cqe (drop kBatch (cq s))) + mset (List.map_filter op_cqe (take kBatch (cq s)))
      = mset (List.map_filter op_cqe (take kBatch (cq s) @ drop kBatch (cq s)))"
    unfolding map_filter_append by simp
  then show ?thesis using wait_return
    by (auto simp: same_view_def submitted_def arrivals_def map_filter_append List.map_filter_simps)
next
  case (complete c cs)
  then show ?thesis using assms(3) [OF complete(1)]
    by (cases "cqe_data c") (auto simp: same_view_def view_simps sched_defs split: option.splits if_splits)
qed (use assms in \<open>auto simp: same_view_def view_simps sched_defs split: option.splits if_splits\<close>)


section \<open>Invariants\<close>

definition handle_of :: "sched \<Rightarrow> op_addr \<Rightarrow> handle" where
  "handle_of s a = op_handle (the (ops s a))"

text \<open>Every place from which a suspended coroutine can be woken.\<close>

definition wakeups :: "('v, 'x) runtime \<Rightarrow> handle multiset" where
  "wakeups R = (let s = rt_sched R in
     image_mset (handle_of s) (mset (submitted s)) + image_mset (\<lambda>(a, v). handle_of s a) (mset (arrivals s))
     + mset (ready s) + mset (cross_handles s) + mset (rt_jobs R))"

text \<open>Each suspended coroutine has exactly one wake-up pending, and live awaiters are found in their frames.\<close>

definition wake_ok :: "('v, 'x) runtime \<Rightarrow> bool" where
  "wake_ok R \<longleftrightarrow> co_inv (rt_mach R) \<and> finished (rt_sched R) = {} \<and> (co_stack (rt_mach R) \<noteq> [] \<longrightarrow> in_user (pc (rt_sched R)))
     \<and> (\<forall>h. count (wakeups R) h = (if h \<in> waiting (rt_mach R) then 1 else 0))
     \<and> (\<forall>a \<in> set (submitted (rt_sched R)) \<union> fst ` set (arrivals (rt_sched R)).
          \<exists>oper. ops (rt_sched R) a = Some oper \<and> rt_awaiter R (op_handle oper) = Some a)
     \<and> (\<forall>h a. rt_awaiter R h = Some a \<longrightarrow> h \<in> waiting (rt_mach R) \<and> (\<exists>oper. ops (rt_sched R) a = Some oper \<and> op_handle oper = h))"

text \<open>A result that is on its way is the one given to the request.\<close>

definition result_ok :: "('v, 'x) runtime \<Rightarrow> bool" where
  "result_ok R \<longleftrightarrow>
     (\<forall>(a, v) \<in> set (arrivals (rt_sched R)). (rt_ticket R (handle_of (rt_sched R) a), v) \<in> set (rt_completed R))
   \<and> (\<forall>h \<in> set (ready (rt_sched R)) \<union> set (cross_handles (rt_sched R)).
        \<exists>v. rt_result R h = Some v \<and> (rt_ticket R h, v) \<in> set (rt_completed R))
   \<and> (\<forall>h \<in> set (rt_jobs R). rt_awaiter R h = None)"

definition unanswered :: "('v, 'x) runtime \<Rightarrow> handle set" where
  "unanswered R = handle_of (rt_sched R) ` set (submitted (rt_sched R)) \<union> set (rt_jobs R)"

definition ticket_ok :: "('v, 'x) runtime \<Rightarrow> bool" where
  "ticket_ok R \<longleftrightarrow>
     (\<forall>h \<in> waiting (rt_mach R). rt_ticket R h < length (co_requests (rt_mach R)) \<and> fst (co_requests (rt_mach R) ! rt_ticket R h) = h
        \<and> rt_ticket R h \<notin> (\<lambda>(h, n, v). n) ` set (rt_delivered R))
   \<and> (\<forall>h \<in> unanswered R. rt_ticket R h \<notin> fst ` set (rt_completed R))
   \<and> distinct (map fst (rt_completed R)) \<and> (\<forall>(n, v) \<in> set (rt_completed R). n < length (co_requests (rt_mach R)))
   \<and> distinct (map (\<lambda>(h, n, v). n) (rt_delivered R))
   \<and> (\<forall>(h, n, v) \<in> set (rt_delivered R). (n, v) \<in> set (rt_completed R) \<and> fst (co_requests (rt_mach R) ! n) = h)"

definition rt_inv :: "('v, 'x) runtime \<Rightarrow> bool" where
  "rt_inv R \<longleftrightarrow> co_aborted (rt_mach R) \<or> wake_ok R \<and> result_ok R \<and> ticket_ok R"

lemma wake_okD:
  assumes "wake_ok R"
  shows "co_inv (rt_mach R)" "finished (rt_sched R) = {}" "co_stack (rt_mach R) \<noteq> [] \<Longrightarrow> in_user (pc (rt_sched R))"
    "count (wakeups R) h = (if h \<in> waiting (rt_mach R) then 1 else 0)"
    "a \<in> set (submitted (rt_sched R)) \<Longrightarrow> \<exists>oper. ops (rt_sched R) a = Some oper \<and> rt_awaiter R (op_handle oper) = Some a"
    "(a, v) \<in> set (arrivals (rt_sched R)) \<Longrightarrow> \<exists>oper. ops (rt_sched R) a = Some oper \<and> rt_awaiter R (op_handle oper) = Some a"
    "rt_awaiter R h = Some a \<Longrightarrow> h \<in> waiting (rt_mach R)"
    "rt_awaiter R h = Some a \<Longrightarrow> \<exists>oper. ops (rt_sched R) a = Some oper \<and> op_handle oper = h"
proof -
  have "\<forall>a \<in> set (submitted (rt_sched R)) \<union> fst ` set (arrivals (rt_sched R)).
      \<exists>oper. ops (rt_sched R) a = Some oper \<and> rt_awaiter R (op_handle oper) = Some a"
    using assms unfolding wake_ok_def by (elim conjE)
  moreover have "(a, v) \<in> set (arrivals (rt_sched R)) \<Longrightarrow> a \<in> fst ` set (arrivals (rt_sched R))" by (metis fst_conv imageI)
  ultimately show "a \<in> set (submitted (rt_sched R)) \<Longrightarrow> \<exists>oper. ops (rt_sched R) a = Some oper \<and> rt_awaiter R (op_handle oper) = Some a"
    "(a, v) \<in> set (arrivals (rt_sched R)) \<Longrightarrow> \<exists>oper. ops (rt_sched R) a = Some oper \<and> rt_awaiter R (op_handle oper) = Some a"
    by blast+
qed (use assms in \<open>auto simp only: wake_ok_def\<close>)

lemma wakeups_waiting: "wake_ok R \<Longrightarrow> h \<in># wakeups R \<Longrightarrow> h \<in> waiting (rt_mach R)"
  using wake_okD(4) [of R h] by (auto split: if_splits simp flip: count_greater_zero_iff)

lemma wakeups_mem:
  "h \<in> set (ready (rt_sched R)) \<Longrightarrow> h \<in># wakeups R" "h \<in> set (cross_handles (rt_sched R)) \<Longrightarrow> h \<in># wakeups R"
  "h \<in> set (rt_jobs R) \<Longrightarrow> h \<in># wakeups R"
  "a \<in> set (submitted (rt_sched R)) \<Longrightarrow> handle_of (rt_sched R) a \<in># wakeups R"
  "(a, v) \<in> set (arrivals (rt_sched R)) \<Longrightarrow> handle_of (rt_sched R) a \<in># wakeups R"
  by (force simp: wakeups_def Let_def)+

text \<open>Two places hold different coroutines.\<close>

lemma wakeups_once:
  assumes "wake_ok R" and "wakeups R = add_mset h M"
  shows "h \<notin># M"
  using wake_okD(4) [OF assms(1), of h] assms(2) by (auto simp: count_eq_zero_iff split: if_splits)

lemma waiting_pos: "co_inv m \<Longrightarrow> \<not> co_aborted m \<Longrightarrow> h \<in> waiting m \<Longrightarrow> 0 < h"
  by (auto simp: co_inv_def waiting_def dest: co_okD(3))

section \<open>Steps that move no wake-up\<close>

lemma view_wakeups:
  assumes "same_view (rt_sched R) s"
  shows "wakeups (R\<lparr>rt_sched := s\<rparr>) = wakeups R" "unanswered (R\<lparr>rt_sched := s\<rparr>) = unanswered R"
    "set (submitted s) = set (submitted (rt_sched R))" "set (arrivals s) = set (arrivals (rt_sched R))"
    "rt_result (R\<lparr>rt_sched := s\<rparr>) = rt_result R" "handle_of s = handle_of (rt_sched R)"
proof -
  have v: "mset (submitted s) = mset (submitted (rt_sched R))" "mset (arrivals s) = mset (arrivals (rt_sched R))"
      "ready s = ready (rt_sched R)" "cross_handles s = cross_handles (rt_sched R)" "ops s = ops (rt_sched R)"
    using assms by (simp_all add: same_view_def)
  show h: "handle_of s = handle_of (rt_sched R)" using v by (intro ext) (simp add: handle_of_def)
  show sets: "set (submitted s) = set (submitted (rt_sched R))" "set (arrivals s) = set (arrivals (rt_sched R))"
    using v(1,2) by (metis set_mset_mset)+
  show "wakeups (R\<lparr>rt_sched := s\<rparr>) = wakeups R" using v h by (simp add: wakeups_def Let_def)
  show "unanswered (R\<lparr>rt_sched := s\<rparr>) = unanswered R" using h sets by (simp add: unanswered_def)
  show "rt_result (R\<lparr>rt_sched := s\<rparr>) = rt_result R" using v by (intro ext) (simp add: rt_result_def split: option.split)
qed

lemma rt_inv_sched:
  assumes inv: "wake_ok R \<and> result_ok R \<and> ticket_ok R" and v: "same_view (rt_sched R) s"
    and st: "co_stack (rt_mach R) \<noteq> [] \<Longrightarrow> in_user (pc s)"
  shows "rt_inv (R\<lparr>rt_sched := s\<rparr>)"
proof -
  have f: "ready s = ready (rt_sched R)" "cross_handles s = cross_handles (rt_sched R)" "ops s = ops (rt_sched R)"
      "finished s = finished (rt_sched R)" using v by (simp_all add: same_view_def)
  note V = view_wakeups [OF v]
  have "wake_ok (R\<lparr>rt_sched := s\<rparr>)" using inv st unfolding wake_ok_def by (simp add: V f)
  moreover have "result_ok (R\<lparr>rt_sched := s\<rparr>)" using inv unfolding result_ok_def by (simp add: V f)
  moreover have "ticket_ok (R\<lparr>rt_sched := s\<rparr>)" using inv unfolding ticket_ok_def by (simp add: V)
  ultimately show ?thesis by (simp add: rt_inv_def)
qed

lemma rt_inv_mach:
  assumes inv: "wake_ok R \<and> result_ok R \<and> ticket_ok R" and m: "co_inv m" "waiting m = waiting (rt_mach R)"
    "co_requests m = co_requests (rt_mach R)" and st: "in_user (pc (rt_sched R))"
  shows "rt_inv (R\<lparr>rt_mach := m\<rparr>)"
proof -
  have w: "wakeups (R\<lparr>rt_mach := m\<rparr>) = wakeups R" "unanswered (R\<lparr>rt_mach := m\<rparr>) = unanswered R"
      "rt_result (R\<lparr>rt_mach := m\<rparr>) = rt_result R"
    by (simp_all add: wakeups_def unanswered_def) (rule ext, simp add: rt_result_def split: option.split)
  have "wake_ok (R\<lparr>rt_mach := m\<rparr>)" using inv m st unfolding wake_ok_def w by simp
  moreover have "result_ok (R\<lparr>rt_mach := m\<rparr>)" using inv unfolding result_ok_def w by simp
  moreover have "ticket_ok (R\<lparr>rt_mach := m\<rparr>)" using inv m unfolding ticket_ok_def w by simp
  ultimately show ?thesis by (simp add: rt_inv_def)
qed


section \<open>Tickets\<close>

lemma ticket_okD:
  assumes "ticket_ok R"
  shows "h \<in> waiting (rt_mach R) \<Longrightarrow> rt_ticket R h < length (co_requests (rt_mach R))"
    "h \<in> waiting (rt_mach R) \<Longrightarrow> fst (co_requests (rt_mach R) ! rt_ticket R h) = h"
    "h \<in> waiting (rt_mach R) \<Longrightarrow> rt_ticket R h \<notin> (\<lambda>(h, n, v). n) ` set (rt_delivered R)"
    "h \<in> unanswered R \<Longrightarrow> rt_ticket R h \<notin> fst ` set (rt_completed R)"
    "distinct (map fst (rt_completed R))" "(n, v) \<in> set (rt_completed R) \<Longrightarrow> n < length (co_requests (rt_mach R))"
    "distinct (map (\<lambda>(h, n, v). n) (rt_delivered R))"
    "(h, n, v) \<in> set (rt_delivered R) \<Longrightarrow> (n, v) \<in> set (rt_completed R) \<and> fst (co_requests (rt_mach R) ! n) = h"
  using assms unfolding ticket_ok_def by blast+

lemma ticket_inj: "ticket_ok R \<Longrightarrow> g \<in> waiting (rt_mach R) \<Longrightarrow> h \<in> waiting (rt_mach R) \<Longrightarrow>
    rt_ticket R g = rt_ticket R h \<Longrightarrow> g = h"
  using ticket_okD(2) by metis

lemma unanswered_waiting: "wake_ok R \<Longrightarrow> h \<in> unanswered R \<Longrightarrow> h \<in> waiting (rt_mach R)"
  unfolding unanswered_def using wakeups_waiting wakeups_mem(3,4) by blast

text \<open>A new request.\<close>

lemma ticket_request:
  assumes t: "ticket_ok R" and w: "wake_ok R" and h: "h \<notin> waiting (rt_mach R)"
    and R': "waiting (rt_mach R') = insert h (waiting (rt_mach R))" "co_requests (rt_mach R') = co_requests (rt_mach R) @ [(h, r)]"
      "rt_ticket R' = (rt_ticket R)(h := length (co_requests (rt_mach R)))" "rt_completed R' = rt_completed R"
      "rt_delivered R' = rt_delivered R" "unanswered R' \<subseteq> insert h (unanswered R)"
  shows "ticket_ok R'"
proof -
  note D = ticket_okD [OF t]
  have len: "length (co_requests (rt_mach R)) \<notin> fst ` set (rt_completed R)" using D(6) by fastforce
  have dl: "n < length (co_requests (rt_mach R))" if "(g, n, v) \<in> set (rt_delivered R)" for g n v
    using D(6,8) that by blast
  have u: "g \<noteq> h" if "g \<in> unanswered R" for g using unanswered_waiting [OF w that] h by auto
  show ?thesis
    unfolding ticket_ok_def R'(1-5)
  proof (intro conjI ballI)
    fix g assume g: "g \<in> insert h (waiting (rt_mach R))"
    show "((rt_ticket R)(h := length (co_requests (rt_mach R)))) g < length (co_requests (rt_mach R) @ [(h, r)])"
      using g D(1) by (auto intro: less_SucI)
    show "fst ((co_requests (rt_mach R) @ [(h, r)]) ! ((rt_ticket R)(h := length (co_requests (rt_mach R)))) g) = g"
      using g D(1,2) h by (auto simp: nth_append)
    show "((rt_ticket R)(h := length (co_requests (rt_mach R)))) g \<notin> (\<lambda>(h, n, v). n) ` set (rt_delivered R)"
      using g D(3) h dl [of _ "length (co_requests (rt_mach R))"] by (cases "g = h") auto
  next
    fix g assume "g \<in> unanswered R'"
    then have "g = h \<or> g \<noteq> h \<and> g \<in> unanswered R" using R'(6) u by blast
    then show "((rt_ticket R)(h := length (co_requests (rt_mach R)))) g \<notin> fst ` set (rt_completed R)"
      using len D(4) by auto
  next
    show "case x of (n, v) \<Rightarrow> n < length (co_requests (rt_mach R) @ [(h, r)])" if "x \<in> set (rt_completed R)" for x
      using that D(6) by (auto intro: less_SucI)
    show "case x of (g, n, v) \<Rightarrow> (n, v) \<in> set (rt_completed R) \<and> fst ((co_requests (rt_mach R) @ [(h, r)]) ! n) = g"
      if "x \<in> set (rt_delivered R)" for x
      using that D(8) dl by (auto simp: nth_append)
  qed (rule D(5) D(7))+
qed

text \<open>An answer.\<close>

lemma ticket_answer:
  assumes t: "ticket_ok R" and w: "wake_ok R" and h: "h \<in> unanswered R"
    and R': "rt_mach R' = rt_mach R" "rt_ticket R' = rt_ticket R" "rt_completed R' = rt_completed R @ [(rt_ticket R h, v)]"
      "rt_delivered R' = rt_delivered R" "unanswered R' \<subseteq> unanswered R - {h}"
  shows "ticket_ok R'"
proof -
  note D = ticket_okD [OF t]
  have hw: "h \<in> waiting (rt_mach R)" by (rule unanswered_waiting [OF w h])
  show ?thesis
    unfolding ticket_ok_def R'(1-4)
  proof (intro conjI ballI)
    show "distinct (map fst (rt_completed R @ [(rt_ticket R h, v)]))" using D(4) [OF h] D(5) by simp
    show "rt_ticket R g \<notin> fst ` set (rt_completed R @ [(rt_ticket R h, v)])" if "g \<in> unanswered R'" for g
    proof -
      have g: "g \<in> unanswered R" "g \<noteq> h" using that R'(5) by auto
      then show ?thesis using D(4) [OF g(1)] ticket_inj [OF t unanswered_waiting [OF w g(1)] hw] by auto
    qed
    show "case x of (n, u) \<Rightarrow> n < length (co_requests (rt_mach R))"
      if "x \<in> set (rt_completed R @ [(rt_ticket R h, v)])" for x
    proof (cases "x \<in> set (rt_completed R)")
      case True
      then show ?thesis using D(6) by auto
    next
      case False
      then show ?thesis using that D(1) [OF hw] by auto
    qed
    show "case x of (g, n, u) \<Rightarrow> (n, u) \<in> set (rt_completed R @ [(rt_ticket R h, v)]) \<and> fst (co_requests (rt_mach R) ! n) = g"
      if "x \<in> set (rt_delivered R)" for x
      using that D(8) by auto
  qed (use D in auto)
qed

text \<open>A delivery.\<close>

lemma ticket_delivery:
  assumes t: "ticket_ok R" and h: "h \<in> waiting (rt_mach R)" "(rt_ticket R h, v) \<in> set (rt_completed R)"
    and R': "waiting (rt_mach R') = waiting (rt_mach R) - {h}" "co_requests (rt_mach R') = co_requests (rt_mach R)"
      "rt_ticket R' = rt_ticket R" "rt_completed R' = rt_completed R"
      "rt_delivered R' = rt_delivered R @ [(h, rt_ticket R h, v)]" "unanswered R' \<subseteq> unanswered R"
  shows "ticket_ok R'"
proof -
  note D = ticket_okD [OF t]
  show ?thesis
    unfolding ticket_ok_def R'(1-5)
  proof (intro conjI ballI)
    show "rt_ticket R g \<notin> (\<lambda>(h, n, v). n) ` set (rt_delivered R @ [(h, rt_ticket R h, v)])"
      if "g \<in> waiting (rt_mach R) - {h}" for g
      using that D(3) [of g] ticket_inj [OF t _ h(1), of g] by auto
    show "distinct (map (\<lambda>(h, n, v). n) (rt_delivered R @ [(h, rt_ticket R h, v)]))" using D(7) D(3) [OF h(1)] by auto
    show "case x of (g, n, u) \<Rightarrow> (n, u) \<in> set (rt_completed R) \<and> fst (co_requests (rt_mach R) ! n) = g"
      if "x \<in> set (rt_delivered R @ [(h, rt_ticket R h, v)])" for x
    proof (cases "x \<in> set (rt_delivered R)")
      case True
      then show ?thesis using D(8) by auto
    next
      case False
      then show ?thesis using that D(2) [OF h(1)] h(2) by auto
    qed
    show "rt_ticket R g \<notin> fst ` set (rt_completed R)" if "g \<in> unanswered R'" for g
      using D(4) R'(6) that by blast
  qed (use D in auto)
qed


section \<open>Steps that move a wake-up\<close>

lemma count_insert:
  assumes "\<forall>h. count M h = (if h \<in> W then 1 else 0)" and "h \<notin> W"
  shows "\<forall>g. count (add_mset h M) g = (if g \<in> insert h W then 1 else 0)"
  using assms by auto

lemma count_remove:
  assumes "\<forall>g. count (add_mset h M) g = (if g \<in> W then 1 else 0)"
  shows "\<forall>g. count M g = (if g \<in> W - {h} then 1 else 0)"
proof
  fix g
  have "count (add_mset h M) g = (if g \<in> W then 1 else 0)" using assms by blast
  then show "count M g = (if g \<in> W - {h} then 1 else 0)" by (cases "g = h") (auto split: if_splits)
qed

text \<open>A suspended coroutine's awaiter is not overwritten by the preparation of another one.\<close>

lemma prepare_frame:
  assumes "b \<noteq> a"
  shows "handle_of (prepare_common a h s) b = handle_of s b" "ops (prepare_common a h s) b = ops s b"
  using assms by (simp_all add: handle_of_def prepare_common_def)

lemma ring_step_inv:
  assumes inv: "wake_ok R" "result_ok R" "ticket_ok R" and na: "\<not> co_aborted (rt_mach R)" and us: "in_user (pc (rt_sched R))"
    and ex: "co_stack (rt_mach R) = h # st" "next_prog (rt_mach R) = Some p" "awaits_io p = Some r" "exec (rt_mach R) = Inr m"
    and a: "a \<notin> ran (rt_awaiter R)" and s1: "get_sqe (UdOp a) (rt_sched R) = Some s1"
  shows "rt_inv (R\<lparr>rt_mach := m, rt_sched := prepare_common a h s1, rt_awaiter := (rt_awaiter R)(h \<mapsto> a),
      rt_ticket := (rt_ticket R)(h := length (co_requests (rt_mach R)))\<rparr>)" (is "rt_inv ?R")
proof -
  note W = wake_okD [OF inv(1)]
  note E = exec_io_waiting [OF W(1) na ex(1,2,4,3)]
  have m: "co_inv m" using exec_ok [OF W(1) na ex(1)] ex(4) by auto
  let ?s = "rt_sched R" and ?t = "prepare_common a h s1"
  have s1: "s1 = ?s\<lparr>sq := sq ?s @ [UdOp a]\<rparr>" using s1 by (auto simp: get_sqe_def split: if_splits)
  have t: "arrivals ?t = arrivals ?s" "ready ?t = ready ?s" "cross_handles ?t = cross_handles ?s" "finished ?t = finished ?s"
      "pc ?t = pc ?s" "mset (submitted ?t) = add_mset a (mset (submitted ?s))"
    by (simp_all add: s1 prepare_common_def view_simps)
  have sub: "set (submitted ?t) = insert a (set (submitted ?s))" using t(6) by (metis set_mset_add_mset_insert set_mset_mset)
  have ha: "handle_of ?t a = h" by (simp add: handle_of_def prepare_common_def)
  have ne: "b \<noteq> a" if "rt_awaiter R g = Some b" for g b using a that by (auto simp: ran_def)
  have nb: "b \<noteq> a" "handle_of ?s b \<noteq> h" "handle_of ?t b = handle_of ?s b" "ops ?t b = ops ?s b"
    if b: "b \<in> set (submitted ?s) \<or> (b, v) \<in> set (arrivals ?s)" for b v
  proof -
    obtain oper where "ops ?s b = Some oper" "rt_awaiter R (op_handle oper) = Some b" using W(5,6) b by blast
    then show "b \<noteq> a" "handle_of ?s b \<noteq> h" using ne W(7) E(2) by (auto simp: handle_of_def)
    then show "handle_of ?t b = handle_of ?s b" "ops ?t b = ops ?s b" using prepare_frame [of b a h s1] s1 by (simp_all add: handle_of_def)
  qed
  have "image_mset (handle_of ?t) (mset (submitted ?s)) = image_mset (handle_of ?s) (mset (submitted ?s))"
      "image_mset (\<lambda>(b, v). handle_of ?t b) (mset (arrivals ?s)) = image_mset (\<lambda>(b, v). handle_of ?s b) (mset (arrivals ?s))"
    using nb(3) by (intro image_mset_cong; force)+
  then have w: "wakeups ?R = add_mset h (wakeups R)" by (simp add: wakeups_def Let_def t ha)
  have "wake_ok ?R"
    unfolding wake_ok_def
  proof (intro conjI)
    show "\<forall>g. count (wakeups ?R) g = (if g \<in> waiting (rt_mach ?R) then 1 else 0)"
      using count_insert [of "wakeups R" "waiting (rt_mach R)" h] W(4) E(1,2) by (simp add: w)
    show "\<forall>b \<in> set (submitted (rt_sched ?R)) \<union> fst ` set (arrivals (rt_sched ?R)).
        \<exists>oper. ops (rt_sched ?R) b = Some oper \<and> rt_awaiter ?R (op_handle oper) = Some b"
    proof
      fix b assume "b \<in> set (submitted (rt_sched ?R)) \<union> fst ` set (arrivals (rt_sched ?R))"
      then consider "b = a" | v where "b \<in> set (submitted ?s) \<or> (b, v) \<in> set (arrivals ?s)" by (fastforce simp: sub t)
      then show "\<exists>oper. ops (rt_sched ?R) b = Some oper \<and> rt_awaiter ?R (op_handle oper) = Some b"
      proof cases
        case 1
        then show ?thesis by (simp add: prepare_common_def)
      next
        case (2 v)
        obtain oper where op: "ops ?s b = Some oper" "rt_awaiter R (op_handle oper) = Some b" using W(5,6) 2 by blast
        then have "op_handle oper \<noteq> h" using nb(2) [OF 2] by (simp add: handle_of_def)
        with op nb(4) [OF 2] show ?thesis by simp
      qed
    qed
    show "\<forall>g b. rt_awaiter ?R g = Some b \<longrightarrow> g \<in> waiting (rt_mach ?R) \<and> (\<exists>oper. ops (rt_sched ?R) b = Some oper \<and> op_handle oper = g)"
    proof (intro allI impI)
      fix g b assume "rt_awaiter ?R g = Some b"
      then consider "g = h" "b = a" | "g \<noteq> h" "rt_awaiter R g = Some b" by (auto split: if_splits)
      then show "g \<in> waiting (rt_mach ?R) \<and> (\<exists>oper. ops (rt_sched ?R) b = Some oper \<and> op_handle oper = g)"
      proof cases
        case 1
        then show ?thesis using E(1) by (simp add: prepare_common_def)
      next
        case 2
        then show ?thesis using W(7,8) [OF 2(2)] E(1) ne [OF 2(2)] s1 by (simp add: prepare_common_def)
      qed
    qed
  qed (use m W(2) us t in simp_all)
  moreover have "result_ok ?R"
  proof -
    have g: "g \<noteq> h" if "g \<in># wakeups R" for g using wakeups_waiting [OF inv(1) that] E(2) by auto
    have res: "rt_result ?R g = rt_result R g" if "g \<noteq> h" for g
      using that ne [of g] s1 by (auto simp: rt_result_def prepare_common_def split: option.splits)
    have "(rt_ticket ?R (handle_of ?t b), v) \<in> set (rt_completed R)" if "(b, v) \<in> set (arrivals ?s)" for b v
      using inv(2) that nb(2,3) [of b v] by (auto simp: result_ok_def)
    moreover have "\<exists>v. rt_result ?R g = Some v \<and> (rt_ticket ?R g, v) \<in> set (rt_completed R)"
      if "g \<in> set (ready ?s) \<union> set (cross_handles ?s)" for g
      using inv(2) that g [of g] wakeups_mem(1,2) [of g R] res [of g] by (auto simp: result_ok_def)
    moreover have "rt_awaiter ?R g = None" if "g \<in> set (rt_jobs R)" for g
      using inv(2) that g [OF wakeups_mem(3) [OF that]] by (auto simp: result_ok_def)
    ultimately show ?thesis by (auto simp: result_ok_def t)
  qed
  moreover have "ticket_ok ?R"
  proof (rule ticket_request [OF inv(3,1) E(2), where r = r])
    show "unanswered ?R \<subseteq> insert h (unanswered R)" using nb(3) ha by (auto simp: unanswered_def sub)
  qed (use E in simp_all)
  ultimately show ?thesis by (simp add: rt_inv_def)
qed

lemma pool_step_inv:
  assumes inv: "wake_ok R" "result_ok R" "ticket_ok R" and na: "\<not> co_aborted (rt_mach R)" and us: "in_user (pc (rt_sched R))"
    and ex: "co_stack (rt_mach R) = h # st" "next_prog (rt_mach R) = Some p" "awaits_io p = Some r" "exec (rt_mach R) = Inr m"
  shows "rt_inv (R\<lparr>rt_mach := m, rt_jobs := rt_jobs R @ [h],
      rt_ticket := (rt_ticket R)(h := length (co_requests (rt_mach R)))\<rparr>)" (is "rt_inv ?R")
proof -
  note W = wake_okD [OF inv(1)]
  note E = exec_io_waiting [OF W(1) na ex(1,2,4,3)]
  have m: "co_inv m" using exec_ok [OF W(1) na ex(1)] ex(4) by auto
  have g: "g \<noteq> h" if "g \<in># wakeups R" for g using wakeups_waiting [OF inv(1) that] E(2) by auto
  have res: "rt_result ?R = rt_result R" by (intro ext) (simp add: rt_result_def split: option.split)
  have w: "wakeups ?R = add_mset h (wakeups R)" by (simp add: wakeups_def Let_def)
  have "wake_ok ?R"
    unfolding wake_ok_def
  proof (intro conjI)
    show "\<forall>g. count (wakeups ?R) g = (if g \<in> waiting (rt_mach ?R) then 1 else 0)"
      using count_insert [of "wakeups R" "waiting (rt_mach R)" h] W(4) E(1,2) by (simp add: w)
  qed (use m W us E in \<open>force+\<close>)
  moreover have "result_ok ?R"
  proof -
    have "rt_awaiter R h = None" using W(7) E(2) by (cases "rt_awaiter R h") auto
    moreover have "handle_of (rt_sched R) b \<noteq> h" if "(b, v) \<in> set (arrivals (rt_sched R))" for b v
      using g [OF wakeups_mem(5) [OF that]] by auto
    moreover have "x \<noteq> h" if "x \<in> set (ready (rt_sched R)) \<union> set (cross_handles (rt_sched R))" for x
      using g [OF wakeups_mem(1)] g [OF wakeups_mem(2)] that by auto
    ultimately show ?thesis using inv(2) unfolding result_ok_def res by fastforce
  qed
  moreover have "ticket_ok ?R"
    by (rule ticket_request [OF inv(3,1) E(2), where r = r]) (use E in \<open>auto simp: unanswered_def\<close>)
  ultimately show ?thesis by (simp add: rt_inv_def)
qed


text \<open>The other steps keep the machine's suspended coroutines, or resume one.\<close>

lemma resume_step_inv:
  assumes inv: "wake_ok R" "result_ok R" "ticket_ok R" and na: "\<not> co_aborted (rt_mach R)"
    and p: "pc (rt_sched R) = ReadyLoop" "ready (rt_sched R) = h # hs"
    and v: "rt_result R h = Some v" "resume_io h v (rt_mach R) = Inr m"
  shows "rt_inv (R\<lparr>rt_mach := m,
      rt_sched := (rt_sched R)\<lparr>ready := hs, popped := popped (rt_sched R) @ [h], pc := InResume\<rparr>,
      rt_awaiter := (rt_awaiter R)(h := None), rt_job_result := (rt_job_result R)(h := None),
      rt_delivered := rt_delivered R @ [(h, rt_ticket R h, v)]\<rparr>)" (is "rt_inv ?R")
proof -
  note W = wake_okD [OF inv(1)]
  note E = resume_io_waiting [OF v(2)]
  let ?s = "rt_sched R" and ?t = "(rt_sched R)\<lparr>ready := hs, popped := popped (rt_sched R) @ [h], pc := InResume\<rparr>"
  have st: "co_stack (rt_mach R) = []" using W(3) p(1) by auto
  obtain f k where "co_frames (rt_mach R) h = Some f" "fr_point f = InIo k" using E by (auto simp: waiting_def)
  from resume_io_ok [OF W(1) na st this, of v] have m: "co_inv m" using v(2) by auto
  have t: "submitted ?t = submitted ?s" "arrivals ?t = arrivals ?s" "handle_of ?t = handle_of ?s"
    using p(1) by (simp_all add: view_simps) (rule ext, simp add: handle_of_def)
  have w: "wakeups R = add_mset h (wakeups ?R)" by (simp add: wakeups_def Let_def t p(2))
  have nw: "g \<noteq> h" if "g \<in># wakeups ?R" for g using wakeups_once [OF inv(1) w] that by auto
  have na': "handle_of ?s b \<noteq> h" if "b \<in> set (submitted ?s) \<or> (b, u) \<in> set (arrivals ?s)" for b u
    using that nw [OF wakeups_mem(4), of b] nw [OF wakeups_mem(5), of b u] by (auto simp: t)
  have "wake_ok ?R"
    unfolding wake_ok_def
  proof (intro conjI)
    show "\<forall>g. count (wakeups ?R) g = (if g \<in> waiting (rt_mach ?R) then 1 else 0)"
      using count_remove [of h "wakeups ?R" "waiting (rt_mach R)"] W(4) E by (simp add: w [symmetric])
    show "\<forall>b \<in> set (submitted (rt_sched ?R)) \<union> fst ` set (arrivals (rt_sched ?R)).
        \<exists>oper. ops (rt_sched ?R) b = Some oper \<and> rt_awaiter ?R (op_handle oper) = Some b"
    proof
      fix b assume "b \<in> set (submitted (rt_sched ?R)) \<union> fst ` set (arrivals (rt_sched ?R))"
      then obtain u where b: "b \<in> set (submitted ?s) \<or> (b, u) \<in> set (arrivals ?s)" by (fastforce simp: t)
      then obtain oper where "ops ?s b = Some oper" "rt_awaiter R (op_handle oper) = Some b" using W(5,6) by blast
      with na' [OF b] show "\<exists>oper. ops (rt_sched ?R) b = Some oper \<and> rt_awaiter ?R (op_handle oper) = Some b"
        by (auto simp: handle_of_def)
    qed
    show "\<forall>g b. rt_awaiter ?R g = Some b \<longrightarrow> g \<in> waiting (rt_mach ?R) \<and> (\<exists>oper. ops (rt_sched ?R) b = Some oper \<and> op_handle oper = g)"
      using W(7,8) E by auto
  qed (use m W(2) in simp_all)
  moreover have "result_ok ?R"
  proof -
    have res: "rt_result ?R g = rt_result R g" if "g \<noteq> h" for g using that by (simp add: rt_result_def split: option.split)
    have "x \<noteq> h \<and> x \<in> set (ready ?s) \<union> set (cross_handles ?s)" if "x \<in> set hs \<union> set (cross_handles ?s)" for x
      using that nw [OF wakeups_mem(1), of x] nw [OF wakeups_mem(2), of x] p(2) by auto
    then show ?thesis using inv(2) res unfolding result_ok_def by (auto simp: t)
  qed
  moreover have "ticket_ok ?R"
  proof (rule ticket_delivery [OF inv(3), where h = h and v = v])
    show "(rt_ticket R h, v) \<in> set (rt_completed R)" using inv(2) p(2) v(1) by (auto simp: result_ok_def)
    show "unanswered ?R \<subseteq> unanswered R" by (simp add: unanswered_def t)
  qed (use E in simp_all)
  ultimately show ?thesis by (simp add: rt_inv_def)
qed

lemma kernel_step_inv:
  assumes inv: "wake_ok R" "result_ok R" "ticket_ok R"
    and a: "UdOp a \<in> set (inflight (rt_sched R))" "ops (rt_sched R) a = Some oper"
  shows "rt_inv (R\<lparr>rt_sched := (rt_sched R)\<lparr>inflight := remove1 (UdOp a) (inflight (rt_sched R)),
        cq := cq (rt_sched R) @ [\<lparr>cqe_data = UdOp a, cqe_res = v, cqe_more = False\<rparr>]\<rparr>,
      rt_completed := rt_completed R @ [(rt_ticket R (op_handle oper), v)]\<rparr>)" (is "rt_inv ?R")
proof -
  note W = wake_okD [OF inv(1)]
  let ?s = "rt_sched R"
  let ?t = "?s\<lparr>inflight := remove1 (UdOp a) (inflight ?s), cq := cq ?s @ [\<lparr>cqe_data = UdOp a, cqe_res = v, cqe_more = False\<rparr>]\<rparr>"
  have h: "handle_of ?s a = op_handle oper" using a(2) by (simp add: handle_of_def)
  have ho: "handle_of ?t = handle_of ?s" by (intro ext) (simp add: handle_of_def)
  have sub: "mset (submitted ?s) = add_mset a (mset (submitted ?t))"
    using map_filter_remove1 [of op_ud "UdOp a" a "inflight ?s"] a(1) by (simp add: submitted_def map_filter_append)
  have arr: "mset (arrivals ?t) = add_mset (a, v) (mset (arrivals ?s))" by (simp add: view_simps)
  have sets: "set (submitted ?s) = insert a (set (submitted ?t))" "set (arrivals ?t) = insert (a, v) (set (arrivals ?s))"
    using sub arr by (metis set_mset_add_mset_insert set_mset_mset)+
  have w: "wakeups ?R = wakeups R" using sub arr h by (simp add: wakeups_def Let_def ho)
  have un: "unanswered ?R \<subseteq> unanswered R - {op_handle oper}"
  proof -
    have "wakeups R = add_mset (op_handle oper) (image_mset (handle_of ?s) (mset (submitted ?t))
        + image_mset (\<lambda>(b, v). handle_of ?s b) (mset (arrivals ?s))
        + mset (ready ?s) + mset (cross_handles ?s) + mset (rt_jobs R))"
      using sub h by (simp add: wakeups_def Let_def)
    from wakeups_once [OF inv(1) this]
    have "op_handle oper \<notin> handle_of ?s ` set (submitted ?t) \<union> set (rt_jobs R)" by simp
    then show ?thesis unfolding unanswered_def by (simp add: ho sets(1)) blast
  qed
  have "wake_ok ?R"
    using inv(1) unfolding wake_ok_def w by (auto simp: sets)
  moreover have "result_ok ?R"
  proof -
    have "rt_result ?R = rt_result R" by (intro ext) (simp add: rt_result_def split: option.split)
    then show ?thesis using inv(2) h unfolding result_ok_def by (auto simp: sets(2) ho)
  qed
  moreover have "ticket_ok ?R"
    by (rule ticket_answer [OF inv(3,1), where h = "op_handle oper" and v = v])
      (use un sets h in \<open>auto simp: unanswered_def\<close>)
  ultimately show ?thesis by (simp add: rt_inv_def)
qed

text \<open>What was on its way stays right; what becomes ready has a result.\<close>

lemma result_ok_frame:
  assumes ok: "result_ok R"
    and same: "handle_of (rt_sched R') = handle_of (rt_sched R)" "rt_ticket R' = rt_ticket R" "rt_awaiter R' = rt_awaiter R"
      "set (rt_jobs R') \<subseteq> set (rt_jobs R)" "set (arrivals (rt_sched R')) \<subseteq> set (arrivals (rt_sched R))"
      "set (rt_completed R) \<subseteq> set (rt_completed R')"
    and new: "\<And>g. g \<in> set (ready (rt_sched R')) \<union> set (cross_handles (rt_sched R')) \<Longrightarrow>
      (\<exists>v. rt_result R' g = Some v \<and> (rt_ticket R g, v) \<in> set (rt_completed R'))
      \<or> g \<in> set (ready (rt_sched R)) \<union> set (cross_handles (rt_sched R)) \<and> rt_result R' g = rt_result R g"
  shows "result_ok R'"
  unfolding result_ok_def
proof (intro conjI ballI)
  show "case x of (a, v) \<Rightarrow> (rt_ticket R' (handle_of (rt_sched R') a), v) \<in> set (rt_completed R')"
    if "x \<in> set (arrivals (rt_sched R'))" for x
    using that ok same(5,6) unfolding result_ok_def same(1,2) by blast
  show "\<exists>v. rt_result R' g = Some v \<and> (rt_ticket R' g, v) \<in> set (rt_completed R')"
    if "g \<in> set (ready (rt_sched R')) \<union> set (cross_handles (rt_sched R'))" for g
    using new [OF that] ok same(6) unfolding result_ok_def same(2) by fastforce
  show "rt_awaiter R' g = None" if "g \<in> set (rt_jobs R')" for g
    using that ok same(4) unfolding result_ok_def same(3) by blast
qed

lemma job_step_inv:
  assumes inv: "wake_ok R" "result_ok R" "ticket_ok R" and h: "h \<in> set (rt_jobs R)"
  shows "rt_inv (R\<lparr>rt_jobs := remove1 h (rt_jobs R), rt_job_result := (rt_job_result R)(h \<mapsto> v),
      rt_sched := (post_enqueue h (rt_sched R))\<lparr>wakers := Suc (wakers (rt_sched R))\<rparr>,
      rt_completed := rt_completed R @ [(rt_ticket R h, v)]\<rparr>)" (is "rt_inv ?R")
proof -
  note W = wake_okD [OF inv(1)]
  let ?s = "rt_sched R" and ?t = "(post_enqueue h (rt_sched R))\<lparr>wakers := Suc (wakers (rt_sched R))\<rparr>"
  have t: "submitted ?t = submitted ?s" "arrivals ?t = arrivals ?s" "ready ?t = ready ?s" "cross_handles ?t = cross_handles ?s @ [h]"
      "ops ?t = ops ?s" "pc ?t = pc ?s" "finished ?t = finished ?s"
    by (simp_all add: view_simps post_enqueue_def)
  have ho: "handle_of ?t = handle_of ?s" by (intro ext) (simp only: handle_of_def t)
  have jobs: "mset (rt_jobs R) = add_mset h (mset (remove1 h (rt_jobs R)))" using h by simp
  have w: "wakeups ?R = wakeups R" by (simp add: wakeups_def Let_def ho t jobs del: mset_remove1)
  obtain M where M: "wakeups R = add_mset h M" "set_mset M = handle_of ?s ` set (submitted ?s) \<union> (\<lambda>(a, v). handle_of ?s a) ` set (arrivals ?s)
      \<union> set (ready ?s) \<union> set (cross_handles ?s) \<union> set (remove1 h (rt_jobs R))"
    using jobs by (simp add: wakeups_def Let_def del: mset_remove1)
  note nh = wakeups_once [OF inv(1) M(1), unfolded M(2)]
  have q: "rt_sched ?R = ?t" "rt_mach ?R = rt_mach R" "rt_awaiter ?R = rt_awaiter R" by simp_all
  have "wake_ok ?R" using inv(1) unfolding wake_ok_def w q t ho by simp
  moreover have "result_ok ?R"
  proof -
    have "rt_awaiter R h = None" using inv(2) h by (simp add: result_ok_def)
    then have "rt_result ?R h = Some v" by (simp add: rt_result_def)
    moreover have "rt_result ?R g = rt_result R g" if "g \<noteq> h" for g
      using that t(5) by (simp add: rt_result_def split: option.split)
    moreover have "g \<noteq> h" if "g \<in> set (ready ?s) \<union> set (cross_handles ?s)" for g using that nh by auto
    ultimately show ?thesis
      by (intro result_ok_frame [OF inv(2)]) (use set_remove1_subset [of h "rt_jobs R"] in \<open>auto simp: q t ho\<close>)
  qed
  moreover have "ticket_ok ?R"
  proof (rule ticket_answer [OF inv(3,1), where h = h and v = v])
    show "unanswered ?R \<subseteq> unanswered R - {h}"
      using nh set_remove1_subset [of h "rt_jobs R"] unfolding unanswered_def q t ho by auto
  qed (use h in \<open>simp_all add: unanswered_def\<close>)
  ultimately show ?thesis by (simp add: rt_inv_def)
qed

text \<open>Posted handles move to the ready queue; a completion fills its awaiter.\<close>

lemma drain_step_inv:
  assumes inv: "wake_ok R" "result_ok R" "ticket_ok R" and na: "\<not> co_aborted (rt_mach R)"
    and st: "co_stack (rt_mach R) = []" and p: "pc (rt_sched R) = LoopTop"
  shows "rt_inv (R\<lparr>rt_sched := drain_cross_queue (rt_sched R)\<rparr>)" (is "rt_inv ?R")
proof -
  let ?s = "rt_sched R" and ?t = "drain_cross_queue (rt_sched R)"
  note W = wake_okD [OF inv(1)]
  have "runnable ?s h" if "h \<in> set (cross_handles ?s)" for h
    using waiting_pos [OF W(1) na wakeups_waiting [OF inv(1) wakeups_mem(2) [OF that]]] W(2) by (simp add: runnable_def)
  then have "filter (runnable ?s) (cross_handles ?s) = cross_handles ?s" by (rule filter_True [OF ballI])
  then have t: "submitted ?t = submitted ?s" "arrivals ?t = arrivals ?s" "ready ?t = ready ?s @ cross_handles ?s"
      "cross_handles ?t = []" "ops ?t = ops ?s" "finished ?t = finished ?s"
    using p by (simp_all add: view_simps drain_eq)
  have ho: "handle_of ?t = handle_of ?s" by (intro ext) (simp only: handle_of_def t)
  have w: "wakeups ?R = wakeups R" by (simp add: wakeups_def Let_def ho t)
  have un: "unanswered ?R = unanswered R" by (simp add: unanswered_def ho t)
  have res: "rt_result ?R = rt_result R" by (intro ext) (simp add: rt_result_def t split: option.split)
  have q: "rt_sched ?R = ?t" "rt_mach ?R = rt_mach R" "rt_awaiter ?R = rt_awaiter R" by simp_all
  have "wake_ok ?R" using inv(1) st unfolding wake_ok_def w q t ho by simp
  moreover have "result_ok ?R" using inv(2) unfolding result_ok_def res q t ho by simp
  moreover have "ticket_ok ?R" using inv(3) unfolding ticket_ok_def un q by simp
  ultimately show ?thesis by (simp add: rt_inv_def)
qed

lemma complete_step_inv:
  assumes inv: "wake_ok R" "result_ok R" "ticket_ok R" and na: "\<not> co_aborted (rt_mach R)"
    and st: "co_stack (rt_mach R) = []" and p: "pc (rt_sched R) = Completing (c # cs)" "cqe_data c = UdOp a"
    and t: "dispatch c ((rt_sched R)\<lparr>pc := Completing cs\<rparr>) = Inr t"
  shows "rt_inv (R\<lparr>rt_sched := t\<rparr>)" (is "rt_inv ?R")
proof -
  let ?s = "rt_sched R" and ?t = t
  note W = wake_okD [OF inv(1)]
  have arr: "mset (arrivals ?s) = add_mset (a, cqe_res c) (mset (arrivals (?s\<lparr>pc := Completing cs\<rparr>)))"
    using p by (simp add: view_simps)
  have a: "(a, cqe_res c) \<in> set (arrivals ?s)" using arr by (metis set_mset_mset union_single_eq_member)
  obtain oper where o1: "ops ?s a = Some oper" "rt_awaiter R (op_handle oper) = Some a" using W(6) [OF a] by blast
  let ?h = "op_handle oper"
  have ha: "handle_of ?s a = ?h" using o1 by (simp add: handle_of_def)
  have "?h \<in> waiting (rt_mach R)" using W(7) [OF o1(2)] .
  then have "runnable ?s ?h" using waiting_pos [OF W(1) na] W(2) by (simp add: runnable_def)
  then have te: "?t = ?s\<lparr>pc := Completing cs, ready := ready ?s @ [?h], pushed := pushed ?s @ [?h],
      ops := (ops ?s)(a \<mapsto> oper\<lparr>op_result := cqe_res c, op_flags := if cqe_more c then 1 else 0\<rparr>)\<rparr>"
    using t p(2) o1(1) by (auto simp: dispatch_def op_on_complete_def Let_def push_ready_def runnable_def)
  have t: "submitted ?t = submitted ?s" "arrivals ?t = arrivals (?s\<lparr>pc := Completing cs\<rparr>)" "ready ?t = ready ?s @ [?h]"
      "cross_handles ?t = cross_handles ?s" "finished ?t = finished ?s"
    by (simp_all add: te view_simps)
  have oa: "map_option op_result (ops ?t a) = Some (cqe_res c)" and ob: "b \<noteq> a \<Longrightarrow> ops ?t b = ops ?s b" for b
    by (simp_all add: te)
  have oh: "\<exists>oper. ops ?t b = Some oper \<and> op_handle oper = g" if "ops ?s b = Some op'" "op_handle op' = g" for b op' g
    using that o1(1) by (cases "b = a") (simp_all add: te)
  have ho: "handle_of ?t = handle_of ?s" using o1(1) by (intro ext) (simp add: handle_of_def te)
  have w: "wakeups ?R = wakeups R" using arr ha by (simp add: wakeups_def Let_def ho t)
  have sub: "set (arrivals (?s\<lparr>pc := Completing cs\<rparr>)) \<subseteq> set (arrivals ?s)"
    using arr by (metis set_mset_add_mset_insert set_mset_mset subset_insertI)
  have q: "rt_sched ?R = ?t" "rt_mach ?R = rt_mach R" "rt_awaiter ?R = rt_awaiter R" "rt_ticket ?R = rt_ticket R"
      "rt_completed ?R = rt_completed R" "rt_delivered ?R = rt_delivered R" "rt_jobs ?R = rt_jobs R" by simp_all
  have un: "unanswered ?R = unanswered R" unfolding unanswered_def q ho t ..
  have "wake_ok ?R"
    unfolding wake_ok_def w q t
  proof (intro conjI)
    show "\<forall>b \<in> set (submitted ?s) \<union> fst ` set (arrivals (?s\<lparr>pc := Completing cs\<rparr>)).
        \<exists>oper. ops ?t b = Some oper \<and> rt_awaiter R (op_handle oper) = Some b"
    proof
      fix b assume "b \<in> set (submitted ?s) \<union> fst ` set (arrivals (?s\<lparr>pc := Completing cs\<rparr>))"
      then obtain u where "b \<in> set (submitted ?s) \<or> (b, u) \<in> set (arrivals (?s\<lparr>pc := Completing cs\<rparr>))" by force
      with sub have "b \<in> set (submitted ?s) \<or> (b, u) \<in> set (arrivals ?s)" by blast
      then obtain oper' where "ops ?s b = Some oper'" "rt_awaiter R (op_handle oper') = Some b" using W(5,6) by blast
      then show "\<exists>oper. ops ?t b = Some oper \<and> rt_awaiter R (op_handle oper) = Some b" using oh [of b oper'] by auto
    qed
    show "\<forall>g b. rt_awaiter R g = Some b \<longrightarrow> g \<in> waiting (rt_mach R) \<and> (\<exists>oper. ops ?t b = Some oper \<and> op_handle oper = g)"
      using W(7,8) oh by blast
  qed (use W st in simp_all)
  moreover have "result_ok ?R"
  proof -
    have "rt_result ?R ?h = Some (cqe_res c)" unfolding rt_result_def q o1(2) using oa by simp
    moreover have "(rt_ticket R ?h, cqe_res c) \<in> set (rt_completed R)" using inv(2) a ha by (auto simp: result_ok_def)
    moreover have "rt_result ?R g = rt_result R g" if "g \<noteq> ?h" for g
    proof (cases "rt_awaiter R g")
      case (Some b)
      then have "b \<noteq> a" using W(8) [OF Some] o1(1) that by auto
      then show ?thesis unfolding rt_result_def q Some using ob by simp
    qed (simp add: rt_result_def)
    ultimately have g: "(\<exists>v. rt_result ?R g = Some v \<and> (rt_ticket R g, v) \<in> set (rt_completed R))
        \<or> g \<in> set (ready ?s) \<union> set (cross_handles ?s) \<and> rt_result ?R g = rt_result R g"
      if "g \<in> set (ready ?s @ [?h]) \<union> set (cross_handles ?s)" for g
      using that by (cases "g = ?h") auto
    show ?thesis
      by (rule result_ok_frame [OF inv(2)]) (simp_all only: q t ho order.refl sub, rule g)
  qed
  moreover have "ticket_ok ?R" using inv(3) unfolding ticket_ok_def un q .
  ultimately show ?thesis by (simp add: rt_inv_def)
qed


section \<open>Reachable states\<close>

lemma ext_step_pc: "ext_step s s' \<Longrightarrow> pc s' = pc s"
  by (induction rule: ext_step.induct) (simp_all add: sched_defs)

lemma stop_own_view: "same_view s (stop_own s)" "pc (stop_own s) = pc s"
  by (auto simp: same_view_def view_simps sched_defs)

lemma loop_step_inv:
  assumes inv: "wake_ok R" "result_ok R" "ticket_ok R" and na: "\<not> co_aborted (rt_mach R)"
    and step: "loop_step env (rt_sched R) s" and st: "in_user (pc (rt_sched R)) \<Longrightarrow> co_stack (rt_mach R) = []"
    and nr: "\<not> (pc (rt_sched R) = ReadyLoop \<and> ready (rt_sched R) \<noteq> [] \<and> runnable (rt_sched R) (hd (ready (rt_sched R))))"
  shows "rt_inv (R\<lparr>rt_sched := s\<rparr>)"
proof -
  let ?s = "rt_sched R"
  note W = wake_okD [OF inv(1)]
  have st0: "co_stack (rt_mach R) = []" using W(3) st by blast
  have "runnable ?s h" if "h \<in> set (ready ?s)" for h
    using waiting_pos [OF W(1) na wakeups_waiting [OF inv(1) wakeups_mem(1) [OF that]]] W(2) by (simp add: runnable_def)
  then have nr': "ready ?s = []" if "pc ?s = ReadyLoop" using nr that by (metis list.set_sel(1))
  consider "pc ?s = LoopTop" "\<not> stopping ?s" | c cs a where "pc ?s = Completing (c # cs)" "cqe_data c = UdOp a"
    | "pc ?s \<noteq> LoopTop \<or> stopping ?s" "\<And>c cs a. pc ?s = Completing (c # cs) \<Longrightarrow> cqe_data c \<noteq> UdOp a" by blast
  then show ?thesis
  proof cases
    case 1
    then have "s = drain_cross_queue ?s" using step by (auto elim: loop_step.cases)
    then show ?thesis using drain_step_inv [OF inv na st0 1(1)] by simp
  next
    case (2 c cs a)
    then have "dispatch c (?s\<lparr>pc := Completing cs\<rparr>) = Inr s" using step by (auto elim: loop_step.cases)
    then show ?thesis using complete_step_inv [OF inv na st0 2] by simp
  next
    case 3
    have "op_ud (cqe_data c) = None" if "pc ?s = Completing (c # cs)" for c cs
      using 3(2) [OF that] by (cases "cqe_data c") auto
    then have "same_view ?s s" by (rule loop_step_view [OF step 3(1) _ nr'])
    then show ?thesis using rt_inv_sched inv st0 by blast
  qed
qed

lemma rt_live_step_inv:
  assumes "rt_live_step env pooled R R'" and "rt_inv R"
  shows "rt_inv R'"
proof -
  have na: "\<not> co_aborted (rt_mach R)" and step: "rt_step env pooled R R'" using assms(1) by (auto simp: rt_live_step_def)
  have inv: "wake_ok R" "result_ok R" "ticket_ok R" using assms(2) na by (auto simp: rt_inv_def)
  have inv3: "wake_ok R \<and> result_ok R \<and> ticket_ok R" using inv by blast
  note W = wake_okD [OF inv(1)]
  from step show ?thesis
  proof cases
    case (rt_exec p m)
    obtain h st where h: "co_stack (rt_mach R) = h # st" using rt_exec(3) by (auto simp: next_prog_def split: list.splits)
    have "co_inv m" using exec_ok [OF W(1) na h] rt_exec(5) by auto
    then show ?thesis using exec_waiting [OF W(1) na h rt_exec(3,5,4)] rt_inv_mach [OF inv3] rt_exec(1,2) by simp
  next
    case rt_ring
    then show ?thesis using ring_step_inv [OF inv na] by blast
  next
    case rt_pool
    then show ?thesis using pool_step_inv [OF inv na] by blast
  next
    case (rt_spawn p t m1 m)
    have "co_inv m" using spawn_ok [OF W(1) na rt_spawn(4,5)] rt_spawn(6) by auto
    then show ?thesis using spawn_waiting [OF W(1) na rt_spawn(4-6)] rt_inv_mach [OF inv3] rt_spawn(1,2) by simp
  next
    case rt_stop
    then show ?thesis using rt_inv_sched [OF inv3 stop_own_view(1)] by (simp add: stop_own_view)
  next
    case (rt_timer q)
    have "same_view (rt_sched R) ((rt_sched R)\<lparr>tq := q\<rparr>)" by (simp add: same_view_def view_simps)
    from rt_inv_sched [OF inv3 this] show ?thesis using rt_timer by simp
  next
    case rt_resume
    then show ?thesis using resume_step_inv [OF inv na] by blast
  next
    case rt_loop
    then show ?thesis using loop_step_inv [OF inv na] by blast
  next
    case (rt_other s)
    then show ?thesis using rt_inv_sched [OF inv3 rt_other(3)] ext_step_pc [OF rt_other(2)] W(3) by simp
  next
    case rt_kernel
    then show ?thesis using kernel_step_inv [OF inv] by blast
  next
    case rt_job_done
    then show ?thesis using job_step_inv [OF inv] by blast
  qed
qed

lemma machine_new_inv: "co_inv machine_new" "waiting machine_new = {}" "co_stack machine_new = []"
  using co_reach_inv [of machine_new] by (simp_all add: co_reach_def waiting_def machine_new_def)

lemma rt_new_inv: "rt_inv (rt_new n)"
proof -
  have v: "submitted (sched_new n) = []" "arrivals (sched_new n) = []" "ready (sched_new n) = []" "cross_handles (sched_new n) = []"
      "finished (sched_new n) = {}"
    by (simp_all add: sched_new_def view_simps)
  have q: "rt_sched (rt_new n) = sched_new n" "rt_mach (rt_new n) = machine_new" "rt_jobs (rt_new n) = []"
      "rt_awaiter (rt_new n) = Map.empty" "rt_completed (rt_new n) = []" "rt_delivered (rt_new n) = []"
    by (simp_all add: rt_new_def)
  have w: "wakeups (rt_new n) = {#}" by (simp add: wakeups_def Let_def q v)
  show ?thesis
    by (simp add: machine_new_inv rt_inv_def wake_ok_def result_ok_def ticket_ok_def unanswered_def w q v)
qed

lemma rt_reach_inv: "rt_reach env pooled n R \<Longrightarrow> rt_inv R"
  unfolding rt_reach_def
  by (induction rule: rtranclp_induct) (auto intro: rt_new_inv rt_live_step_inv)


section \<open>Each part sees its own steps\<close>

lemma rt_step_parts:
  assumes "rt_live_step env pooled R R'" and "rt_inv R"
  shows "(sched_step env)\<^sup>*\<^sup>* (rt_sched R) (rt_sched R') \<and> co_step\<^sup>*\<^sup>* (rt_mach R) (rt_mach R')"
proof -
  have na: "\<not> co_aborted (rt_mach R)" and step: "rt_step env pooled R R'" using assms(1) by (auto simp: rt_live_step_def)
  have W: "wake_ok R" using assms(2) na by (auto simp: rt_inv_def)
  have st: "co_stack (rt_mach R) = []" if "\<not> in_user (pc (rt_sched R))" using wake_okD(3) [OF W] that by blast
  have user: "(sched_step env)\<^sup>*\<^sup>* (rt_sched R) s" if "in_user (pc (rt_sched R))" "user_step env (rt_sched R) s" for s
    using by_user [OF that] by blast
  from step show ?thesis
  proof cases
    case (rt_ring h st p r m a s)
    then show ?thesis using user [OF rt_ring(2) user_await [where h = h, OF rt_ring(9)]] co_exec [OF na rt_ring(7)] by (simp add: r_into_rtranclp)
  next
    case rt_stop
    then show ?thesis using user [OF rt_stop(2) user_stop] by simp
  next
    case (rt_timer q)
    then show ?thesis using user [OF rt_timer(2) user_timer [OF rt_timer(3)]] by simp
  next
    case (rt_resume h hs v m)
    then show ?thesis using by_loop [OF ready_pop [OF rt_resume(2,3)], of env] co_complete [OF na _ rt_resume(6)] st by (simp add: r_into_rtranclp)
  next
    case (rt_kernel a oper v)
    then show ?thesis using by_other [OF kernel_other [OF rt_kernel(2), where m = False and r = v], of env] by (simp add: r_into_rtranclp)
  next
    case (rt_job_done h v)
    then show ?thesis using by_other [OF ext_post [of "rt_sched R" h], of env] by (simp add: r_into_rtranclp)
  qed (use na in \<open>auto intro: co_exec co_spawn by_loop by_other\<close>)
qed

lemma rt_reach_parts: "rt_reach env pooled n R \<Longrightarrow> sched_reach env n (rt_sched R) \<and> co_reach (rt_mach R)"
  unfolding rt_reach_def
proof (induction rule: rtranclp_induct)
  case base
  then show ?case by (simp add: rt_new_def sched_reach_def co_reach_def)
next
  case (step R R')
  have "rt_inv R" using step(1) rt_reach_inv by (auto simp: rt_reach_def)
  from rt_step_parts [OF step(2) this] step.IH show ?case unfolding sched_reach_def co_reach_def by auto
qed

lemma rt_reach_step: "rt_reach env pooled n R \<Longrightarrow> rt_live_step env pooled R R' \<Longrightarrow> rt_reach env pooled n R'"
  unfolding rt_reach_def by simp

lemma rt_reach_ok:
  assumes "rt_reach env pooled n R" and "\<not> co_aborted (rt_mach R)"
  shows "wake_ok R" "result_ok R" "ticket_ok R"
  using rt_reach_inv [OF assms(1)] assms(2) by (auto simp: rt_inv_def)

text \<open>Before the loop waits the ready queue is empty, and nothing is left unsubmitted when it does.\<close>

lemma sched_reach_idle:
  assumes "sched_reach env n s" and "pc s = BeforeWait \<or> pc s = Blocked"
  shows "ready s = []"
proof -
  have "pc s = BeforeWait \<or> pc s = Blocked \<longrightarrow> ready s = []"
    using assms(1) unfolding sched_reach_def
  proof (induction rule: rtranclp_induct)
    case (step s s')
    from step(2) show ?case
    proof cases
      case by_loop
      then show ?thesis using step.IH
      proof cases
        case (task_start f fs)
        obtain q where "s' = s\<lparr>pc := InTask fs, tq := q\<rparr>" using run_task_frame [OF task_start(3)] by auto
        then show ?thesis by simp
      next
        case (complete_timer c cs)
        obtain q where "s' = s\<lparr>pc := InTimer cs, tq := q\<rparr>" using timerfd_on_complete_frame [OF complete_timer(4)] by auto
        then show ?thesis by simp
      next
        case (complete c cs)
        then show ?thesis by (cases "cqe_data c") (auto simp: sched_defs split: option.splits if_splits)
      qed (auto simp: sched_defs split: option.splits if_splits)
    next
      case by_user
      have "pc s' = pc s \<or> in_user (pc s')"
        using by_user(2) by cases (auto simp: sched_defs split: option.splits if_splits)
      then show ?thesis using by_user(1) by auto
    next
      case by_other
      have "ready s' = ready s" using by_other by cases (auto simp: sched_defs)
      then show ?thesis using ext_step_pc [OF by_other] step.IH by simp
    qed
  qed (simp add: sched_new_def)
  then show ?thesis using assms(2) by blast
qed

text \<open>Every request is answered to its coroutine or belongs to one that waits.\<close>

definition tickets_out :: "('v, 'x) runtime \<Rightarrow> nat set" where
  "tickets_out R = rt_ticket R ` waiting (rt_mach R) \<union> (\<lambda>(h, n, v). n) ` set (rt_delivered R)"

lemma rt_step_tickets:
  assumes "rt_live_step env pooled R R'" and "rt_inv R" and "tickets_out R = {..<length (co_requests (rt_mach R))}"
  shows "tickets_out R' = {..<length (co_requests (rt_mach R'))}"
proof -
  have na: "\<not> co_aborted (rt_mach R)" and step: "rt_step env pooled R R'" using assms(1) by (auto simp: rt_live_step_def)
  have W: "wake_ok R" using assms(2) na by (auto simp: rt_inv_def)
  note I = wake_okD(1) [OF W]
  have new: "tickets_out R' = {..<length (co_requests (rt_mach R'))}"
    if "waiting (rt_mach R') = insert h (waiting (rt_mach R))" "h \<notin> waiting (rt_mach R)"
      "co_requests (rt_mach R') = co_requests (rt_mach R) @ [(h, r)]"
      "rt_ticket R' = (rt_ticket R)(h := length (co_requests (rt_mach R)))" "rt_delivered R' = rt_delivered R" for h r
  proof -
    have "rt_ticket R' ` waiting (rt_mach R) = rt_ticket R ` waiting (rt_mach R)" using that by (intro image_cong) auto
    then have "tickets_out R' = insert (length (co_requests (rt_mach R))) (tickets_out R)"
      using that by (simp add: tickets_out_def)
    then show ?thesis using assms(3) that by (simp add: lessThan_Suc)
  qed
  from step show ?thesis
  proof cases
    case (rt_exec p m)
    obtain h st where h: "co_stack (rt_mach R) = h # st" using rt_exec(3) by (auto simp: next_prog_def split: list.splits)
    show ?thesis using exec_waiting [OF I na h rt_exec(3,5,4)] assms(3) rt_exec(1) by (simp add: tickets_out_def)
  next
    case (rt_ring h st p r m a s)
    from exec_io_waiting [OF I na rt_ring(3,4,7,5)] show ?thesis by (intro new [of h r]) (simp_all add: rt_ring(1))
  next
    case (rt_pool h st p r m)
    from exec_io_waiting [OF I na rt_pool(3,4,7,5)] show ?thesis by (intro new [of h r]) (simp_all add: rt_pool(1))
  next
    case (rt_spawn p t m1 m)
    show ?thesis using spawn_waiting [OF I na rt_spawn(4-6)] assms(3) rt_spawn(1) by (simp add: tickets_out_def)
  next
    case (rt_resume h hs v m)
    note E = resume_io_waiting [OF rt_resume(6)]
    have "tickets_out R' = insert (rt_ticket R h) (rt_ticket R ` (waiting (rt_mach R) - {h})) \<union> (\<lambda>(h, n, v). n) ` set (rt_delivered R)"
      using E by (simp add: tickets_out_def rt_resume(1))
    moreover have "insert (rt_ticket R h) (rt_ticket R ` (waiting (rt_mach R) - {h})) = rt_ticket R ` waiting (rt_mach R)"
      using E by (metis image_insert insert_Diff)
    ultimately show ?thesis using E assms(3) rt_resume(1) by (simp add: tickets_out_def)
  qed (use assms(3) in \<open>simp_all add: tickets_out_def\<close>)
qed

lemma rt_reach_tickets:
  "rt_reach env pooled n R \<Longrightarrow> tickets_out R = {..<length (co_requests (rt_mach R))}"
  unfolding rt_reach_def
proof (induction rule: rtranclp_induct)
  case base
  then show ?case by (simp add: tickets_out_def rt_new_def machine_new_inv) (simp add: machine_new_def)
next
  case (step R R')
  have "rt_inv R" using step(1) rt_reach_inv by (auto simp: rt_reach_def)
  from rt_step_tickets [OF step(2) this step.IH] show ?case .
qed

end
