(* ===== verification/Suspension.thy ===== *)
theory Suspension
  imports Runtime
begin

text \<open>
  What the composition of \<open>Runtime\<close> guarantees to a coroutine that waits for I/O: a single wake-up, the
  right result, exactly once, and no loop that sleeps while it could be resumed.
\<close>

section \<open>Properties\<close>

text \<open>
  C4: Every suspended coroutine has one wake-up.  Each coroutine that waits for I/O is found exactly
  once among the operations submitted, the completions not yet handled, the ready queue, the queue of
  posted handles and the jobs of the thread pool, and no other coroutine is found there; and the
  coroutine at the head of the ready queue can be resumed with its result.
\<close>

theorem suspended_have_one_wakeup:
  assumes "rt_reach env pooled n R" and "\<not> co_aborted (rt_mach R)"
  shows "count (wakeups R) h = (if h \<in> waiting (rt_mach R) then 1 else 0)
    \<and> (pc (rt_sched R) = ReadyLoop \<and> ready (rt_sched R) = h # hs \<longrightarrow>
        (\<exists>v R'. rt_live_step env pooled R R' \<and> rt_delivered R' = rt_delivered R @ [(h, rt_ticket R h, v)]
           \<and> co_stack (rt_mach R') = [h] \<and> ready (rt_sched R') = hs))"
proof -
  note inv = rt_reach_ok [OF assms]
  note W = wake_okD [OF inv(1)]
  have "\<exists>v R'. rt_live_step env pooled R R' \<and> rt_delivered R' = rt_delivered R @ [(h, rt_ticket R h, v)]
           \<and> co_stack (rt_mach R') = [h] \<and> ready (rt_sched R') = hs"
    if p: "pc (rt_sched R) = ReadyLoop" "ready (rt_sched R) = h # hs"
  proof -
    have h: "h \<in> waiting (rt_mach R)" using wakeups_waiting [OF inv(1) wakeups_mem(1)] p(2) by simp
    have run: "runnable (rt_sched R) h" using waiting_pos [OF W(1) assms(2) h] W(2) by (simp add: runnable_def)
    obtain v where v: "rt_result R h = Some v" using inv(2) p(2) by (auto simp: result_ok_def)
    have st: "co_stack (rt_mach R) = []" using W(3) p(1) by auto
    obtain f k where f: "co_frames (rt_mach R) h = Some f" "fr_point f = InIo k" using h by (auto simp: waiting_def)
    obtain m where m: "resume_io h v (rt_mach R) = Inr m" "co_stack m = [h]"
      using resume_io_ok [OF W(1) assms(2) st f] by blast
    from rt_resume [OF p run v m(1), where env = env and pooled = pooled] m(2) assms(2) show ?thesis
      unfolding rt_live_step_def by fastforce
  qed
  then show ?thesis using W(4) by blast
qed

text \<open>
  C5: Results are delivered exactly once.  What a coroutine is resumed with is the value with which the
  kernel or the pool answered a request of that coroutine; no request is answered twice, no answer is
  delivered twice, and a request whose answer has not been delivered is that of a coroutine still
  waiting.
\<close>

theorem results_delivered_once:
  assumes "rt_reach env pooled n R" and "\<not> co_aborted (rt_mach R)"
  shows "distinct (map (\<lambda>(h, t, v). t) (rt_delivered R)) \<and> distinct (map fst (rt_completed R))
    \<and> (\<forall>(h, t, v) \<in> set (rt_delivered R). t < length (co_requests (rt_mach R))
         \<and> fst (co_requests (rt_mach R) ! t) = h \<and> (t, v) \<in> set (rt_completed R))
    \<and> (\<forall>t < length (co_requests (rt_mach R)). (\<exists>h v. (h, t, v) \<in> set (rt_delivered R))
         \<or> (\<exists>h \<in> waiting (rt_mach R). rt_ticket R h = t))"
proof -
  note T = ticket_okD [OF rt_reach_ok(3) [OF assms]]
  have "(\<exists>h v. (h, t, v) \<in> set (rt_delivered R)) \<or> (\<exists>h \<in> waiting (rt_mach R). rt_ticket R h = t)"
    if "t < length (co_requests (rt_mach R))" for t
  proof -
    have "t \<in> tickets_out R" using rt_reach_tickets [OF assms(1)] that by simp
    then show ?thesis unfolding tickets_out_def by force
  qed
  then show ?thesis using T(5,7) T(6,8) by blast
qed

text \<open>
  C6: The loop never sleeps on a coroutine it could resume.  When the loop is blocked, no other thread
  is in the middle of a call and the watcher could always be re-armed, every suspended coroutine is a job
  of the thread pool, or its operation is with the kernel or completed in the ring, or it was posted
  back and the completion that ends the wait is there or due.
\<close>

theorem blocked_loop_strands_none:
  assumes "rt_reach env pooled n R" and "\<not> co_aborted (rt_mach R)" and "pc (rt_sched R) = Blocked"
    and "wakers (rt_sched R) = 0" and "\<not> watch_lost (rt_sched R)" and "h \<in> waiting (rt_mach R)"
  shows "h \<in> set (rt_jobs R)
    \<or> (\<exists>a. rt_awaiter R h = Some a \<and> UdOp a \<in> set (inflight (rt_sched R)) \<union> cqe_data ` set (cq (rt_sched R)))
    \<or> (h \<in> set (cross_handles (rt_sched R))
        \<and> (UdWake \<in> cqe_data ` set (cq (rt_sched R)) \<or> UdWake \<in> set (inflight (rt_sched R)) \<and> 0 < wake_count (rt_sched R)))"
proof -
  let ?s = "rt_sched R"
  note W = wake_okD [OF rt_reach_ok(1) [OF assms(1,2)]]
  have reach: "sched_reach env n ?s" using rt_reach_parts [OF assms(1)] by blast
  have idle: "ready ?s = []" "sq ?s = []"
    using sched_reach_idle [OF reach] sched_reach_inv [OF reach] assms(3) by (simp_all add: wake_inv_def)
  have ud: "op_ud d = Some a \<longleftrightarrow> d = UdOp a" for d a by (cases d) auto
  have sub: "UdOp a \<in> set (inflight ?s)" if "a \<in> set (submitted ?s)" for a
    using that idle(2) by (auto simp: submitted_def List.map_filter_def ud)
  have arr: "UdOp a \<in> cqe_data ` set (cq ?s)" if "(a, v) \<in> set (arrivals ?s)" for a v
    using that assms(3) by (force simp: arrivals_def List.map_filter_def op_cqe_def ud)
  have own: "rt_awaiter R (handle_of ?s a) = Some a" if "a \<in> set (submitted ?s) \<or> (a, v) \<in> set (arrivals ?s)" for a v
    using W(5,6) that by (fastforce simp: handle_of_def)
  have "h \<in># wakeups R" using W(4) [of h] assms(6) by (simp flip: count_greater_zero_iff)
  then consider a where "a \<in> set (submitted ?s)" "h = handle_of ?s a" | a v where "(a, v) \<in> set (arrivals ?s)" "h = handle_of ?s a"
    | "h \<in> set (cross_handles ?s)" | "h \<in> set (rt_jobs R)"
    using idle(1) by (auto simp: wakeups_def Let_def)
  then show ?thesis
  proof cases
    case (1 a)
    then show ?thesis using own [of a] sub by auto
  next
    case (2 a v)
    then show ?thesis using own [of a v] arr by auto
  next
    case 3
    then have "cross_handles ?s \<noteq> []" by auto
    then show ?thesis using 3 sched_reach_inv [OF reach] assms(3-5) by (auto simp: wake_defs)
  qed simp
qed

text \<open>
  Composition.  The scheduler and the coroutine machine, run together, go through states each of
  them reaches by itself, with any behaviour of the application, the kernel and other threads; so what
  holds of each alone holds in the composition.
\<close>

theorem runtime_refines_parts:
  assumes "rt_reach env pooled n R"
  shows "sched_reach env n (rt_sched R) \<and> co_reach (rt_mach R)"
  by (rule rt_reach_parts [OF assms])

section \<open>A concrete run\<close>

text \<open>A coroutine awaits request 7, which the pool answers with 5.\<close>

definition demo_body :: "(int, nat) prog" where
  "demo_body = AwaitIo 7 (\<lambda>r. Return r)"

definition demo_machine :: "(int, nat) point \<Rightarrow> handle list \<Rightarrow> (handle \<times> nat) list \<Rightarrow> (int, nat) machine" where
  "demo_machine p st rq = \<lparr>co_frames = [1 \<mapsto> (child_frame demo_body 2)\<lparr>fr_point := p\<rparr>, 2 \<mapsto> shim_frame 1],
     co_stack = st, co_next = 3, co_requests = rq, co_aborted = False\<rparr>"

lemma demo_machine_simps [simp]: "\<not> co_aborted (demo_machine p st rq)" "co_stack (demo_machine p st rq) = st"
  by (simp_all add: demo_machine_def)

definition demo_rt :: "sched \<Rightarrow> (int, nat) machine \<Rightarrow> handle list \<Rightarrow> (handle \<rightharpoonup> int) \<Rightarrow> (nat \<times> int) list
    \<Rightarrow> (handle \<times> nat \<times> int) list \<Rightarrow> (int, nat) runtime" where
  "demo_rt s m j r c d = \<lparr>rt_sched = s, rt_mach = m, rt_awaiter = Map.empty, rt_jobs = j,
     rt_job_result = r, rt_ticket = (\<lambda>h. 0), rt_completed = c, rt_delivered = d\<rparr>"

abbreviation demo_steps :: "(int, nat) runtime \<Rightarrow> (int, nat) runtime \<Rightarrow> bool" where
  "demo_steps \<equiv> (rt_live_step demo_env (\<lambda>r. True))\<^sup>*\<^sup>*"

lemma demo_step:
  assumes "rt_step demo_env (\<lambda>r. True) R S" and "R' = S" and "\<not> co_aborted (rt_mach R)"
  shows "demo_steps R R'"
  using assms by (simp add: rt_live_step_def r_into_rtranclp)

lemma demo_loop:
  assumes "loop_step demo_env s s'" and "t = s'" and "\<not> co_aborted m" and "\<not> in_user (pc s) \<or> co_stack m = []"
    and "pc s \<noteq> ReadyLoop \<or> ready s = []"
  shows "demo_steps (demo_rt s m j r c d) (demo_rt t m j r c d)"
  by (rule demo_step [OF rt_loop [of _ _ s']]) (use assms in \<open>auto simp: demo_rt_def\<close>)

lemma demo_other:
  assumes "ext_step s s'" and "t = s'" and "\<not> co_aborted m" and "same_view s s'"
  shows "demo_steps (demo_rt s m j r c d) (demo_rt t m j r c d)"
  by (rule demo_step [OF rt_other [of _ s']]) (use assms in \<open>simp_all add: demo_rt_def\<close>)

definition demo_parked :: sched where
  "demo_parked = (sched_new 4)\<lparr>inflight := [UdWake, UdTimer], pc := Blocked, cross_handles := [1], posted := [1], wake_count := 1\<rparr>"

definition demo_ready :: sched where
  "demo_ready = (sched_new 4)\<lparr>inflight := [UdTimer], sq := [UdWake], pc := ReadyLoop, ready := [1], posted := [1], taken := [1], pushed := [1]\<rparr>"

text \<open>The coroutine is spawned by a boot task and leaves a job with the pool.\<close>

lemma demo_spawned:
  "demo_steps (rt_new 4) (demo_rt ((sched_new 4)\<lparr>sq := [UdWake, UdTimer], pc := InTask []\<rparr>)
     (demo_machine (InIo Return) [] [(1, 7)]) [1] Map.empty [] [])"
proof -
  let ?s0 = "sched_new 4" and ?m0 = "machine_new :: (int, nat) machine"
  let ?s1 = "?s0\<lparr>cross_tasks := [XUser 0]\<rparr>"
  let ?s2 = "?s1\<lparr>sq := [UdWake, UdTimer], pc := LoopTop\<rparr>"
  let ?s3 = "?s0\<lparr>sq := [UdWake, UdTimer], pc := RunTasks [XUser 0]\<rparr>"
  let ?s4 = "?s0\<lparr>sq := [UdWake, UdTimer], pc := InTask []\<rparr>"
  let ?at = "\<lambda>s. demo_rt s ?m0 [] Map.empty [] []"
  have na: "\<not> co_aborted ?m0" "co_stack ?m0 = []" by (simp_all add: machine_new_def)
  have "rt_new 4 = ?at ?s0" by (simp add: rt_new_def demo_rt_def)
  also have "demo_steps (?at ?s0) (?at ?s1)"
    by (rule demo_other [OF ext_boot [of _ "XUser 0"]])
      (simp_all add: na sched_new_def queue_boot_task_def same_view_def view_simps)
  also have "demo_steps (?at ?s1) (?at ?s2)"
    by (rule demo_loop [OF enter]) (simp_all add: na sched_defs sched_new_def)
  also have "demo_steps (?at ?s2) (?at ?s3)"
    by (rule demo_loop [OF top_drain]) (simp_all add: na drain_eq sched_new_def)
  also have "demo_steps (?at ?s3) (?at ?s4)"
    by (rule demo_loop [OF task_start [of _ "XUser 0" "[]" _ ?s4]])
      (simp_all add: na run_task_def sched_new_def tq_init_def sz_max_def)
  also have "demo_steps (?at ?s4) (demo_rt ?s4 (demo_machine (Running demo_body) [1] []) [] Map.empty [] [])"
    using spawn_new [of ?m0 demo_body]
    by (intro demo_step [OF rt_spawn [of _ demo_body 1 "snd (call_task demo_body ?m0)"
          "demo_machine (Running demo_body) [1] []"]])
      (simp_all add: demo_rt_def machine_new_def call_task_def demo_machine_def child_frame_def numeral_2_eq_2 numeral_3_eq_3)
  also have "demo_steps \<dots> (demo_rt ?s4 (demo_machine (InIo Return) [] [(1, 7)]) [1] Map.empty [] [])"
    by (rule demo_step [OF rt_pool [of _ 1 "[]" demo_body 7]])
      (simp_all add: demo_rt_def demo_machine_def next_prog_def demo_body_def exec_def fun_upd_twist fun_upd_idem)
  finally show ?thesis .
qed

text \<open>The loop blocks; the pool's thread posts the coroutine back.\<close>

lemma demo_rt_parked:
  "rt_reach demo_env (\<lambda>r. True) 4 (demo_rt demo_parked (demo_machine (InIo Return) [] [(1, 7)]) [] [1 \<mapsto> 5] [(0, 5)] [])"
proof -
  let ?s0 = "sched_new 4" and ?m = "demo_machine (InIo Return) [] [(1, 7)]"
  let ?s4 = "?s0\<lparr>sq := [UdWake, UdTimer], pc := InTask []\<rparr>"
  let ?s8 = "?s0\<lparr>inflight := [UdWake, UdTimer], pc := Blocked\<rparr>"
  let ?s9 = "?s8\<lparr>cross_handles := [1], posted := [1], wakers := 1\<rparr>"
  let ?at = "\<lambda>s. demo_rt s ?m [1] Map.empty [] []"
  note demo_spawned
  also have "demo_steps (?at ?s4) (?at (?s4\<lparr>pc := RunTasks []\<rparr>))"
    by (rule demo_loop [OF task_end]) simp_all
  also have "demo_steps \<dots> (?at (?s4\<lparr>pc := ReadyLoop\<rparr>))"
    by (rule demo_loop [OF tasks_done]) simp_all
  also have "demo_steps \<dots> (?at (?s4\<lparr>pc := BeforeWait\<rparr>))"
    by (rule demo_loop [OF ready_done]) (simp_all add: sched_new_def)
  also have "demo_steps \<dots> (?at ?s8)"
    by (rule demo_loop [OF submit_wait]) (simp_all add: sched_new_def ring_submit_def)
  also have "demo_steps \<dots> (demo_rt ?s9 ?m [] [1 \<mapsto> 5] [(0, 5)] [])"
    by (rule demo_step [OF rt_job_done [of 1 _ _ _ 5]]) (simp_all add: demo_rt_def demo_machine_def post_enqueue_def sched_new_def)
  also have "demo_steps \<dots> (demo_rt demo_parked ?m [] [1 \<mapsto> 5] [(0, 5)] [])"
    by (rule demo_other [OF ext_wake [of _ 0]])
      (simp_all add: demo_parked_def wake_remote_def eventfd_write_def sched_new_def same_view_def view_simps)
  finally show ?thesis by (simp add: rt_reach_def)
qed

text \<open>The wake-up takes it to the ready queue.\<close>

lemma demo_rt_ready:
  "rt_reach demo_env (\<lambda>r. True) 4 (demo_rt demo_ready (demo_machine (InIo Return) [] [(1, 7)]) [] [1 \<mapsto> 5] [(0, 5)] [])"
proof -
  let ?m = "demo_machine (InIo Return) [] [(1, 7)]" and ?c = "\<lparr>cqe_data = UdWake, cqe_res = 8, cqe_more = False\<rparr>"
  let ?k = "demo_parked\<lparr>inflight := [UdTimer], wake_count := 0\<rparr>"
  let ?at = "\<lambda>s. demo_rt s ?m [] [1 \<mapsto> 5] [(0, 5)] []"
  note defs = demo_parked_def demo_ready_def sched_new_def
  note demo_rt_parked [unfolded rt_reach_def]
  also have "demo_steps (?at demo_parked) (?at (?k\<lparr>cq := [?c]\<rparr>))"
    by (rule demo_other [OF kernel_wake]) (simp_all add: defs same_view_def view_simps)
  also have "demo_steps \<dots> (?at (?k\<lparr>pc := Completing [?c]\<rparr>))"
    by (rule demo_loop [OF wait_return]) (simp_all add: defs kBatch_def)
  also have "demo_steps \<dots> (?at (?k\<lparr>pc := Completing [], sq := [UdWake]\<rparr>))"
    by (rule demo_loop [OF complete [of _ ?c "[]"]]) (simp_all add: defs sched_defs)
  also have "demo_steps \<dots> (?at (?k\<lparr>pc := LoopTop, sq := [UdWake]\<rparr>))"
    by (rule demo_loop [OF batch_done]) simp_all
  also have "demo_steps \<dots> (?at (demo_ready\<lparr>pc := RunTasks []\<rparr>))"
    by (rule demo_loop [OF top_drain]) (simp_all add: defs drain_eq runnable_def)
  also have "demo_steps \<dots> (?at demo_ready)"
    by (rule demo_loop [OF tasks_done]) (simp_all add: defs)
  finally show ?thesis by (simp add: rt_reach_def)
qed

lemma demo_waiting: "waiting (demo_machine (InIo k) [] rq) = {1}"
  by (auto simp: waiting_def demo_machine_def shim_frame_def)

theorem suspended_have_one_wakeup_witness:
  "\<exists>R R' :: (int, nat) runtime. rt_reach demo_env (\<lambda>r. True) 4 R \<and> 1 \<in> waiting (rt_mach R) \<and> count (wakeups R) 1 = 1
     \<and> rt_live_step demo_env (\<lambda>r. True) R R' \<and> co_stack (rt_mach R') = [1]"
proof -
  let ?R = "demo_rt demo_ready (demo_machine (InIo Return) [] [(1, 7)]) [] [1 \<mapsto> 5] [(0, 5)] []"
  have "\<not> co_aborted (rt_mach ?R)" "1 \<in> waiting (rt_mach ?R)" "pc (rt_sched ?R) = ReadyLoop" "ready (rt_sched ?R) = [1]"
    by (simp_all add: demo_rt_def demo_waiting) (simp_all add: demo_machine_def demo_ready_def)
  note R = this
  from suspended_have_one_wakeup [OF demo_rt_ready R(1), of 1 "[]"] R
  obtain R' where "count (wakeups ?R) 1 = 1" "rt_live_step demo_env (\<lambda>r. True) ?R R'" "co_stack (rt_mach R') = [1]"
    by (simp only: if_True) blast
  then show ?thesis using demo_rt_ready R(2) by blast
qed

theorem results_delivered_once_witness:
  "\<exists>R :: (int, nat) runtime. rt_reach demo_env (\<lambda>r. True) 4 R \<and> rt_delivered R = [(1, 0, 5)] \<and> (0, 5) \<in> set (rt_completed R)"
proof -
  let ?m = "demo_machine (InIo Return) [] [(1, 7)]"
  let ?R = "demo_rt demo_ready ?m [] [1 \<mapsto> 5] [(0, 5)] []"
  let ?R' = "demo_rt (demo_ready\<lparr>ready := [], popped := [1], pc := InResume\<rparr>)
      (demo_machine (Running (Return 5)) [1] [(1, 7)]) [] Map.empty [(0, 5)] [(1, 0, 5)]"
  have "demo_steps ?R ?R'"
    by (rule demo_step [OF rt_resume [of _ 1 "[]" 5]])
      (simp_all add: demo_rt_def demo_machine_def demo_ready_def sched_new_def runnable_def rt_result_def resume_io_def fun_upd_twist)
  then have reach: "rt_reach demo_env (\<lambda>r. True) 4 ?R'" using demo_rt_ready by (simp add: rt_reach_def)
  have "\<not> co_aborted (rt_mach ?R')" by (simp add: demo_rt_def demo_machine_def)
  have d: "rt_delivered ?R' = [(1, 0, 5)]" by (simp add: demo_rt_def)
  then have "(0, 5) \<in> set (rt_completed ?R')"
    using results_delivered_once [OF reach \<open>\<not> co_aborted (rt_mach ?R')\<close>] by simp
  then show ?thesis using reach d by blast
qed

theorem blocked_loop_strands_none_witness:
  "1 \<in> set (cross_handles demo_parked) \<and> UdWake \<in> set (inflight demo_parked) \<and> 0 < wake_count demo_parked"
proof -
  let ?R = "demo_rt demo_parked (demo_machine (InIo Return) [] [(1, 7)]) [] [1 \<mapsto> 5] [(0, 5)] []"
  have "\<not> co_aborted (rt_mach ?R)" "1 \<in> waiting (rt_mach ?R)" "pc (rt_sched ?R) = Blocked" "wakers (rt_sched ?R) = 0"
      "\<not> watch_lost (rt_sched ?R)"
    by (simp_all add: demo_rt_def demo_waiting) (simp_all add: demo_machine_def demo_parked_def sched_new_def)
  from blocked_loop_strands_none [OF demo_rt_parked this(1,3,4,5,2)] show ?thesis
    by (simp add: demo_rt_def demo_parked_def sched_new_def)
qed

theorem runtime_refines_parts_witness:
  "sched_reach demo_env 4 demo_ready \<and> co_reach (demo_machine (InIo Return) [] [(1, 7)])"
  using runtime_refines_parts [OF demo_rt_ready] by (simp add: demo_rt_def)

end
