(* ===== verification/Echo_Server.thy ===== *)
theory Echo_Server
  imports C_Strings Tcp_Server
begin

text \<open>
  The example server (\<open>example/echo_server.cc\<close>): its command line and environment variables, the
  configuration of the \<open>TcpServer\<close>, and the connection handler, which is the receive and send code
  of \<open>Tcp_Connection\<close> in a loop, over registered buffers or over a heap buffer.
\<close>

section \<open>Command line and environment\<close>

text \<open>\<open>getenv\<close> gives the value of a variable or nothing; \<open>unsigned\<close> has 32 bits.\<close>

definition env_u :: "string option \<Rightarrow> nat \<Rightarrow> nat" where
  "env_u var dflt =
     (case var of None \<Rightarrow> dflt
      | Some v \<Rightarrow> if v = [] then dflt
          else let (r, rest) = strtoul v in if rest = [] then r mod 2 ^ 32 else dflt)"

function cpus_loop :: "string \<Rightarrow> int list" where
  "cpus_loop p =
     (if p = [] then []
      else let (c, rest) = strtol p in
        if rest = p then []
        else (if c \<ge> 0 then [i32 c] else []) @ cpus_loop (if rest \<noteq> [] \<and> hd rest = CHR '','' then tl rest else rest))"
  by auto
termination
proof (relation "measure length")
  show "((if rest \<noteq> [] \<and> hd rest = CHR '','' then tl rest else rest), p) \<in> measure length"
    if "x = strtol p" "(c, rest) = x" "rest \<noteq> p" for p x c rest
    using strtol_end [of p] that by (cases rest) (auto simp: prod_eq_iff)
qed simp

declare cpus_loop.simps [simp del]

definition env_sqpoll_cpus :: "string option \<Rightarrow> int list" where
  "env_sqpoll_cpus var =
     (case var of None \<Rightarrow> []
      | Some v \<Rightarrow> if v = [] then [] else if v = ''off'' \<or> v = ''none'' then [] else cpus_loop v)"

record echo_config =
  ec_port :: "16 word"
  ec_threads :: int
  ec_sqpoll :: nat
  ec_fixed :: bool
  ec_buf_cap :: nat
  ec_slot_size :: nat
  ec_cpus :: "int list"

definition echo_args :: "string list \<Rightarrow> (string \<Rightarrow> string option) \<Rightarrow> conv_error + echo_config" where
  "echo_args argv env =
     rbind (if length argv > 1 then rbind (stoi (argv ! 1)) (\<lambda>v. Inr (word_of_int v)) else Inr 8002) (\<lambda>prt.
     rbind (if length argv > 2 then stoi (argv ! 2) else Inr 4) (\<lambda>nthr.
       Inr \<lparr>ec_port = prt, ec_threads = nthr,
            ec_sqpoll = env_u (env ''CORO_SQPOLL_THREADS'') 4,
            ec_fixed = (env_u (env ''CORO_FIXED_BUFFERS'') 1 \<noteq> 0),
            ec_buf_cap = env_u (env ''CORO_BUF_CAPACITY'') 0,
            ec_slot_size = env_u (env ''CORO_BUF_SLOT_SIZE'') (16 * 1024),
            ec_cpus = env_sqpoll_cpus (env ''CORO_SQPOLL_CPUS'')\<rparr>))"

text \<open>
  \<open>static_cast<size_t>\<close> of the thread count, and the setters in the order of \<open>main\<close>; the handler is
  \<open>echo_handler\<close> below.
\<close>

definition echo_server :: "echo_config \<Rightarrow> server" where
  "echo_server ec =
     set_handler (Some 0)
       (set_fixed_buffers (ec_fixed ec) (ec_slot_size ec) (ec_buf_cap ec)
         (set_sqpoll_cpus (ec_cpus ec)
           (set_sqpoll_threads (ec_sqpoll ec)
             (server_new (inet_address (ec_port ec) ''0.0.0.0'') (nat (ec_threads ec mod 2 ^ 64))))))"

text \<open>
  The signal handler, on the global pointer to the server; \<open>who\<close> is the worker on whose thread the
  signal is delivered, if it is one.
\<close>

definition on_signal :: "nat option \<Rightarrow> server option \<Rightarrow> server option" where
  "on_signal who g = map_option (server_stop who) g"

section \<open>The connection handler\<close>

text \<open>
  What one turn of a loop meets: the scheduler when the receive suspends, the operation, the bytes
  that arrive (none: the result is not positive), where the string to be sent lies, and the answers
  of the kernel to the sends.  The kernel fills at most the space it is offered.
\<close>

record echo_turn =
  et_sched :: sched
  et_op :: op_addr
  et_bytes :: string
  et_res :: int
  et_addr :: nat
  et_kernel :: "nat \<Rightarrow> sqe_fill \<Rightarrow> int"

datatype echo_error = OpFailed op_error | BufFailed buf_error | SendHangs | NoOffer

text \<open>Memory that holds a string at an address, and the history of a turn: what came, what went out.\<close>

definition string_at :: "nat \<Rightarrow> string \<Rightarrow> nat \<Rightarrow> char" where
  "string_at a s q = s ! (q - a)"

type_synonym echo_log = "(string \<times> string) list"

fun offered :: "sqe_fill \<Rightarrow> nat" where
  "offered (PrepRecv fd p n) = n"
| "offered (PrepReadFixed fd p n off idx) = n"
| "offered _ = 0"

definition arrived :: "sqe_fill \<Rightarrow> echo_turn \<Rightarrow> string" where
  "arrived f t = take (offered f) (et_bytes t)"

definition recv_result :: "string \<Rightarrow> echo_turn \<Rightarrow> int" where
  "recv_result bs t = (if bs = [] then min 0 (et_res t) else int (length bs))"

text \<open>One turn of the loop over a heap buffer: \<open>co_await recv\<close>, take everything, \<open>co_await send\<close>.
  The flag says whether the loop goes on.\<close>

definition echo_heap_turn :: "tcp_conn \<Rightarrow> handle \<Rightarrow> echo_turn \<Rightarrow> buffer \<Rightarrow> echo_error + (buffer \<times> echo_log \<times> bool)" where
  "echo_heap_turn c h t b =
     (case conn_recv c (et_op t) h b (et_sched t) of Inl e \<Rightarrow> Inl (OpFailed e)
      | Inr (b1, f, s1) \<Rightarrow>
          (let bs = arrived f t; n = recv_result bs t
           in case recv_into_on_complete (et_op t) n 0 (kernel_receive bs b1) s1 of Inl e \<Rightarrow> Inl (OpFailed e)
              | Inr (b2, s2) \<Rightarrow>
                  if n \<le> 0 then Inr (b2, [], False)
                  else (case retrieveAllAsString b2 of Inl e \<Rightarrow> Inl (BufFailed e)
                        | Inr (s, b3) \<Rightarrow>
                            (case conn_send_string c (et_kernel t) (et_addr t) s of None \<Rightarrow> Inl SendHangs
                             | Some (r, tr) \<Rightarrow> Inr (b3, [(s, sent (string_at (et_addr t) s) tr)], True)))))"

text \<open>The log, and whether the loop has ended; with no turns left the handler waits.\<close>

fun echo_heap :: "tcp_conn \<Rightarrow> handle \<Rightarrow> echo_turn list \<Rightarrow> buffer \<Rightarrow> echo_error + (echo_log \<times> bool)" where
  "echo_heap c h [] b = Inr ([], False)"
| "echo_heap c h (t # ts) b =
     rbind (echo_heap_turn c h t b) (\<lambda>(b', ev, go).
       rbind (if go then echo_heap c h ts b' else Inr ([], True)) (\<lambda>(lg, e). Inr (ev @ lg, e)))"

text \<open>One turn over the registered slot.\<close>

definition echo_fixed_turn :: "tcp_conn \<Rightarrow> handle \<Rightarrow> echo_turn \<Rightarrow> echo_error + (echo_log \<times> bool)" where
  "echo_fixed_turn c h t =
     (case conn_recv_fixed c (et_op t) h (et_sched t) of Inl e \<Rightarrow> Inl (OpFailed e)
      | Inr (f, s1) \<Rightarrow>
          (let bs = arrived f t; n = recv_result bs t; v = recv_view c n
           in if fst v \<le> 0 then Inr ([], False)
              else (case conn_send_fixed c (et_kernel t) (snd v) (nat (fst v)) of None \<Rightarrow> Inl SendHangs
                    | Some (r, tr) \<Rightarrow> Inr ([(bs, sent (string_at (slot_addr c) bs) tr)], \<not> r < 0))))"

fun echo_fixed :: "tcp_conn \<Rightarrow> handle \<Rightarrow> echo_turn list \<Rightarrow> echo_error + (echo_log \<times> bool)" where
  "echo_fixed c h [] = Inr ([], False)"
| "echo_fixed c h (t # ts) =
     rbind (echo_fixed_turn c h t) (\<lambda>(ev, go).
       rbind (if go then echo_fixed c h ts else Inr ([], True)) (\<lambda>(lg, e). Inr (ev @ lg, e)))"

text \<open>
  The handler.  After the loop it shuts the connection down, in the scheduler state \<open>s\<close> and with the
  operation \<open>a\<close>; the result is the log and, once the loop has ended, what \<open>shutdown\<close> submits.
\<close>

definition echo_handler :: "tcp_conn \<Rightarrow> handle \<Rightarrow> echo_turn list \<Rightarrow> op_addr \<Rightarrow> sched
    \<Rightarrow> echo_error + (echo_log \<times> sqe_fill option)" where
  "echo_handler c h ts a s =
     rbind (if has_fixed_slot c then echo_fixed c h ts
            else (case buffer_new kInitialSize of Inl e \<Rightarrow> Inl (BufFailed e) | Inr b \<Rightarrow> echo_heap c h ts b)) (\<lambda>(lg, ended).
       if \<not> ended then Inr (lg, None)
       else (case conn_shutdown c a h s of Inl e \<Rightarrow> Inl (OpFailed e) | Inr r \<Rightarrow> Inr (lg, map_option fst r)))"

section \<open>Parsing\<close>

fun cpu_list :: "nat list \<Rightarrow> string" where
  "cpu_list [] = []"
| "cpu_list [n] = dec n"
| "cpu_list (n # ns) = dec n @ '','' @ cpu_list ns"

lemma strtol_nonempty: "rest = [] \<or> \<not> is_digit (hd rest) \<Longrightarrow> n < 2 ^ 31 \<Longrightarrow>
    strtol (dec n @ rest) = (int n, rest) \<and> dec n @ rest \<noteq> [] \<and> rest \<noteq> dec n @ rest"
  using dec_digits [of n] by (simp add: strtol_dec)

lemma cpus_loop_list: "list_all (\<lambda>n. n < 2 ^ 31) ns \<Longrightarrow> cpus_loop (cpu_list ns) = map int ns"
proof (induction ns rule: cpu_list.induct)
  case 1
  then show ?case by (simp add: cpus_loop.simps)
next
  case (2 n)
  then show ?case using strtol_nonempty [of "[]" n] by (simp add: cpus_loop.simps [of "dec n"] cpus_loop.simps [of "[]"] i32_id)
next
  case (3 n m ns)
  let ?rest = "CHR '','' # cpu_list (m # ns)"
  have d: "strtol (dec n @ ?rest) = (int n, ?rest)" "dec n @ ?rest \<noteq> []" "?rest \<noteq> dec n @ ?rest"
    using strtol_nonempty [of ?rest n] 3(2) by (auto simp: is_digit_def)
  have "cpus_loop (dec n @ ?rest) = [i32 (int n)] @ cpus_loop (cpu_list (m # ns))"
    using d by (subst cpus_loop.simps) (simp del: cpu_list.simps)
  then show ?case using 3 by (simp add: i32_id)
qed

text \<open>Values that are no \<open>unsigned\<close> are not refused: a minus sign and 33 bits pass.\<close>

lemmas scan_simps = scan_int_def span_digits_def is_space_def is_digit_def dec_val_def digit_val_def Let_def

lemma env_u_accepts_out_of_range: "env_u (Some ''-1'') 4 = 4294967295 \<and> env_u (Some ''4294967296'') 4 = 0"
  by (simp add: env_u_def strtoul_def scan_simps sz_max_def sz_sub_def)

lemma env_sqpoll_cpus_stops_at_gap: "env_sqpoll_cpus (Some ''13,,14'') = [13] \<and> env_sqpoll_cpus (Some ''4294967296'') = [0]"
  by (simp add: env_sqpoll_cpus_def strtol_def scan_simps i32_def cpus_loop.simps)

section \<open>The handler echoes\<close>

definition received :: "echo_turn \<Rightarrow> bool" where
  "received t \<longleftrightarrow> et_bytes t \<noteq> []"

text \<open>The kernel accepts something each time.\<close>

definition progress :: "echo_turn \<Rightarrow> bool" where
  "progress t \<longleftrightarrow> accepting (et_kernel t)"

definition turn_ok :: "handle \<Rightarrow> echo_turn \<Rightarrow> bool" where
  "turn_ok h t \<longleftrightarrow> length (sq (et_sched t)) < sq_entries (et_sched t) \<and> runnable (et_sched t) h \<and> kernel_ok (et_kernel t)
     \<and> et_addr t + length (et_bytes t) \<le> sz_max \<and> length (et_bytes t) < 2 ^ 63"

definition slot_fits :: "tcp_conn \<Rightarrow> bool" where
  "slot_fits c \<longleftrightarrow> has_fixed_slot c \<longrightarrow> 0 < slot_len c \<and> slot_len c < 2 ^ 32 \<and> slot_addr c + slot_len c \<le> sz_max"

text \<open>What a turn may do: take a piece of what came, all of it if it fits the least offer, and send it back.\<close>

definition least_offer :: "tcp_conn \<Rightarrow> nat" where
  "least_offer c = (if has_fixed_slot c then slot_len c else kMinRecvSize)"

definition echoed :: "tcp_conn \<Rightarrow> echo_turn \<Rightarrow> string \<times> string \<Rightarrow> bool" where
  "echoed c t = (\<lambda>(s, out). s \<noteq> [] \<and> prefix s (et_bytes t) \<and> (length (et_bytes t) \<le> least_offer c \<longrightarrow> s = et_bytes t)
     \<and> prefix out s \<and> (progress t \<longrightarrow> out = s))"

lemma map_string_at: "map (string_at a s) [a ..< a + m] = take m s" if "m \<le> length s"
  using that by (intro nth_equalityI) (simp_all add: string_at_def)

declare conn_send_string_def [simp]

lemma heap_turn_ok:
  assumes b: "buffer_ok b" "contents b = []" "writerIndex b = kCheapPrepend" and t: "turn_ok h t" and c: "\<not> has_fixed_slot c"
  shows "\<exists>b' ev. echo_heap_turn c h t b = Inr (b', ev, received t)
    \<and> (if received t then buffer_ok b' \<and> contents b' = [] \<and> writerIndex b' = kCheapPrepend \<and> (\<exists>x. ev = [x] \<and> echoed c t x) else ev = [])"
proof -
  have T: "length (sq (et_sched t)) < sq_entries (et_sched t)" "runnable (et_sched t) h" "kernel_ok (et_kernel t)"
      "et_addr t + length (et_bytes t) \<le> sz_max" "length (et_bytes t) < 2 ^ 63"
    using t by (auto simp: turn_ok_def)
  have "writerIndex b + kMinRecvSize \<le> vec_max" using b(3) by (simp add: kCheapPrepend_def kMinRecvSize_def vec_max_def)
  from recv_into_ok [OF b(1) this T(1,2), of "conn_fd c" "et_op t", folded conn_recv_def] obtain b1 n s1 where
    r: "conn_recv c (et_op t) h b (et_sched t) = Inr (b1, PrepRecv (conn_fd c) (writerIndex b1) n, s1)" "kMinRecvSize \<le> n"
    and fin: "\<And>bs. bs \<noteq> [] \<Longrightarrow> length bs \<le> n \<Longrightarrow> \<exists>b2 s2. recv_into_on_complete (et_op t) (int (length bs)) 0 (kernel_receive bs b1) s1
        = Inr (b2, s2) \<and> buffer_ok b2 \<and> contents b2 = contents b @ bs"
    by (elim exE conjE) (rule that, assumption+, blast)
  show ?thesis
  proof (cases "received t")
    case False
    obtain s2 where "recv_into_on_complete (et_op t) (min 0 (et_res t)) 0 (kernel_receive [] b1) s1 = Inr (kernel_receive [] b1, s2)"
      using recv_into_nothing [OF r(1) [unfolded conn_recv_def], of "min 0 (et_res t)"] by auto
    with False show ?thesis using r by (simp add: received_def echo_heap_turn_def arrived_def recv_result_def Let_def)
  next
    case True
    define bs where "bs = take n (et_bytes t)"
    have arr: "arrived (PrepRecv (conn_fd c) (writerIndex b1) n) t = bs" by (simp add: arrived_def bs_def)
    have bs: "bs \<noteq> []" "length bs \<le> n" "prefix bs (et_bytes t)" "length bs \<le> length (et_bytes t)"
      using True r(2) by (auto simp: bs_def received_def kMinRecvSize_def take_is_prefix)
    have all: "length (et_bytes t) \<le> least_offer c \<longrightarrow> bs = et_bytes t" using c r(2) by (simp add: bs_def least_offer_def)
    obtain b2 s2 where f: "recv_into_on_complete (et_op t) (int (length bs)) 0 (kernel_receive bs b1) s1 = Inr (b2, s2)"
        "buffer_ok b2" "contents b2 = bs" using fin [OF bs(1,2)] b(2) by auto
    have room: "et_addr t + length bs \<le> sz_max" "length bs < 2 ^ 63" using T(4,5) bs(4) by linarith+
    have mm: "map (string_at (et_addr t) bs) [et_addr t ..< et_addr t + length bs] = bs" by (simp add: map_string_at)
    obtain rs tr m where snd: "conn_send c (et_kernel t) (et_addr t) (length bs) = Some (rs, tr)" "m \<le> length bs"
        "sent (string_at (et_addr t) bs) tr = take m bs" "progress t \<longrightarrow> sent (string_at (et_addr t) bs) tr = bs"
      using conn_send_ok [OF T(3) room mm, of c] unfolding progress_def by blast
    have "echo_heap_turn c h t b = Inr (retrieveAll b2, [(bs, take m bs)], True)"
      using r f retrieveAllAsString_eq [OF f(2)] snd bs(1) arr
      by (simp add: echo_heap_turn_def Let_def recv_result_def)
    moreover have "echoed c t (bs, take m bs)"
      using bs(1,3) snd(3,4) all by (auto simp: echoed_def take_is_prefix)
    moreover have "writerIndex (retrieveAll b2) = kCheapPrepend" by (simp add: retrieveAll_def)
    ultimately show ?thesis using True retrieveAll_ok(1) [OF f(2)] by auto
  qed
qed

lemma fixed_turn_ok:
  assumes t: "turn_ok h t" and c: "has_fixed_slot c" "slot_fits c"
  shows "\<exists>ev go. echo_fixed_turn c h t = Inr (ev, go) \<and> (go \<longrightarrow> received t) \<and> (received t \<and> progress t \<longrightarrow> go)
    \<and> (if received t then \<exists>x. ev = [x] \<and> echoed c t x else ev = [])"
proof -
  have T: "length (sq (et_sched t)) < sq_entries (et_sched t)" "kernel_ok (et_kernel t)"
    using t by (auto simp: turn_ok_def)
  have S: "0 < slot_len c" "slot_len c < 2 ^ 32" "slot_addr c + slot_len c \<le> sz_max" using c by (auto simp: slot_fits_def)
  obtain s1 where r: "conn_recv_fixed c (et_op t) h (et_sched t) = Inr (PrepReadFixed (conn_fd c) (slot_addr c) (slot_len c) 0 (buf_index c), s1)"
    using suspend_op_ok [OF T(1)] S(2) by (simp add: conn_recv_fixed_def recv_fixed_suspend_def)
  show ?thesis
  proof (cases "received t")
    case False
    then show ?thesis using r by (simp add: received_def echo_fixed_turn_def recv_view_def arrived_def recv_result_def Let_def ex_bool_eq)
  next
    case True
    define bs where "bs = take (slot_len c) (et_bytes t)"
    have arr: "arrived (PrepReadFixed (conn_fd c) (slot_addr c) (slot_len c) 0 (buf_index c)) t = bs"
      by (simp add: arrived_def bs_def)
    have bs: "bs \<noteq> []" "length bs \<le> slot_len c" "prefix bs (et_bytes t)"
      using True S(1) by (auto simp: bs_def received_def take_is_prefix)
    have all: "length (et_bytes t) \<le> least_offer c \<longrightarrow> bs = et_bytes t" using c by (simp add: bs_def least_offer_def)
    have room: "slot_addr c + length bs \<le> sz_max" "length bs < 2 ^ 32" "slot_addr c \<le> slot_addr c"
        "slot_addr c + length bs \<le> slot_addr c + slot_len c"
      using S bs(2) by linarith+
    obtain rs tr m where snd: "conn_send_fixed c (et_kernel t) (slot_addr c) (length bs) = Some (rs, tr)" "m \<le> length bs"
        "sent (string_at (slot_addr c) bs) tr = map (string_at (slot_addr c) bs) [slot_addr c ..< slot_addr c + m]"
        "progress t \<longrightarrow> m = length bs \<and> rs = int (length bs)"
      using conn_send_fixed_ok [OF T(2) room, of "string_at (slot_addr c) bs"] unfolding progress_def by blast
    have out: "sent (string_at (slot_addr c) bs) tr = take m bs" using snd(2,3) by (simp add: map_string_at)
    have "echo_fixed_turn c h t = Inr ([(bs, take m bs)], \<not> rs < 0)"
      using r snd(1) out bs(1) arr by (simp add: echo_fixed_turn_def recv_view_def recv_result_def Let_def)
    moreover have "echoed c t (bs, take m bs)"
      using bs(1,3) snd(4) all by (auto simp: echoed_def take_is_prefix)
    ultimately show ?thesis using True snd(4) by auto
  qed
qed

text \<open>Both loops: the log follows the turns, and with a kernel that makes progress it stops at the end of input only.\<close>

definition log_ok :: "tcp_conn \<Rightarrow> echo_turn list \<Rightarrow> echo_log \<times> bool \<Rightarrow> bool" where
  "log_ok c ts = (\<lambda>(lg, ended). list_all2 (echoed c) (take (length lg) ts) lg
     \<and> (list_all progress ts \<longrightarrow> length lg = length (takeWhile received ts) \<and> (ended \<longleftrightarrow> \<not> list_all received ts)))"

lemma log_ok_step:
  assumes "if received t then \<exists>x. ev = [x] \<and> echoed c t x else ev = []" and "go \<longrightarrow> received t"
    and "received t \<and> progress t \<longrightarrow> go" and "go \<Longrightarrow> log_ok c ts (lg, e)" and "\<not> go \<Longrightarrow> lg = [] \<and> e"
  shows "log_ok c (t # ts) (ev @ lg, e)"
  using assms by (cases go; cases "received t") (auto simp: log_ok_def)

lemma echo_heap_ok:
  "buffer_ok b \<Longrightarrow> contents b = [] \<Longrightarrow> writerIndex b = kCheapPrepend \<Longrightarrow> list_all (turn_ok h) ts \<Longrightarrow> \<not> has_fixed_slot c \<Longrightarrow>
   \<exists>r. echo_heap c h ts b = Inr r \<and> log_ok c ts r"
proof (induction ts arbitrary: b)
  case Nil
  then show ?case by (simp add: log_ok_def)
next
  case (Cons t ts)
  from Cons.prems(4) have t: "turn_ok h t" by simp
  obtain b' ev where tu: "echo_heap_turn c h t b = Inr (b', ev, received t)"
      "if received t then buffer_ok b' \<and> contents b' = [] \<and> writerIndex b' = kCheapPrepend \<and> (\<exists>x. ev = [x] \<and> echoed c t x) else ev = []"
    using heap_turn_ok [OF Cons.prems(1-3) t Cons.prems(5)] by blast
  then have ev: "if received t then \<exists>x. ev = [x] \<and> echoed c t x else ev = []" by (auto split: if_splits)
  show ?case
  proof (cases "received t")
    case True
    with Cons.IH [of b'] tu(2) Cons.prems(4,5) obtain lg e where r: "echo_heap c h ts b' = Inr (lg, e)" "log_ok c ts (lg, e)" by auto
    have "log_ok c (t # ts) (ev @ lg, e)" by (rule log_ok_step [OF ev, of True]) (use True r in auto)
    then show ?thesis using tu(1) r(1) True by simp
  next
    case False
    have "log_ok c (t # ts) (ev @ [], True)" by (rule log_ok_step [OF ev, of False]) (use False in auto)
    then show ?thesis using tu(1) False by simp
  qed
qed

lemma echo_fixed_ok:
  "list_all (turn_ok h) ts \<Longrightarrow> has_fixed_slot c \<Longrightarrow> slot_fits c \<Longrightarrow> \<exists>r. echo_fixed c h ts = Inr r \<and> log_ok c ts r"
proof (induction ts)
  case Nil
  then show ?case by (simp add: log_ok_def)
next
  case (Cons t ts)
  from Cons.prems(1) have t: "turn_ok h t" by simp
  obtain ev go where tu: "echo_fixed_turn c h t = Inr (ev, go)" "go \<longrightarrow> received t" "received t \<and> progress t \<longrightarrow> go"
      "if received t then \<exists>x. ev = [x] \<and> echoed c t x else ev = []"
    using fixed_turn_ok [OF t Cons.prems(2,3)] by blast
  obtain lg e where IH: "echo_fixed c h ts = Inr (lg, e)" "log_ok c ts (lg, e)" using Cons by auto
  let ?r = "if go then (lg, e) else ([], True)"
  have "log_ok c (t # ts) (ev @ fst ?r, snd ?r)"
    by (rule log_ok_step [OF tu(4) tu(2,3)]) (use IH(2) in auto)
  then show ?case using tu(1) IH(1) by (cases go) simp_all
qed

section \<open>Properties\<close>

text \<open>
  C7: The echo server echoes.  On both paths, registered slot or heap buffer, the handler of a
  connection never fails: each turn sends back, from the front and in order, a prefix of exactly the
  bytes it received; while the kernel keeps accepting, everything received is sent back, and the
  handler shuts the connection down exactly when the input ends.
\<close>

theorem echo_server_echoes:
  assumes "list_all (turn_ok h) ts" and "slot_fits c" and "0 \<le> conn_fd c" and "length (sq s) < sq_entries s"
  shows "\<exists>lg fin. echo_handler c h ts a s = Inr (lg, fin) \<and> list_all2 (echoed c) (take (length lg) ts) lg
    \<and> (list_all progress ts \<longrightarrow> length lg = length (takeWhile received ts) \<and> map snd lg = map fst lg
        \<and> fin = (if list_all received ts then None else Some (PrepShutdown (conn_fd c) SHUT_RDWR)))"
proof -
  obtain b where b: "buffer_new kInitialSize = Inr b" "buffer_ok b" "contents b = []" "writerIndex b = kCheapPrepend"
    using buffer_new_ok [of kInitialSize] by (auto simp: buffer_new_def kInitialSize_def kCheapPrepend_def vec_max_def Let_def split: if_splits)
  obtain lg e where r: "(if has_fixed_slot c then echo_fixed c h ts
      else (case buffer_new kInitialSize of Inl e \<Rightarrow> Inl (BufFailed e) | Inr b \<Rightarrow> echo_heap c h ts b)) = Inr (lg, e)" "log_ok c ts (lg, e)"
    using echo_heap_ok [OF b(2-4) assms(1), of c] echo_fixed_ok [OF assms(1) _ assms(2)] b(1) by (cases "has_fixed_slot c") auto
  have sh: "conn_shutdown c a h s = Inr (Some (PrepShutdown (conn_fd c) SHUT_RDWR, prepare_common a h (s\<lparr>sq := sq s @ [UdOp a]\<rparr>)))"
    using suspend_op_ok [OF assms(4)] assms(3) by (simp add: conn_shutdown_def shutdown_suspend_def)
  have run: "echo_handler c h ts a s = Inr (lg, if e then Some (PrepShutdown (conn_fd c) SHUT_RDWR) else None)"
    unfolding echo_handler_def r(1) using sh by simp
  have al: "list_all2 (echoed c) (take (length lg) ts) lg" using r(2) by (simp add: log_ok_def)
  have "map snd lg = map fst lg" if "list_all progress ts"
  proof (rule nth_equalityI)
    fix i assume i: "i < length (map snd lg)"
    then have "echoed c (take (length lg) ts ! i) (lg ! i)" "i < length (take (length lg) ts)"
      using al list_all2_lengthD [OF al] by (auto simp: list_all2_conv_all_nth)
    then show "map snd lg ! i = map fst lg ! i" using i that by (auto simp: echoed_def list_all_length split: prod.splits)
  qed simp
  moreover have "list_all progress ts \<longrightarrow> length lg = length (takeWhile received ts) \<and> (e \<longleftrightarrow> \<not> list_all received ts)"
    using r(2) by (simp add: log_ok_def)
  ultimately show ?thesis
    by (intro exI [of _ lg] exI [of _ "if e then Some (PrepShutdown (conn_fd c) SHUT_RDWR) else None"] conjI run al) auto
qed

definition demo_turn :: "string \<Rightarrow> echo_turn" where
  "demo_turn bs = \<lparr>et_sched = sched_new 8, et_op = 7, et_bytes = bs, et_res = 0, et_addr = 64, et_kernel = (\<lambda>i f. min 1 (int (sqe_len f)))\<rparr>"

theorem echo_server_echoes_witness:
  "\<exists>lg fin. echo_handler \<lparr>conn_fd = 5, conn_peer = demo_peer, conn_ctx = None, conn_wheel = False, conn_entry = None, buf_index = - 1, slot_addr = 0, slot_len = 0\<rparr> 9
     [demo_turn ''hi'', demo_turn []] 3 (sched_new 8) = Inr (lg, fin)
     \<and> length lg = 1 \<and> map snd lg = map fst lg \<and> fin = Some (PrepShutdown 5 2)"
proof -
  let ?c = "\<lparr>conn_fd = 5, conn_peer = demo_peer, conn_ctx = None, conn_wheel = False, conn_entry = None, buf_index = - 1, slot_addr = 0, slot_len = 0\<rparr>"
  have "list_all (turn_ok 9) [demo_turn ''hi'', demo_turn []]"
    by (simp add: turn_ok_def demo_turn_def sched_new_def runnable_def kernel_ok_def sz_max_def)
  moreover have "list_all progress [demo_turn ''hi'', demo_turn []]" by (simp add: progress_def demo_turn_def accepting_def)
  moreover have rec: "received (demo_turn ''hi'')" "\<not> received (demo_turn [])" by (simp_all add: received_def demo_turn_def)
  moreover have "slot_fits ?c" "0 \<le> conn_fd ?c" "length (sq (sched_new 8)) < sq_entries (sched_new 8)"
    by (simp_all add: slot_fits_def has_fixed_slot_def sched_new_def)
  ultimately obtain lg fin where "echo_handler ?c 9 [demo_turn ''hi'', demo_turn []] 3 (sched_new 8) = Inr (lg, fin)"
      "length lg = 1" "map snd lg = map fst lg" "fin = Some (PrepShutdown (conn_fd ?c) SHUT_RDWR)"
    using echo_server_echoes [of 9 "[demo_turn ''hi'', demo_turn []]" ?c "sched_new 8" 3] by auto
  then show ?thesis by (intro exI [of _ lg] exI [of _ fin]) (simp add: SHUT_RDWR_def)
qed

text \<open>
  The list of processors.  A comma-separated list of processor numbers is read back as it was
  written; an absent or empty variable, \<open>off\<close> and \<open>none\<close> pin nothing.
\<close>

theorem sqpoll_cpus_round_trip:
  assumes "list_all (\<lambda>n. n < 2 ^ 31) ns"
  shows "env_sqpoll_cpus (Some (cpu_list ns)) = map int ns
    \<and> env_sqpoll_cpus None = [] \<and> env_sqpoll_cpus (Some ''off'') = [] \<and> env_sqpoll_cpus (Some ''none'') = []"
proof (cases ns)
  case Nil
  then show ?thesis by (simp add: env_sqpoll_cpus_def)
next
  case (Cons n ms)
  obtain d ds where d: "dec n = d # ds" "is_digit d" using dec_digits [of n] by (cases "dec n") auto
  obtain r where "cpu_list ns = d # r" using d(1) Cons by (cases ms) auto
  then show ?thesis using cpus_loop_list [OF assms] d(2) by (auto simp: env_sqpoll_cpus_def is_digit_def)
qed

theorem sqpoll_cpus_round_trip_witness: "env_sqpoll_cpus (Some (cpu_list [13, 14, 15])) = [13, 14, 15]"
  using sqpoll_cpus_round_trip [of "[13, 14, 15]"] by simp

section \<open>The program\<close>

text \<open>
  \<open>main\<close> from the command line to its result.  Nothing catches an exception: a bad argument or a
  server that cannot start ends the process without destructors.  \<open>wait\<close> returns when every worker
  has ended, which takes a signal; \<open>sig\<close> says whether one arrives, and on which thread.
\<close>

datatype echo_end =
    BadArgument conv_error
  | StartThrows server_error
  | WaitsForever server
  | DestructorFaults server_fault
  | Exits int server             \<comment> \<open>the status and what the server has been at its end\<close>

definition echo_main :: "string list \<Rightarrow> (string \<Rightarrow> string option) \<Rightarrow> (nat \<Rightarrow> sched_config \<Rightarrow> int + int)
    \<Rightarrow> socket_env \<Rightarrow> size_t \<Rightarrow> nat option option \<Rightarrow> echo_end" where
  "echo_main argv env mk se m sig =
     (case echo_args argv env of
        Inl e \<Rightarrow> BadArgument e
      | Inr ec \<Rightarrow>
          (case server_start mk se m (echo_server ec) of
             (Some e, sv) \<Rightarrow> StartThrows e
           | (None, sv) \<Rightarrow>
               (case Option.bind sig (\<lambda>who. on_signal who (Some sv)) of
                  None \<Rightarrow> WaitsForever sv
                | Some sv1 \<Rightarrow>
                    (case server_destroy (server_wait sv1) of
                       Inl e \<Rightarrow> DestructorFaults e
                     | Inr sv2 \<Rightarrow> Exits 0 sv2))))"

lemma echo_server_fresh: "unstarted (echo_server ec)" "idle_secs (echo_server ec) = 0"
    "fds_shut (echo_server ec) = []" "fds_closed (echo_server ec) = []" "sv_handler (echo_server ec) = Some 0"
  by (simp_all add: echo_server_def unstarted_def set_handler_def set_fixed_buffers_def set_sqpoll_cpus_def
      set_sqpoll_threads_def server_new_def)

text \<open>
  With rings and sockets available a signal ends the program with status 0: every listening socket has
  been shut down and closed exactly once, and no thread is left.
\<close>

lemma echo_main_exits:
  assumes "echo_args argv env = Inr ec" and sv: "sv = echo_server ec"
    and p: "spool_new mk (worker_threads sv) (server_config sv) (sqpoll_threads sv) (sqpoll_cpus sv) = Inr (fds, cfgs)"
    and s: "\<And>i. i < worker_threads sv \<Longrightarrow> socket_ok se (sv_addr sv) i"
  shows "\<exists>sv2. echo_main argv env mk se m (Some who) = Exits 0 sv2 \<and> sv_pool sv2 = None
    \<and> fds_shut sv2 = map (env_socket se) [0..<worker_threads sv] \<and> fds_closed sv2 = map (env_socket se) [0..<worker_threads sv]"
proof -
  have nn: "filter (\<lambda>fd. 0 \<le> fd) (map (env_socket se) [0..<worker_threads sv]) = map (env_socket se) [0..<worker_threads sv]"
    using s by (auto simp: socket_ok_def filter_id_conv)
  note run = server_start_run [OF echo_server_fresh(1) p [unfolded sv] s [unfolded sv], of m undefined, unfolded echo_server_fresh(2)]
  show ?thesis
    using nn by (simp add: echo_main_def assms(1) run on_signal_def server_stop_def server_wait_def server_destroy_def
        spool_wait_def Let_def sv echo_server_fresh)
qed

text \<open>A bad argument ends it before anything is set up.\<close>

lemma echo_main_bad_argument:
  "stoi (argv ! 1) = Inl e \<Longrightarrow> length argv > 1 \<Longrightarrow> echo_main argv env mk se m sig = BadArgument e"
  by (simp add: echo_main_def echo_args_def)

end
