(* ===== verification/Echo_Stats.thy ===== *)
theory Echo_Stats
  imports Coro_Prelude "HOL-Library.Multiset" "HOL-Library.Sublist"
begin

text \<open>
  The statistics of the benchmark client (\<open>benchmark/legacy/echo_client.cc\<close>): \<open>LatencyRecorder\<close> with
  its sampling generator on 64-bit words, and \<open>compute_percentiles\<close>.  The index of a percentile is
  computed in \<open>double\<close>; that arithmetic is exact here: a \<open>double\<close> is a natural number over \<open>2 ^ 53\<close>,
  rounded to 53 significant bits, ties to even.
\<close>

section \<open>Recorder\<close>

datatype client_error =
    LengthError                        \<comment> \<open>a negative size: \<open>std::length_error\<close>\<close>
  | IndexOutside | DivisionByZero | SignedOverflow | EmptyPayload

record latency_recorder =
  samples_us :: "32 word list"
  max_samples :: int
  total_seen :: "64 word"

definition recorder_new :: "int \<Rightarrow> client_error + latency_recorder" where
  "recorder_new cap =
     (if cap < 0 then Inl LengthError
      else Inr \<lparr>samples_us = [], max_samples = cap, total_seen = 0\<rparr>)"

text \<open>The generator of the thread; the index is taken modulo the number of values seen.\<close>

definition lcg_seed :: "64 word" where
  "lcg_seed = 0x9E3779B97F4A7C15"

definition lcg_next :: "64 word \<Rightarrow> 64 word" where
  "lcg_next s = s * 6364136223846793005 + 1442695040888963407"

definition record_us :: "32 word \<Rightarrow> latency_recorder \<times> 64 word \<Rightarrow> client_error + (latency_recorder \<times> 64 word)" where
  "record_us us = (\<lambda>(l, s).
     (let l = l\<lparr>total_seen := total_seen l + 1\<rparr> in
      if int (length (samples_us l)) < max_samples l
      then Inr (l\<lparr>samples_us := samples_us l @ [us]\<rparr>, s)
      else if total_seen l = 0 then Inl DivisionByZero
      else let s = lcg_next s; r = s mod total_seen l in
           if r < word_of_int (max_samples l)
           then if unat r < length (samples_us l)
                then Inr (l\<lparr>samples_us := (samples_us l)[unat r := us]\<rparr>, s)
                else Inl IndexOutside
           else Inr (l, s)))"

fun record_all :: "32 word list \<Rightarrow> latency_recorder \<times> 64 word \<Rightarrow> client_error + (latency_recorder \<times> 64 word)" where
  "record_all [] x = Inr x"
| "record_all (u # us) x = rbind (record_us u x) (record_all us)"

text \<open>What has been seen so far, and which part of it is kept.\<close>

definition recorder_ok :: "int \<Rightarrow> 32 word list \<Rightarrow> latency_recorder \<Rightarrow> bool" where
  "recorder_ok cap seen l \<longleftrightarrow> 0 \<le> cap \<and> cap < 2 ^ 31 \<and> max_samples l = cap \<and> total_seen l = of_nat (length seen)
     \<and> mset (samples_us l) \<subseteq># mset seen
     \<and> length (samples_us l) = min (length seen) (nat cap)
     \<and> (length seen \<le> nat cap \<longrightarrow> samples_us l = seen)"

lemma mset_update_subset:
  assumes "mset xs \<subseteq># mset ys" and "i < length xs"
  shows "mset (xs[i := u]) \<subseteq># mset (ys @ [u])"
proof -
  have "mset (xs[i := u]) = add_mset u (mset xs - {#xs ! i#})" by (rule mset_update [OF assms(2)])
  also have "\<dots> \<subseteq># add_mset u (mset ys)" using assms(1) by (simp add: subset_mset.order_trans [OF diff_subset_eq_self])
  finally show ?thesis by simp
qed

lemma record_us_ok:
  assumes ok: "recorder_ok cap seen l" and n: "length seen < 2 ^ 64 - 1"
  shows "\<exists>l' s'. record_us u (l, s) = Inr (l', s') \<and> recorder_ok cap (seen @ [u]) l'"
proof -
  have cap: "0 \<le> cap" "cap < 2 ^ 31" "max_samples l = cap" and t: "total_seen l = of_nat (length seen)"
    and sub: "mset (samples_us l) \<subseteq># mset seen" and len: "length (samples_us l) = min (length seen) (nat cap)"
    and all: "length seen \<le> nat cap \<Longrightarrow> samples_us l = seen"
    using ok by (auto simp: recorder_ok_def)
  have t1: "total_seen l + 1 = of_nat (Suc (length seen))" using t by simp
  have u1: "unat (total_seen l + 1) = Suc (length seen)" unfolding t1 unat_of_nat by (rule mod_less) (use n in simp)
  then have nz: "total_seen l + 1 \<noteq> 0" by (metis Zero_not_Suc unat_0)
  show ?thesis
  proof (cases "int (length (samples_us l)) < cap")
    case True
    then have "length seen < nat cap" using len cap by linarith
    with True show ?thesis using cap t1 all by (auto simp: record_us_def recorder_ok_def)
  next
    case False
    then have full: "nat cap \<le> length seen" "length (samples_us l) = nat cap" using len by linarith+
    define r where "r = lcg_next s mod (total_seen l + 1)"
    have "word_of_int cap = (of_nat (nat cap) :: 64 word)" using cap(1) by (metis int_nat_eq of_int_of_nat_eq)
    then have bound: "unat (word_of_int cap :: 64 word) = nat cap" using cap(2) by (simp add: unat_of_nat)
    show ?thesis
    proof (cases "r < word_of_int cap")
      case True
      then have r: "unat r < nat cap" using bound by (simp add: word_less_nat_alt)
      have "record_us u (l, s) = Inr (l\<lparr>total_seen := total_seen l + 1, samples_us := (samples_us l)[unat r := u]\<rparr>, lcg_next s)"
        using True r False cap(3) nz full(2) by (simp add: record_us_def Let_def r_def)
      then show ?thesis using cap t1 full mset_update_subset [OF sub, of "unat r" u] r by (auto simp: recorder_ok_def)
    next
      case no: False
      have "record_us u (l, s) = Inr (l\<lparr>total_seen := total_seen l + 1\<rparr>, lcg_next s)"
        using no False cap(3) nz full(2) by (simp add: record_us_def Let_def r_def)
      moreover have "mset (samples_us l) \<subseteq># add_mset u (mset seen)"
        using sub by (rule subset_mset.order_trans) simp
      ultimately show ?thesis using cap t1 full by (auto simp: recorder_ok_def)
    qed
  qed
qed

lemma record_all_ok:
  "recorder_ok cap seen l \<Longrightarrow> length seen + length us < 2 ^ 64 \<Longrightarrow>
   \<exists>l' s'. record_all us (l, s) = Inr (l', s') \<and> recorder_ok cap (seen @ us) l'"
proof (induction us arbitrary: seen l s)
  case (Cons u us)
  obtain l1 s1 where "record_us u (l, s) = Inr (l1, s1)" "recorder_ok cap (seen @ [u]) l1"
    using record_us_ok [OF Cons.prems(1), of u s] Cons.prems(2) by auto
  with Cons.IH [of "seen @ [u]" l1 s1] Cons.prems(2) show ?case by auto
qed auto

lemma recorder_new_ok: "0 \<le> cap \<Longrightarrow> cap < 2 ^ 31 \<Longrightarrow> \<exists>l. recorder_new cap = Inr l \<and> recorder_ok cap [] l"
  by (auto simp: recorder_new_def recorder_ok_def)

section \<open>Percentiles\<close>

text \<open>The number of binary digits, and rounding to a multiple of \<open>u\<close>, ties to even.\<close>

fun bits :: "nat \<Rightarrow> nat" where
  "bits n = (if n = 0 then 0 else Suc (bits (n div 2)))"

declare bits.simps [simp del]

definition round_even :: "nat \<Rightarrow> nat \<Rightarrow> nat" where
  "round_even u x =
     (let q = x div u; r = x mod u
      in if 2 * r < u \<or> (2 * r = u \<and> even q) then q * u else (q + 1) * u)"

text \<open>Rounding to 53 significant bits.\<close>

definition to_double :: "nat \<Rightarrow> nat" where
  "to_double x = round_even (2 ^ (bits x - 53)) x"

text \<open>The quantiles as the compiler stores them: \<open>q\<close> is \<open>quantile / 2 ^ 53\<close>.\<close>

definition q50 :: nat where "q50 = 4503599627370496"
definition q90 :: nat where "q90 = 8106479329266893"
definition q99 :: nat where "q99 = 8917127262193582"
definition q999 :: nat where "q999 = 8998192055486251"

text \<open>\<open>(size_t)(q * (all.size() - 1))\<close>.\<close>

definition pick_index :: "nat \<Rightarrow> size_t \<Rightarrow> size_t" where
  "pick_index q n = to_double (q * to_double (sz_sub n 1)) div 2 ^ 53"

definition pick :: "32 word list \<Rightarrow> nat \<Rightarrow> client_error + 32 word" where
  "pick xs q = (let i = pick_index q (length xs) in if i < length xs then Inr (xs ! i) else Inl IndexOutside)"

record latency_report =
  p50 :: "32 word"
  p90 :: "32 word"
  p99 :: "32 word"
  p999 :: "32 word"
  min_v :: "32 word"
  max_v :: "32 word"
  sample_count :: size_t

definition report_zero :: latency_report where
  "report_zero = \<lparr>p50 = 0, p90 = 0, p99 = 0, p999 = 0, min_v = 0, max_v = 0, sample_count = 0\<rparr>"

definition compute_percentiles :: "latency_recorder list \<Rightarrow> client_error + latency_report" where
  "compute_percentiles ls =
     (let xs = concat (map samples_us ls); r = report_zero\<lparr>sample_count := length xs\<rparr> in
      if xs = [] then Inr r
      else let xs = sort xs in
        rbind (pick xs q50) (\<lambda>a. rbind (pick xs q90) (\<lambda>b. rbind (pick xs q99) (\<lambda>c. rbind (pick xs q999) (\<lambda>d.
          Inr (r\<lparr>min_v := hd xs, max_v := last xs, p50 := a, p90 := b, p99 := c, p999 := d\<rparr>))))))"

subsection \<open>Rounding\<close>

lemma bits_0 [simp]: "bits 0 = 0"
  by (simp add: bits.simps [of 0])

lemma bits_bounds: "x < 2 ^ bits x \<and> (0 < x \<longrightarrow> 2 ^ (bits x - 1) \<le> x)"
proof (induction x rule: bits.induct)
  case (1 x)
  show ?case
  proof (cases "x = 0")
    case False
    with 1 have IH: "x div 2 < 2 ^ bits (x div 2)" "0 < x div 2 \<longrightarrow> 2 ^ (bits (x div 2) - 1) \<le> x div 2" by auto
    have b: "bits x = Suc (bits (x div 2))" using False by (simp add: bits.simps [of x])
    have "2 ^ bits (x div 2) \<le> x"
    proof (cases "x div 2 = 0")
      case True
      then show ?thesis using False by simp
    next
      case z: False
      then have "bits (x div 2) = Suc (bits (x div 2) - 1)" by (simp add: bits.simps [of "x div 2"])
      then have "(2::nat) ^ bits (x div 2) = 2 * 2 ^ (bits (x div 2) - 1)" by (metis power_Suc)
      then show ?thesis using IH(2) z by linarith
    qed
    moreover have "x < 2 * 2 ^ bits (x div 2)" using IH(1) by linarith
    ultimately show ?thesis using b by simp
  qed simp
qed

lemma bits_mono: "x \<le> y \<Longrightarrow> bits x \<le> bits y"
proof (rule ccontr)
  assume "x \<le> y" "\<not> bits x \<le> bits y"
  then have "y < 2 ^ bits y" "(2::nat) ^ bits y \<le> 2 ^ (bits x - 1)" "0 < bits x" using bits_bounds [of y] by auto
  moreover have "2 ^ (bits x - 1) \<le> x" using bits_bounds [of x] calculation(3) by (cases "x = 0") auto
  ultimately show False using \<open>x \<le> y\<close> by linarith
qed

lemma round_even_bounds: "x div u * u \<le> round_even u x" "round_even u x \<le> (x div u + 1) * u"
  by (auto simp: round_even_def Let_def)

lemma round_even_ge: "c * u \<le> x \<Longrightarrow> 0 < u \<Longrightarrow> c * u \<le> round_even u x"
proof -
  assume "c * u \<le> x" "0 < u"
  then have "c \<le> x div u" by (simp add: less_eq_div_iff_mult_less_eq)
  then have "c * u \<le> x div u * u" by (rule mult_le_mono1)
  then show ?thesis using round_even_bounds(1) by (rule le_trans)
qed

lemma round_even_le: "x \<le> c * u \<Longrightarrow> 0 < u \<Longrightarrow> round_even u x \<le> c * u"
proof -
  assume a: "x \<le> c * u" "0 < u"
  show ?thesis
  proof (cases "x mod u = 0")
    case True
    then have "round_even u x = x" using a(2) by (auto simp: round_even_def Let_def)
    with a show ?thesis by simp
  next
    case False
    then have "x div u < c" using a by (metis div_less_iff_less_mult le_neq_implies_less mod_mult_self2_is_0)
    then have "(x div u + 1) * u \<le> c * u" by (intro mult_le_mono1) simp
    with round_even_bounds(2) show ?thesis by (rule le_trans)
  qed
qed

lemma round_even_mono:
  assumes "x \<le> y" and "0 < u"
  shows "round_even u x \<le> round_even u y"
proof (cases "x div u = y div u")
  case True
  have "x div u * u + x mod u \<le> x div u * u + y mod u" using assms(1) by (metis True div_mult_mod_eq)
  then have "x mod u \<le> y mod u" by (simp only: add_le_cancel_left)
  then show ?thesis using True by (auto simp: round_even_def Let_def)
next
  case False
  then have lt: "x div u + 1 \<le> y div u" using div_le_mono [OF assms(1), of u] by simp
  have "round_even u x \<le> (x div u + 1) * u" by (rule round_even_bounds)
  also have "\<dots> \<le> y div u * u" using lt by (rule mult_le_mono1)
  also have "\<dots> \<le> round_even u y" by (rule round_even_bounds)
  finally show ?thesis .
qed

lemma to_double_mono:
  assumes "x \<le> y"
  shows "to_double x \<le> to_double y"
proof (cases "bits x = bits y")
  case True
  then show ?thesis using round_even_mono [OF assms] by (simp add: to_double_def)
next
  case False
  then have lt: "bits x \<le> bits y - 1" using bits_mono [OF assms] by simp
  have y: "2 ^ (bits y - 1) \<le> y" using bits_bounds [of y] False assms by (cases "y = 0") auto
  have ux: "2 ^ bits x = (2 ^ (bits x - (bits x - 53)) :: nat) * 2 ^ (bits x - 53)" by (simp flip: power_add)
  have uy: "2 ^ (bits y - 1) = (2 ^ (bits y - 1 - (bits y - 53)) :: nat) * 2 ^ (bits y - 53)" by (simp flip: power_add)
  have "to_double x \<le> 2 ^ bits x"
    unfolding to_double_def ux by (rule round_even_le) (use bits_bounds [of x] in \<open>simp_all flip: ux\<close>)
  also have "\<dots> \<le> 2 ^ (bits y - 1)" using lt by simp
  also have "\<dots> \<le> to_double y"
    using round_even_ge [of "2 ^ (bits y - 1 - (bits y - 53))" "2 ^ (bits y - 53)" y, folded uy] y
    by (simp add: to_double_def)
  finally show ?thesis .
qed

lemma to_double_exact: "bits m \<le> 53 \<Longrightarrow> to_double (m * 2 ^ k) = m * 2 ^ k"
proof -
  assume m: "bits m \<le> 53"
  have "m * 2 ^ k < 2 ^ (bits m + k)" using bits_bounds [of m] by (simp add: power_add)
  have "2 ^ (bits (m * 2 ^ k) - 53) dvd m * 2 ^ k"
  proof (cases "m = 0")
    case False
    have "2 ^ (bits (m * 2 ^ k) - 1) \<le> m * 2 ^ k" using bits_bounds [of "m * 2 ^ k"] False by simp
    also have "\<dots> < 2 ^ (bits m + k)" by fact
    finally have "bits (m * 2 ^ k) - 1 < bits m + k" by (simp add: power_less_imp_less_exp)
    then have "bits (m * 2 ^ k) - 53 \<le> k" using m by linarith
    then show ?thesis by (simp add: dvd_mult le_imp_power_dvd)
  qed simp
  then show ?thesis by (auto simp: to_double_def round_even_def Let_def elim!: dvdE)
qed

lemma bits_le: "x < 2 ^ k \<Longrightarrow> bits x \<le> k"
proof (rule ccontr)
  assume x: "x < 2 ^ k" and "\<not> bits x \<le> k"
  then have "(2::nat) ^ k \<le> 2 ^ (bits x - 1)" "x \<noteq> 0" by (simp, cases "x = 0") simp_all
  with bits_bounds [of x] x show False by linarith
qed

lemma to_double_small: "x < 2 ^ 53 \<Longrightarrow> to_double x = x"
  using to_double_exact [of x 0] bits_le [of x 53] by simp

text \<open>The indices of the quantiles, for sizes that a \<open>double\<close> holds exactly.\<close>

lemma pick_index_mono: "q \<le> q' \<Longrightarrow> pick_index q n \<le> pick_index q' n"
  unfolding pick_index_def by (intro div_le_mono to_double_mono mult_le_mono1)

lemma pick_index_less:
  assumes "q < 2 ^ 53" and "0 < n" and "n \<le> 2 ^ 53"
  shows "pick_index q n < n"
proof -
  have n: "sz_sub n 1 = n - 1" using assms by (simp add: sz_simps sz_max_def)
  have "to_double (q * (n - 1)) \<le> to_double ((n - 1) * 2 ^ 53)"
    using assms(1) by (intro to_double_mono) (simp add: mult.commute)
  also have "\<dots> = (n - 1) * 2 ^ 53" using assms(3) bits_le [of "n - 1" 53] by (intro to_double_exact) (simp add: assms(2))
  finally have "pick_index q n \<le> (n - 1) * 2 ^ 53 div 2 ^ 53"
    using assms unfolding pick_index_def n by (intro div_le_mono) (simp add: to_double_small)
  then show ?thesis using assms(2) by simp
qed

lemma pick_index_q50: "0 < n \<Longrightarrow> n \<le> 2 ^ 53 \<Longrightarrow> pick_index q50 n = (n - 1) div 2"
proof -
  assume n: "0 < n" "n \<le> 2 ^ 53"
  then have s: "sz_sub n 1 = n - 1" "to_double (n - 1) = n - 1" by (simp_all add: sz_simps sz_max_def to_double_small)
  have "to_double (q50 * (n - 1)) = (n - 1) * 2 ^ 52"
    using to_double_exact [of "n - 1" 52] bits_le [of "n - 1" 53] n by (simp add: q50_def mult.commute)
  then have "pick_index q50 n = (n - 1) * 2 ^ 52 div (2 ^ 52 * 2)" unfolding pick_index_def s by simp
  also have "\<dots> = (n - 1) div 2" by (simp only: mult.commute [of "n - 1"] div_mult_mult1) simp
  finally show ?thesis .
qed

lemma pick_inside: "pick_index q (length xs) < length xs \<Longrightarrow> pick (sort xs) q = Inr (sort xs ! pick_index q (length xs))"
  by (simp add: pick_def Let_def)

lemma sorted_hd_le_last:
  assumes "sorted xs" and "i \<le> j" and "j < length xs"
  shows "hd xs \<le> xs ! i \<and> xs ! i \<le> xs ! j \<and> xs ! j \<le> last xs"
  using assms sorted_nth_mono [OF assms(1), of 0 i] sorted_nth_mono [OF assms] sorted_nth_mono [OF assms(1), of j "length xs - 1"]
  by (cases "xs = []") (auto simp: hd_conv_nth last_conv_nth)

text \<open>
  The latency recorder.  Recording never fails or writes outside its samples; it keeps at most
  the configured number of samples, each of them one of the recorded values and no value more often
  than it was recorded, and everything, in order, while it fits.
\<close>

theorem recorder_keeps_a_sample:
  assumes "0 \<le> cap" and "cap < 2 ^ 31" and "length us < 2 ^ 64" and "recorder_new cap = Inr l"
  shows "\<exists>l' s'. record_all us (l, s) = Inr (l', s') \<and> total_seen l' = of_nat (length us)
    \<and> length (samples_us l') = min (length us) (nat cap) \<and> mset (samples_us l') \<subseteq># mset us
    \<and> (length us \<le> nat cap \<longrightarrow> samples_us l' = us)"
proof -
  have "recorder_ok cap [] l" using recorder_new_ok [OF assms(1,2)] assms(4) by auto
  from record_all_ok [OF this, of us s] assms(3) show ?thesis by (auto simp: recorder_ok_def)
qed

theorem recorder_keeps_a_sample_witness:
  "\<exists>l' s'. record_all [7, 9, 4] (\<lparr>samples_us = [], max_samples = 2, total_seen = 0\<rparr>, lcg_seed) = Inr (l', s')
     \<and> length (samples_us l') = 2 \<and> mset (samples_us l') \<subseteq># {#7, 9, 4#}"
proof -
  have "recorder_new 2 = Inr \<lparr>samples_us = [], max_samples = 2, total_seen = 0\<rparr>" by (simp add: recorder_new_def)
  from recorder_keeps_a_sample [OF _ _ _ this, of "[7, 9, 4]" lcg_seed] show ?thesis by auto
qed

text \<open>
  The latency report.  For any samples (no more than a \<open>double\<close> counts exactly) the report is
  computed without reading outside them; minimum, percentiles and maximum are samples in increasing
  order, nothing lies outside them, and \<open>p50\<close> is the lower median.
\<close>

theorem percentiles_are_ordered:
  assumes "xs = concat (map samples_us ls)" and "xs \<noteq> []" and "length xs \<le> 2 ^ 53"
  shows "\<exists>r. compute_percentiles ls = Inr r \<and> sample_count r = length xs
    \<and> min_v r \<le> p50 r \<and> p50 r \<le> p90 r \<and> p90 r \<le> p99 r \<and> p99 r \<le> p999 r \<and> p999 r \<le> max_v r
    \<and> {min_v r, p50 r, p90 r, p99 r, p999 r, max_v r} \<subseteq> set xs \<and> set xs \<subseteq> {min_v r .. max_v r}
    \<and> p50 r = sort xs ! ((length xs - 1) div 2)"
proof -
  let ?n = "length xs" and ?s = "sort xs"
  have n: "0 < ?n" "?s \<noteq> []" using assms(2) by (simp_all flip: length_greater_0_conv)
  have q: "q50 < 2 ^ 53" "q90 < 2 ^ 53" "q99 < 2 ^ 53" "q999 < 2 ^ 53" "q50 \<le> q90" "q90 \<le> q99" "q99 \<le> q999"
    by (simp_all add: q50_def q90_def q99_def q999_def)
  note less = pick_index_less [OF q(1) n(1) assms(3)] pick_index_less [OF q(2) n(1) assms(3)]
    pick_index_less [OF q(3) n(1) assms(3)] pick_index_less [OF q(4) n(1) assms(3)]
  note le = q(5-7) [THEN pick_index_mono, of ?n]
  define r where "r = \<lparr>p50 = ?s ! pick_index q50 ?n, p90 = ?s ! pick_index q90 ?n, p99 = ?s ! pick_index q99 ?n,
    p999 = ?s ! pick_index q999 ?n, min_v = hd ?s, max_v = last ?s, sample_count = ?n\<rparr>"
  have run: "compute_percentiles ls = Inr r"
    unfolding compute_percentiles_def assms(1) [symmetric] Let_def r_def
    using assms(2) pick_inside [OF less(1)] pick_inside [OF less(2)] pick_inside [OF less(3)] pick_inside [OF less(4)]
    by (simp add: report_zero_def)
  note ord = sorted_hd_le_last [of ?s]
  have mem: "?s ! i \<in> set xs" if "i < ?n" for i using that by (metis length_sort nth_mem set_sort)
  have "hd ?s \<in> set xs" "last ?s \<in> set xs" using n(2) by (metis hd_in_set set_sort, metis last_in_set set_sort)
  then have sub: "{min_v r, p50 r, p90 r, p99 r, p999 r, max_v r} \<subseteq> set xs" using mem less by (simp add: r_def)
  have all: "set xs \<subseteq> {min_v r .. max_v r}"
  proof
    fix x assume "x \<in> set xs"
    then obtain i where "i < ?n" "?s ! i = x" by (metis in_set_conv_nth length_sort set_sort)
    then show "x \<in> {min_v r .. max_v r}" using ord [of i i] by (simp add: r_def)
  qed
  have "min_v r \<le> p50 r \<and> p50 r \<le> p90 r" "p90 r \<le> p99 r" "p99 r \<le> p999 r \<and> p999 r \<le> max_v r"
    using ord [OF _ le(1)] ord [OF _ le(2)] ord [OF _ le(3)] less by (simp_all add: r_def)
  moreover have "p50 r = ?s ! ((?n - 1) div 2)" using pick_index_q50 [OF n(1) assms(3)] by (simp add: r_def)
  moreover have "sample_count r = ?n" by (simp add: r_def)
  ultimately show ?thesis using run sub all by blast
qed

theorem percentiles_are_ordered_witness:
  "\<exists>r. compute_percentiles [\<lparr>samples_us = [30, 10], max_samples = 9, total_seen = 2\<rparr>,
       \<lparr>samples_us = [20], max_samples = 9, total_seen = 1\<rparr>] = Inr r
     \<and> sample_count r = 3 \<and> p50 r \<le> p99 r \<and> p50 r = sort [30, 10, 20] ! 1"
proof -
  let ?ls = "[\<lparr>samples_us = [30, 10], max_samples = 9, total_seen = 2\<rparr>, \<lparr>samples_us = [20], max_samples = 9, total_seen = 1\<rparr>]"
  have xs: "[30, 10, 20] = concat (map samples_us ?ls)" by simp
  have n: "length [30, 10, 20 :: 32 word] = 3" "(3::nat) - 1 = 2" "(2::nat) div 2 = 1" by simp_all
  have ne: "[30, 10, 20 :: 32 word] \<noteq> []" and le: "(3::nat) \<le> 2 ^ 53" by simp_all
  obtain r where "compute_percentiles ?ls = Inr r" "sample_count r = 3" "p50 r \<le> p90 r" "p90 r \<le> p99 r"
      "p50 r = sort [30, 10, 20] ! 1"
    using percentiles_are_ordered [OF xs, unfolded n, OF ne le] by (elim exE conjE) (rule that)
  then show ?thesis by (blast intro: order_trans)
qed

end
