(* ===== verification/Echo_Client.thy ===== *)
theory Echo_Client
  imports Echo_Stats Inet_Address
begin

text \<open>
  The benchmark client (\<open>benchmark/legacy/echo_client.cc\<close>): command line, connections, the epoll
  loop of one thread and the distribution of connections over threads.  What the system calls
  return, and the clock, are arguments: \<open>recv\<close> never returns more than it is asked for, so an
  answer is cut to the length of the request.  Counters are 64-bit words.
\<close>

section \<open>Command line\<close>

record options =
  host :: string
  opt_port :: "16 word"
  threads :: int
  connections :: int
  duration_s :: int
  warmup_s :: int
  msg_size :: int
  opt_max_samples :: int

definition options_new :: options where
  "options_new = \<lparr>host = ''127.0.0.1'', opt_port = 8002, threads = 1, connections = 100, duration_s = 30,
     warmup_s = 5, msg_size = 64, opt_max_samples = 1000000\<rparr>"

datatype client_exit = ExpectsArgument string | HelpShown | UnknownArg string

fun exit_status :: "client_exit \<Rightarrow> int" where
  "exit_status (ExpectsArgument a) = 2"
| "exit_status HelpShown = 0"
| "exit_status (UnknownArg a) = 2"

definition option_setter :: "string \<Rightarrow> (string \<Rightarrow> options \<Rightarrow> options) option" where
  "option_setter a =
     (if a = ''--host'' then Some (\<lambda>v p. p\<lparr>host := v\<rparr>)
      else if a = ''--port'' then Some (\<lambda>v p. p\<lparr>opt_port := word_of_int (atoi v)\<rparr>)
      else if a = ''--threads'' \<or> a = ''-t'' then Some (\<lambda>v p. p\<lparr>threads := atoi v\<rparr>)
      else if a = ''--connections'' \<or> a = ''-c'' then Some (\<lambda>v p. p\<lparr>connections := atoi v\<rparr>)
      else if a = ''--duration'' \<or> a = ''-d'' then Some (\<lambda>v p. p\<lparr>duration_s := atoi v\<rparr>)
      else if a = ''--warmup'' then Some (\<lambda>v p. p\<lparr>warmup_s := atoi v\<rparr>)
      else if a = ''--msg-size'' \<or> a = ''-m'' then Some (\<lambda>v p. p\<lparr>msg_size := atoi v\<rparr>)
      else if a = ''--max-samples'' then Some (\<lambda>v p. p\<lparr>opt_max_samples := atoi v\<rparr>)
      else None)"

fun parse_loop :: "string list \<Rightarrow> options \<Rightarrow> client_exit + options" where
  "parse_loop [] p = Inr p"
| "parse_loop (a # args) p =
     (case option_setter a of
        Some f \<Rightarrow> (case args of [] \<Rightarrow> Inl (ExpectsArgument a) | v # args' \<Rightarrow> parse_loop args' (f v p))
      | None \<Rightarrow> if a = ''-h'' \<or> a = ''--help'' then Inl HelpShown else Inl (UnknownArg a))"

definition parse_args :: "string list \<Rightarrow> client_exit + options" where
  "parse_args argv = parse_loop (tl argv) options_new"

section \<open>Connections\<close>

record conn =
  c_fd :: int
  read_buf :: string
  read_off :: int
  send_time :: int                     \<comment> \<open>nanoseconds of the steady clock\<close>

definition conn_init :: conn where
  "conn_init = \<lparr>c_fd = - 1, read_buf = [], read_off = 0, send_time = 0\<rparr>"

record thread_stat =
  messages :: "64 word"
  bytes_in :: "64 word"
  bytes_out :: "64 word"
  err_connect :: "64 word"
  err_read :: "64 word"
  err_write :: "64 word"
  lat :: latency_recorder

definition thread_stat_new :: "int \<Rightarrow> client_error + thread_stat" where
  "thread_stat_new cap = rbind (recorder_new cap) (\<lambda>l.
     Inr \<lparr>messages = 0, bytes_in = 0, bytes_out = 0, err_connect = 0, err_read = 0, err_write = 0, lat = l\<rparr>)"

text \<open>What the calls for one connection return.\<close>

record conn_env =
  e_socket :: int
  e_connect :: "sockaddr_in \<Rightarrow> int"
  e_now :: int
  e_send :: int

text \<open>\<open>make_conn\<close>: the descriptor, and the descriptors opened and closed.\<close>

definition make_conn :: "string \<Rightarrow> 16 word \<Rightarrow> conn_env \<Rightarrow> int \<times> int list \<times> int list" where
  "make_conn hst prt e =
     (let fd = e_socket e in
      if fd < 0 then (- 1, [], [])
      else if e_connect e (inet_address prt hst) < 0 then (- 1, [fd], [fd])
      else (fd, [fd], []))"

record bench_worker =
  wk_conns :: "conn list"
  wk_stat :: thread_stat
  wk_lcg :: "64 word"                  \<comment> \<open>the thread-local generator\<close>
  wk_opened :: "int list"              \<comment> \<open>history: descriptors from \<open>socket\<close>\<close>
  wk_closed :: "int list"              \<comment> \<open>history: descriptors passed to \<open>close\<close>\<close>
  wk_rounds :: nat                     \<comment> \<open>history: messages that came back whole\<close>

text \<open>The result of a \<open>send\<close> is counted; what was not sent is not tried again.\<close>

definition count_send :: "int \<Rightarrow> thread_stat \<Rightarrow> thread_stat" where
  "count_send n st =
     (if n < 0 then st\<lparr>err_write := err_write st + 1\<rparr> else st\<lparr>bytes_out := bytes_out st + word_of_int n\<rparr>)"

definition open_one :: "options \<Rightarrow> nat \<Rightarrow> conn_env \<Rightarrow> bench_worker \<Rightarrow> bench_worker" where
  "open_one p i e w =
     (let (fd, ops, cls) = make_conn (host p) (opt_port p) e;
          c = (wk_conns w ! i)\<lparr>c_fd := fd\<rparr>;
          w = w\<lparr>wk_conns := (wk_conns w)[i := c], wk_opened := wk_opened w @ ops, wk_closed := wk_closed w @ cls\<rparr>
      in if fd < 0 then w\<lparr>wk_stat := (wk_stat w)\<lparr>err_connect := err_connect (wk_stat w) + 1\<rparr>\<rparr>
         else w\<lparr>wk_conns := (wk_conns w)[i := c\<lparr>read_buf := vec_resize (char_of (0::nat)) (nat (msg_size p)) (read_buf c),
                                        send_time := e_now e\<rparr>],
                wk_stat := count_send (e_send e) (wk_stat w)\<rparr>)"

fun open_loop :: "options \<Rightarrow> nat \<Rightarrow> conn_env list \<Rightarrow> bench_worker \<Rightarrow> bench_worker" where
  "open_loop p i [] w = w"
| "open_loop p i (e # es) w = open_loop p (Suc i) es (open_one p i e w)"

section \<open>The event loop\<close>

text \<open>
  Answers of \<open>recv\<close> until it would block: bytes (none: the peer has closed), with the clock before
  and after and the result of the \<open>send\<close> that may follow; or an error.
\<close>

datatype recv_answer = Got string int int int | RecvFailed

definition close_conn :: "nat \<Rightarrow> bench_worker \<Rightarrow> bench_worker" where
  "close_conn i w = w\<lparr>wk_closed := wk_closed w @ [c_fd (wk_conns w ! i)],
     wk_conns := (wk_conns w)[i := (wk_conns w ! i)\<lparr>c_fd := - 1\<rparr>]\<rparr>"

definition count_err_read :: "bench_worker \<Rightarrow> bench_worker" where
  "count_err_read w = w\<lparr>wk_stat := (wk_stat w)\<lparr>err_read := err_read (wk_stat w) + 1\<rparr>\<rparr>"

text \<open>A message is complete: measure it unless warming up, and send the next one.\<close>

definition complete_round :: "bool \<Rightarrow> int \<Rightarrow> int \<Rightarrow> int \<Rightarrow> nat \<Rightarrow> bench_worker \<Rightarrow> client_error + bench_worker" where
  "complete_round in_warmup now now' n i w =
     (let c = wk_conns w ! i; us = word_of_int (c_div (now - send_time c) 1000) in
      rbind (if in_warmup then Inr (wk_stat w, wk_lcg w)
             else rbind (record_us us (lat (wk_stat w), wk_lcg w)) (\<lambda>(l, s).
               Inr ((wk_stat w)\<lparr>lat := l, messages := messages (wk_stat w) + 1\<rparr>, s))) (\<lambda>(st, s).
      Inr (w\<lparr>wk_conns := (wk_conns w)[i := c\<lparr>read_off := 0, send_time := now'\<rparr>],
             wk_stat := count_send n st, wk_lcg := s, wk_rounds := Suc (wk_rounds w)\<rparr>)))"

text \<open>One turn of the receiving loop; the flag says whether it goes on.\<close>

fun recv_turn :: "options \<Rightarrow> bool \<Rightarrow> nat \<Rightarrow> recv_answer \<Rightarrow> bench_worker \<Rightarrow> client_error + (bench_worker \<times> bool)" where
  "recv_turn p wu i RecvFailed w = Inr (close_conn i (count_err_read w), False)"
| "recv_turn p wu i (Got bs now now' n) w =
     (let c = wk_conns w ! i; d = take (nat (msg_size p - read_off c)) bs in
      if d = [] then Inr (close_conn i w, False)
      else if nat (read_off c) + length d > length (read_buf c) then Inl IndexOutside
      else let c = c\<lparr>read_buf := mem_write (read_buf c) (nat (read_off c)) d, read_off := read_off c + int (length d)\<rparr>;
               w = w\<lparr>wk_conns := (wk_conns w)[i := c],
                     wk_stat := (wk_stat w)\<lparr>bytes_in := bytes_in (wk_stat w) + of_nat (length d)\<rparr>\<rparr>
           in if read_off c \<ge> msg_size p
              then rbind (complete_round wu now now' n i w) (\<lambda>w. Inr (w, True))
              else Inr (w, True))"

fun recv_loop :: "options \<Rightarrow> bool \<Rightarrow> nat \<Rightarrow> recv_answer list \<Rightarrow> bench_worker \<Rightarrow> client_error + bench_worker" where
  "recv_loop p wu i [] w = Inr w"
| "recv_loop p wu i (a # as) w = rbind (recv_turn p wu i a w) (\<lambda>(w, go). if go then recv_loop p wu i as w else Inr w)"

record ep_event =
  ev_error :: bool                     \<comment> \<open>\<open>EPOLLERR | EPOLLHUP\<close>\<close>
  ev_in :: bool                        \<comment> \<open>\<open>EPOLLIN\<close>\<close>
  ev_idx :: nat
  ev_answers :: "recv_answer list"

definition handle_event :: "options \<Rightarrow> bool \<Rightarrow> ep_event \<Rightarrow> bench_worker \<Rightarrow> client_error + bench_worker" where
  "handle_event p wu v w =
     (if ev_idx v \<ge> length (wk_conns w) then Inl IndexOutside
      else if c_fd (wk_conns w ! ev_idx v) < 0 then Inr w
      else if ev_error v then Inr (close_conn (ev_idx v) (count_err_read w))
      else if ev_in v then recv_loop p wu (ev_idx v) (ev_answers v) w
      else Inr w)"

fun handle_events :: "options \<Rightarrow> bool \<Rightarrow> ep_event list \<Rightarrow> bench_worker \<Rightarrow> client_error + bench_worker" where
  "handle_events p wu [] w = Inr w"
| "handle_events p wu (v # vs) w = rbind (handle_event p wu v w) (handle_events p wu vs)"

text \<open>\<open>epoll_wait\<close> until the stop flag is set: an error (interrupted or not), or events.\<close>

datatype wait_result = WaitFailed bool | Ready bool "ep_event list"

fun worker_loop :: "options \<Rightarrow> wait_result list \<Rightarrow> bench_worker \<Rightarrow> client_error + bench_worker" where
  "worker_loop p [] w = Inr w"
| "worker_loop p (WaitFailed eintr # bs) w = (if eintr then worker_loop p bs w else Inr w)"
| "worker_loop p (Ready wu vs # bs) w = rbind (handle_events p wu vs w) (worker_loop p bs)"

definition worker_init :: "thread_stat \<Rightarrow> nat \<Rightarrow> bench_worker" where
  "worker_init st n = \<lparr>wk_conns = replicate n conn_init, wk_stat = st, wk_lcg = lcg_seed,
     wk_opened = [], wk_closed = [], wk_rounds = 0\<rparr>"

definition close_all :: "int \<Rightarrow> bench_worker \<Rightarrow> bench_worker" where
  "close_all epfd w = w\<lparr>wk_closed := wk_closed w @ filter (\<lambda>fd. fd \<ge> 0) (map c_fd (wk_conns w)) @ [epfd]\<rparr>"

definition run_worker :: "options \<Rightarrow> int \<Rightarrow> conn_env list \<Rightarrow> wait_result list \<Rightarrow> thread_stat \<Rightarrow> client_error + bench_worker" where
  "run_worker p epfd envs bs st =
     (let w = worker_init st (length envs) in
      if epfd < 0 then Inr (w\<lparr>wk_conns := []\<rparr>)
      else if msg_size p < 0 then Inl LengthError
      else if msg_size p = 0 then Inl EmptyPayload
      else rbind (worker_loop p bs (open_loop p 0 envs (w\<lparr>wk_opened := [epfd]\<rparr>))) (\<lambda>w. Inr (close_all epfd w)))"

section \<open>Distribution and totals\<close>

definition per_thread :: "options \<Rightarrow> client_error + int" where
  "per_thread p =
     (let a = connections p + threads p; b = a - 1 in
      if a \<ge> 2 ^ 31 \<or> a < - (2 ^ 31) \<or> b < - (2 ^ 31) then Inl SignedOverflow
      else if threads p = 0 then Inl DivisionByZero
      else Inr (c_div b (threads p)))"

text \<open>The counts handed to the threads that are started, the loop over \<open>i\<close> with \<open>m\<close> turns left.\<close>

fun thread_counts :: "int \<Rightarrow> int \<Rightarrow> nat \<Rightarrow> nat \<Rightarrow> int list" where
  "thread_counts per cs i 0 = []"
| "thread_counts per cs i (Suc m) =
     (let n = min per (cs - per * int i) in if n \<le> 0 then [] else n # thread_counts per cs (Suc i) m)"

definition start_threads :: "options \<Rightarrow> client_error + int list" where
  "start_threads p =
     (if threads p < 0 then Inl LengthError
      else rbind (per_thread p) (\<lambda>per. Inr (thread_counts per (connections p) 0 (nat (threads p)))))"

definition sum_stats :: "(thread_stat \<Rightarrow> 64 word) \<Rightarrow> thread_stat list \<Rightarrow> 64 word" where
  "sum_stats f sts = foldl (\<lambda>a st. a + f st) 0 sts"

record totals =
  total_msg :: "64 word"
  t_bytes_in :: "64 word"
  t_bytes_out :: "64 word"
  t_err_conn :: "64 word"
  t_err_r :: "64 word"
  t_err_w :: "64 word"

definition client_totals :: "thread_stat list \<Rightarrow> client_error + (totals \<times> latency_report)" where
  "client_totals sts =
     (let t = \<lparr>total_msg = sum_stats messages sts, t_bytes_in = sum_stats bytes_in sts, t_bytes_out = sum_stats bytes_out sts,
               t_err_conn = sum_stats err_connect sts, t_err_r = sum_stats err_read sts, t_err_w = sum_stats err_write sts\<rparr>
      in rbind (compute_percentiles (map lat sts)) (\<lambda>r. Inr (t, r)))"

section \<open>Invariant of a worker\<close>

definition conn_ok :: "options \<Rightarrow> conn \<Rightarrow> bool" where
  "conn_ok p c \<longleftrightarrow> 0 \<le> read_off c \<and> read_off c < msg_size p \<and> (0 \<le> c_fd c \<longrightarrow> length (read_buf c) = nat (msg_size p))"

definition fd_of :: "conn \<Rightarrow> int multiset" where
  "fd_of c = (if 0 \<le> c_fd c then {#c_fd c#} else {#})"

definition pending :: "conn \<Rightarrow> nat" where
  "pending c = nat (read_off c)"

definition worker_ok :: "options \<Rightarrow> int \<Rightarrow> int \<Rightarrow> bench_worker \<Rightarrow> bool" where
  "worker_ok p cap epfd w \<longleftrightarrow> list_all (conn_ok p) (wk_conns w)
     \<and> mset (wk_opened w) = add_mset epfd (mset (wk_closed w) + sum_list (map fd_of (wk_conns w)))
     \<and> bytes_in (wk_stat w) = of_nat (nat (msg_size p) * wk_rounds w + sum_list (map pending (wk_conns w)))
     \<and> (\<exists>seen. recorder_ok cap seen (lat (wk_stat w)) \<and> messages (wk_stat w) = of_nat (length seen) \<and> length seen \<le> wk_rounds w)"

lemma worker_okD:
  assumes "worker_ok p cap epfd w"
  shows "list_all (conn_ok p) (wk_conns w)"
    "mset (wk_opened w) = add_mset epfd (mset (wk_closed w) + sum_list (map fd_of (wk_conns w)))"
    "bytes_in (wk_stat w) = of_nat (nat (msg_size p) * wk_rounds w + sum_list (map pending (wk_conns w)))"
    "\<exists>seen. recorder_ok cap seen (lat (wk_stat w)) \<and> messages (wk_stat w) = of_nat (length seen) \<and> length seen \<le> wk_rounds w"
    "i < length (wk_conns w) \<Longrightarrow> conn_ok p (wk_conns w ! i)"
  using assms by (auto simp: worker_ok_def list_all_length)

lemma sum_list_list_update:
  fixes f :: "'a \<Rightarrow> 'b::comm_monoid_add"
  shows "i < length xs \<Longrightarrow> sum_list (map f (xs[i := x])) + f (xs ! i) = sum_list (map f xs) + f x"
proof (induction xs arbitrary: i)
  case (Cons y xs)
  show ?case
  proof (cases i)
    case 0
    then show ?thesis by (simp add: ac_simps)
  next
    case (Suc j)
    then show ?thesis using Cons.IH [of j] Cons.prems by (simp add: add.assoc)
  qed
qed simp

lemma conns_ok_update:
  "list_all (conn_ok p) cs \<Longrightarrow> conn_ok p c \<Longrightarrow> list_all (conn_ok p) (cs[i := c])"
  by (cases "i < length cs") (auto simp: list_all_length nth_list_update)

text \<open>Closing a connection moves its descriptor from the open ones to the closed ones.\<close>

lemma worker_ok_close:
  assumes ok: "worker_ok p cap epfd w" and i: "i < length (wk_conns w)" and fd: "0 \<le> c_fd (wk_conns w ! i)"
  shows "worker_ok p cap epfd (close_conn i w)"
proof -
  note D = worker_okD [OF ok]
  let ?c = "wk_conns w ! i" and ?cs = "(wk_conns w)[i := (wk_conns w ! i)\<lparr>c_fd := - 1\<rparr>]"
  have "conn_ok p (?c\<lparr>c_fd := - 1\<rparr>)" using D(5) [OF i] by (simp add: conn_ok_def)
  then have "list_all (conn_ok p) ?cs" by (rule conns_ok_update [OF D(1)])
  moreover have "sum_list (map fd_of ?cs) + {#c_fd ?c#} = sum_list (map fd_of (wk_conns w))"
    using sum_list_list_update [OF i, of fd_of "?c\<lparr>c_fd := - 1\<rparr>"] fd by (simp add: fd_of_def)
  moreover have "sum_list (map pending ?cs) = sum_list (map pending (wk_conns w))"
    using sum_list_list_update [OF i, of pending "?c\<lparr>c_fd := - 1\<rparr>"] by (simp add: pending_def)
  ultimately show ?thesis using D(2,3,4) unfolding worker_ok_def close_conn_def by (auto simp flip: \<open>_ + _ = _\<close>)
qed

lemma worker_ok_stat:
  assumes "worker_ok p cap epfd w" and "bytes_in st = bytes_in (wk_stat w)" and "lat st = lat (wk_stat w)"
    and "messages st = messages (wk_stat w)"
  shows "worker_ok p cap epfd (w\<lparr>wk_stat := st\<rparr>)"
  using assms by (simp add: worker_ok_def)

lemma count_send_simps [simp]:
  "bytes_in (count_send n st) = bytes_in st" "lat (count_send n st) = lat st" "messages (count_send n st) = messages st"
  by (simp_all add: count_send_def)

lemma worker_ok_fail: "worker_ok p cap epfd w \<Longrightarrow> worker_ok p cap epfd (count_err_read w)"
  unfolding count_err_read_def by (rule worker_ok_stat) auto

text \<open>A connection object that keeps its descriptor is replaced.\<close>

lemma worker_ok_conn:
  assumes ok: "worker_ok p cap epfd w" and i: "i < length (wk_conns w)" and c: "conn_ok p c" "c_fd c = c_fd (wk_conns w ! i)"
    and st: "bytes_in st = of_nat (nat (msg_size p) * rounds + (sum_list (map pending (wk_conns w)) - pending (wk_conns w ! i) + pending c))"
    and seen: "recorder_ok cap seen (lat st)" "messages st = of_nat (length seen)" "length seen \<le> rounds"
  shows "worker_ok p cap epfd (w\<lparr>wk_conns := (wk_conns w)[i := c], wk_stat := st, wk_lcg := s, wk_rounds := rounds\<rparr>)"
proof -
  note D = worker_okD [OF ok]
  have "sum_list (map pending ((wk_conns w)[i := c])) = sum_list (map pending (wk_conns w)) - pending (wk_conns w ! i) + pending c"
    using sum_list_list_update [OF i, of pending c] member_le_sum_list [of "pending (wk_conns w ! i)" "map pending (wk_conns w)"] i
    by simp
  moreover have "sum_list (map fd_of ((wk_conns w)[i := c])) = sum_list (map fd_of (wk_conns w))"
    using sum_list_list_update [OF i, of fd_of c] c(2) by (simp add: fd_of_def split: if_splits)
  ultimately show ?thesis using D(2) conns_ok_update [OF D(1) c(1), of i] st seen unfolding worker_ok_def by auto
qed

lemma complete_round_ok:
  assumes "recorder_ok cap seen (lat (wk_stat w))" and "messages (wk_stat w) = of_nat (length seen)"
    and "length seen \<le> wk_rounds w" and "wk_rounds w < 2 ^ 64 - 1"
  shows "\<exists>st s seen'. complete_round wu now now' n i w
      = Inr (w\<lparr>wk_conns := (wk_conns w)[i := (wk_conns w ! i)\<lparr>read_off := 0, send_time := now'\<rparr>],
               wk_stat := st, wk_lcg := s, wk_rounds := Suc (wk_rounds w)\<rparr>)
    \<and> bytes_in st = bytes_in (wk_stat w) \<and> recorder_ok cap seen' (lat st) \<and> messages st = of_nat (length seen')
    \<and> length seen' \<le> Suc (wk_rounds w)"
proof (cases wu)
  case True
  show ?thesis
    by (intro exI [of _ "count_send n (wk_stat w)"] exI [of _ "wk_lcg w"] exI [of _ seen])
      (use True assms in \<open>simp add: complete_round_def Let_def\<close>)
next
  case False
  let ?us = "word_of_int (c_div (now - send_time (wk_conns w ! i)) 1000)"
  obtain l s where "record_us ?us (lat (wk_stat w), wk_lcg w) = Inr (l, s)" "recorder_ok cap (seen @ [?us]) l"
    using record_us_ok [OF assms(1), of ?us "wk_lcg w"] assms(3,4) by auto
  with False assms(2,3) show ?thesis
    by (intro exI [of _ "count_send n ((wk_stat w)\<lparr>lat := l, messages := messages (wk_stat w) + 1\<rparr>)"] exI [of _ s]
        exI [of _ "seen @ [?us]"]) (simp add: complete_round_def Let_def)
qed

lemma recv_turn_ok:
  assumes ok: "worker_ok p cap epfd w" and i: "i < length (wk_conns w)" and fd: "0 \<le> c_fd (wk_conns w ! i)"
    and r: "wk_rounds w < 2 ^ 64 - 1"
  shows "\<exists>w' go. recv_turn p wu i a w = Inr (w', go) \<and> worker_ok p cap epfd w' \<and> length (wk_conns w') = length (wk_conns w)
    \<and> wk_rounds w' \<le> Suc (wk_rounds w) \<and> wk_opened w' = wk_opened w \<and> (go \<longrightarrow> 0 \<le> c_fd (wk_conns w' ! i))"
proof (cases a)
  case RecvFailed
  then show ?thesis using worker_ok_close [OF worker_ok_fail [OF ok], of i] i fd
    by (simp add: close_conn_def count_err_read_def ex_bool_eq)
next
  case (Got bs now now' n)
  note D = worker_okD [OF ok]
  let ?c = "wk_conns w ! i"
  define d where "d = take (nat (msg_size p - read_off ?c)) bs"
  note c = D(5) [OF i, unfolded conn_ok_def]
  show ?thesis
  proof (cases "d = []")
    case True
    then have "recv_turn p wu i a w = Inr (close_conn i w, False)" using Got by (simp add: d_def Let_def)
    then show ?thesis using worker_ok_close [OF ok i fd] by (simp add: close_conn_def ex_bool_eq)
  next
    case False
    have len: "int (length d) \<le> msg_size p - read_off ?c" using c by (simp add: d_def min_def) linarith
    then have room: "nat (read_off ?c) + length d \<le> length (read_buf ?c)" using c fd by linarith
    define c1 where "c1 = ?c\<lparr>read_buf := mem_write (read_buf ?c) (nat (read_off ?c)) d, read_off := read_off ?c + int (length d)\<rparr>"
    define st1 where "st1 = (wk_stat w)\<lparr>bytes_in := bytes_in (wk_stat w) + of_nat (length d)\<rparr>"
    define w1 where "w1 = w\<lparr>wk_conns := (wk_conns w)[i := c1], wk_stat := st1\<rparr>"
    have step: "recv_turn p wu i a w = (if read_off c1 \<ge> msg_size p
        then rbind (complete_round wu now now' n i w1) (\<lambda>w. Inr (w, True)) else Inr (w1, True))"
      unfolding Got recv_turn.simps Let_def d_def [symmetric] c1_def [symmetric] w1_def st1_def using False room by simp
    have buf: "length (read_buf c1) = length (read_buf ?c)" using room by (simp add: c1_def length_mem_write)
    have b1: "bytes_in st1 = of_nat (nat (msg_size p) * wk_rounds w + sum_list (map pending (wk_conns w)) + length d)"
      using D(3) by (simp add: st1_def)
    have pend: "pending ?c \<le> sum_list (map pending (wk_conns w))"
      using member_le_sum_list [of "pending ?c" "map pending (wk_conns w)"] i by simp
    obtain seen where seen: "recorder_ok cap seen (lat (wk_stat w))" "messages (wk_stat w) = of_nat (length seen)"
        "length seen \<le> wk_rounds w" using D(4) by auto
    show ?thesis
    proof (cases "read_off c1 \<ge> msg_size p")
      case True
      then have full: "read_off c1 = msg_size p" using len by (simp add: c1_def)
      obtain st s seen' where cr: "complete_round wu now now' n i w1
          = Inr (w1\<lparr>wk_conns := (wk_conns w1)[i := c1\<lparr>read_off := 0, send_time := now'\<rparr>], wk_stat := st, wk_lcg := s,
                    wk_rounds := Suc (wk_rounds w)\<rparr>)"
          "bytes_in st = bytes_in st1" "recorder_ok cap seen' (lat st)" "messages st = of_nat (length seen')"
          "length seen' \<le> Suc (wk_rounds w)"
        using complete_round_ok [of cap seen w1 wu now now' n i] seen r i by (auto simp: w1_def st1_def)
      let ?w' = "w\<lparr>wk_conns := (wk_conns w)[i := c1\<lparr>read_off := 0, send_time := now'\<rparr>], wk_stat := st, wk_lcg := s,
        wk_rounds := Suc (wk_rounds w)\<rparr>"
      have run: "recv_turn p wu i a w = Inr (?w', True)"
        unfolding step cr(1) using True by (simp add: w1_def)
      have "nat (msg_size p) = pending ?c + length d" using full c unfolding pending_def by (simp add: c1_def) linarith
      then have "nat (msg_size p) * wk_rounds w + sum_list (map pending (wk_conns w)) + length d
          = nat (msg_size p) * Suc (wk_rounds w) + (sum_list (map pending (wk_conns w)) - pending ?c + 0)"
        using pend by simp
      then have "bytes_in st1 = of_nat (nat (msg_size p) * Suc (wk_rounds w) + (sum_list (map pending (wk_conns w)) - pending ?c + 0))"
        by (simp only: b1)
      then have "worker_ok p cap epfd ?w'"
        using worker_ok_conn [OF ok i, of "c1\<lparr>read_off := 0, send_time := now'\<rparr>" st "Suc (wk_rounds w)" seen' s] c fd buf cr(2-5)
        by (simp add: conn_ok_def c1_def pending_def)
      with run show ?thesis using i fd by (simp add: c1_def ex_bool_eq)
    next
      case less: False
      have run: "recv_turn p wu i a w = Inr (w1, True)"
        unfolding step using less by simp
      have pc: "pending c1 = pending ?c + length d" using c by (simp add: c1_def pending_def nat_add_distrib)
      have "nat (msg_size p) * wk_rounds w + sum_list (map pending (wk_conns w)) + length d
          = nat (msg_size p) * wk_rounds w + (sum_list (map pending (wk_conns w)) - pending ?c + pending c1)"
        using pc pend by simp
      then have "bytes_in st1 = of_nat (nat (msg_size p) * wk_rounds w + (sum_list (map pending (wk_conns w)) - pending ?c + pending c1))"
        by (simp only: b1)
      then have "worker_ok p cap epfd (w\<lparr>wk_conns := (wk_conns w)[i := c1], wk_stat := st1, wk_lcg := wk_lcg w, wk_rounds := wk_rounds w\<rparr>)"
        using worker_ok_conn [OF ok i, of c1 st1 "wk_rounds w" seen "wk_lcg w"] c fd buf less seen
        by (simp add: conn_ok_def c1_def st1_def)
      with run show ?thesis using i fd by (simp add: w1_def c1_def ex_bool_eq)
    qed
  qed
qed

text \<open>What holds from one call to the next: the number of messages grows by at most one for an answer.\<close>

definition goes_on :: "options \<Rightarrow> int \<Rightarrow> int \<Rightarrow> nat \<Rightarrow> bench_worker \<Rightarrow> bench_worker \<Rightarrow> bool" where
  "goes_on p cap epfd n w w' \<longleftrightarrow> worker_ok p cap epfd w' \<and> length (wk_conns w') = length (wk_conns w)
     \<and> wk_opened w' = wk_opened w \<and> wk_rounds w' \<le> wk_rounds w + n"

lemma goes_on_trans: "goes_on p cap epfd m w w1 \<Longrightarrow> goes_on p cap epfd n w1 w' \<Longrightarrow> goes_on p cap epfd (m + n) w w'"
  by (simp add: goes_on_def)

lemma goes_on_mono: "goes_on p cap epfd m w w' \<Longrightarrow> m \<le> n \<Longrightarrow> goes_on p cap epfd n w w'"
  by (simp add: goes_on_def)

lemma goes_on_refl: "worker_ok p cap epfd w \<Longrightarrow> goes_on p cap epfd 0 w w"
  by (simp add: goes_on_def)

lemma recv_loop_ok:
  "worker_ok p cap epfd w \<Longrightarrow> i < length (wk_conns w) \<Longrightarrow> 0 \<le> c_fd (wk_conns w ! i) \<Longrightarrow>
   wk_rounds w + length as < 2 ^ 64 \<Longrightarrow>
   \<exists>w'. recv_loop p wu i as w = Inr w' \<and> goes_on p cap epfd (length as) w w'"
proof (induction as arbitrary: w)
  case Nil
  then show ?case by (simp add: goes_on_refl)
next
  case (Cons a as)
  obtain w1 go where w1: "recv_turn p wu i a w = Inr (w1, go)" "goes_on p cap epfd 1 w w1" "go \<longrightarrow> 0 \<le> c_fd (wk_conns w1 ! i)"
    using recv_turn_ok [OF Cons.prems(1-3), of wu a] Cons.prems(4) by (auto simp: goes_on_def)
  show ?case
  proof (cases go)
    case True
    with Cons.IH [of w1] w1 Cons.prems(2,4) obtain w' where "recv_loop p wu i as w1 = Inr w'" "goes_on p cap epfd (length as) w1 w'"
      by (auto simp: goes_on_def)
    then show ?thesis using w1 True goes_on_trans [OF w1(2)] by fastforce
  next
    case False
    then show ?thesis using w1 goes_on_mono [OF w1(2)] by simp
  qed
qed

fun answers_in :: "ep_event list \<Rightarrow> nat" where
  "answers_in [] = 0"
| "answers_in (v # vs) = length (ev_answers v) + answers_in vs"

fun answers_of :: "wait_result list \<Rightarrow> nat" where
  "answers_of [] = 0"
| "answers_of (WaitFailed e # bs) = answers_of bs"
| "answers_of (Ready wu vs # bs) = answers_in vs + answers_of bs"

text \<open>The kernel reports only connections that were registered.\<close>

fun registered :: "nat \<Rightarrow> wait_result \<Rightarrow> bool" where
  "registered n (WaitFailed e) = True"
| "registered n (Ready wu vs) = list_all (\<lambda>v. ev_idx v < n) vs"

lemma handle_event_ok:
  assumes ok: "worker_ok p cap epfd w" and i: "ev_idx v < length (wk_conns w)"
    and r: "wk_rounds w + length (ev_answers v) < 2 ^ 64"
  shows "\<exists>w'. handle_event p wu v w = Inr w' \<and> goes_on p cap epfd (length (ev_answers v)) w w'"
proof -
  note refl = goes_on_mono [OF goes_on_refl [OF ok] le0]
  show ?thesis
  proof (cases "c_fd (wk_conns w ! ev_idx v) < 0")
    case True
    then show ?thesis using i refl by (simp add: handle_event_def)
  next
    case False
    have "goes_on p cap epfd n w (close_conn (ev_idx v) (count_err_read w))" for n
      using worker_ok_close [OF worker_ok_fail [OF ok], of "ev_idx v"] i False
      by (simp add: goes_on_def close_conn_def count_err_read_def)
    then show ?thesis using recv_loop_ok [OF ok i, of "ev_answers v" wu] False i r refl by (simp add: handle_event_def)
  qed
qed

lemma handle_events_ok:
  "worker_ok p cap epfd w \<Longrightarrow> list_all (\<lambda>v. ev_idx v < length (wk_conns w)) vs \<Longrightarrow>
   wk_rounds w + answers_in vs < 2 ^ 64 \<Longrightarrow>
   \<exists>w'. handle_events p wu vs w = Inr w' \<and> goes_on p cap epfd (answers_in vs) w w'"
proof (induction vs arbitrary: w)
  case Nil
  then show ?case by (simp add: goes_on_refl)
next
  case (Cons v vs)
  obtain w1 where w1: "handle_event p wu v w = Inr w1" "goes_on p cap epfd (length (ev_answers v)) w w1"
    using handle_event_ok [OF Cons.prems(1), of v wu] Cons.prems(2,3) by auto
  with Cons.IH [of w1] Cons.prems(2,3) obtain w' where
    w': "handle_events p wu vs w1 = Inr w'" "goes_on p cap epfd (answers_in vs) w1 w'"
    by (auto simp: goes_on_def)
  from goes_on_trans [OF w1(2) w'(2)] w1(1) w'(1) show ?case by simp
qed

lemma worker_loop_ok:
  "worker_ok p cap epfd w \<Longrightarrow> list_all (registered (length (wk_conns w))) bs \<Longrightarrow> wk_rounds w + answers_of bs < 2 ^ 64 \<Longrightarrow>
   \<exists>w'. worker_loop p bs w = Inr w' \<and> goes_on p cap epfd (answers_of bs) w w'"
proof (induction bs arbitrary: w rule: answers_of.induct)
  case 1
  then show ?case by (simp add: goes_on_refl)
next
  case (2 e bs)
  then show ?case using goes_on_mono [OF goes_on_refl [OF 2(2)] le0] by (cases e) auto
next
  case (3 wu vs bs)
  obtain w1 where w1: "handle_events p wu vs w = Inr w1" "goes_on p cap epfd (answers_in vs) w w1"
    using handle_events_ok [OF 3(2), of vs wu] 3(3,4) by auto
  with 3(1) [of w1] 3(3,4) obtain w' where
    w': "worker_loop p bs w1 = Inr w'" "goes_on p cap epfd (answers_of bs) w1 w'"
    by (auto simp: goes_on_def)
  from goes_on_trans [OF w1(2) w'(2)] w1(1) w'(1) show ?case by simp
qed

subsection \<open>Opening and closing\<close>

lemma conn_init_simps [simp]: "c_fd conn_init = - 1" "read_off conn_init = 0" "read_buf conn_init = []"
  by (simp_all add: conn_init_def)

lemma open_one_ok:
  assumes ok: "worker_ok p cap epfd w" and i: "i < length (wk_conns w)" "wk_conns w ! i = conn_init" and m: "0 < msg_size p"
  shows "worker_ok p cap epfd (open_one p i e w) \<and> wk_rounds (open_one p i e w) = wk_rounds w
    \<and> (\<exists>c. wk_conns (open_one p i e w) = (wk_conns w)[i := c])"
proof -
  note D = worker_okD [OF ok]
  obtain fd ops cls where mk: "make_conn (host p) (opt_port p) e = (fd, ops, cls)" by (cases "make_conn (host p) (opt_port p) e")
  define c where "c = (if fd < 0 then conn_init\<lparr>c_fd := fd\<rparr> else conn_init\<lparr>c_fd := fd,
    read_buf := vec_resize (char_of (0::nat)) (nat (msg_size p)) [], send_time := e_now e\<rparr>)"
  define st where "st = (if fd < 0 then (wk_stat w)\<lparr>err_connect := err_connect (wk_stat w) + 1\<rparr> else count_send (e_send e) (wk_stat w))"
  have eq: "open_one p i e w = w\<lparr>wk_conns := (wk_conns w)[i := c], wk_opened := wk_opened w @ ops, wk_closed := wk_closed w @ cls, wk_stat := st\<rparr>"
    by (simp add: open_one_def mk c_def st_def i(2) Let_def)
  have "conn_ok p c" using m by (simp add: conn_ok_def c_def length_vec_resize)
  then have all: "list_all (conn_ok p) ((wk_conns w)[i := c])" by (rule conns_ok_update [OF D(1)])
  have "mset ops = mset cls + fd_of c" using mk by (auto simp: make_conn_def Let_def c_def fd_of_def split: if_splits)
  moreover have "sum_list (map fd_of ((wk_conns w)[i := c])) = sum_list (map fd_of (wk_conns w)) + fd_of c"
    using sum_list_list_update [OF i(1), of fd_of c] by (simp add: i(2) fd_of_def)
  moreover have "sum_list (map pending ((wk_conns w)[i := c])) = sum_list (map pending (wk_conns w))"
    using sum_list_list_update [OF i(1), of pending c] by (simp add: i(2) pending_def c_def)
  moreover have "bytes_in st = bytes_in (wk_stat w)" "lat st = lat (wk_stat w)" "messages st = messages (wk_stat w)"
    by (simp_all add: st_def)
  ultimately show ?thesis using D(2-4) all unfolding eq worker_ok_def by auto
qed

lemma open_loop_ok:
  "worker_ok p cap epfd w \<Longrightarrow> i + length es = length (wk_conns w) \<Longrightarrow> 0 < msg_size p \<Longrightarrow>
   \<forall>j < length (wk_conns w). i \<le> j \<longrightarrow> wk_conns w ! j = conn_init \<Longrightarrow>
   worker_ok p cap epfd (open_loop p i es w) \<and> length (wk_conns (open_loop p i es w)) = length (wk_conns w)
     \<and> wk_rounds (open_loop p i es w) = wk_rounds w"
proof (induction es arbitrary: i w)
  case (Cons e es)
  have i: "i < length (wk_conns w)" "wk_conns w ! i = conn_init" using Cons.prems(2,4) by auto
  obtain c where o: "worker_ok p cap epfd (open_one p i e w)" "wk_rounds (open_one p i e w) = wk_rounds w"
      "wk_conns (open_one p i e w) = (wk_conns w)[i := c]"
    using open_one_ok [OF Cons.prems(1) i Cons.prems(3), of e] by auto
  from Cons.IH [OF o(1), of "Suc i"] o Cons.prems(2-4) show ?case by simp
qed simp

lemma worker_init_ok:
  assumes "thread_stat_new cap = Inr st" and "cap < 2 ^ 31" and "0 < msg_size p"
  shows "worker_ok p cap epfd ((worker_init st n)\<lparr>wk_opened := [epfd]\<rparr>)"
proof -
  obtain l where l: "recorder_new cap = Inr l" "lat st = l" "messages st = 0" "bytes_in st = 0"
    using assms(1) by (auto simp: thread_stat_new_def rbind_eq_Inr)
  then have "0 \<le> cap" by (simp add: recorder_new_def split: if_splits)
  with recorder_new_ok [of cap] l assms(2) have "recorder_ok cap [] (lat st)" by auto
  moreover have "sum_list (map fd_of (replicate n conn_init)) = {#}" "sum_list (map pending (replicate n conn_init)) = 0"
    by (induction n) (simp_all add: fd_of_def pending_def)
  ultimately show ?thesis using l(3,4) assms(3)
    by (auto simp: worker_ok_def worker_init_def list_all_length conn_ok_def sum_list_replicate)
qed

lemma fds_of_conns: "mset (filter (\<lambda>fd. fd \<ge> 0) (map c_fd cs)) = sum_list (map fd_of cs)"
  by (induction cs) (auto simp: fd_of_def)

section \<open>Distribution of connections\<close>

lemma thread_counts_ok:
  "0 \<le> per \<Longrightarrow> cs \<le> per * int (i + m) \<Longrightarrow>
   sum_list (thread_counts per cs i m) = max 0 (cs - per * int i) \<and> length (thread_counts per cs i m) \<le> m
     \<and> list_all (\<lambda>n. 0 < n \<and> n \<le> per) (thread_counts per cs i m)"
proof (induction m arbitrary: i)
  case (Suc m)
  have e: "per * int (Suc i) = per * int i + per" by (simp add: algebra_simps)
  show ?case
  proof (cases "min per (cs - per * int i) \<le> 0")
    case True
    have "cs - per * int i \<le> 0"
    proof (cases "per = 0")
      case False
      then show ?thesis using True Suc.prems(1) by (auto simp: min_def split: if_splits)
    qed (use Suc.prems(2) in simp)
    then show ?thesis using True by (simp add: Let_def)
  next
    case False
    have "cs \<le> per * int (Suc i + m)" using Suc.prems(2) by simp
    from Suc.IH [OF Suc.prems(1) this] False show ?thesis
      unfolding e by (auto simp: Let_def min_def max_def split: if_splits)
  qed
qed (simp add: max_def)

lemma per_thread_ok:
  assumes "0 < threads p" and "0 \<le> connections p" and "connections p + threads p < 2 ^ 31"
  shows "per_thread p = Inr ((connections p + threads p - 1) div threads p)"
  using assms by (simp add: per_thread_def Let_def c_div_nonneg)

text \<open>Even though eight threads are asked for, three of them get nothing to do.\<close>

lemma distribution_leaves_threads_idle:
  "start_threads (options_new\<lparr>threads := 8, connections := 9\<rparr>) = Inr [2, 2, 2, 2, 1]"
  by code_simp

lemma zero_threads_divides_by_zero: "start_threads (options_new\<lparr>threads := 0\<rparr>) = Inl DivisionByZero"
  by code_simp

lemma zero_msg_size_writes_outside: "0 \<le> epfd \<Longrightarrow> msg_size p = 0 \<Longrightarrow> run_worker p epfd envs bs st = Inl EmptyPayload"
  by (simp add: run_worker_def)

text \<open>After a short or refused \<open>send\<close> nothing is ever sent again on that connection: no echo, no event.\<close>

lemma short_send_is_not_completed:
  "wk_stat (open_one p i e w) = (wk_stat w)\<lparr>bytes_out := bytes_out (wk_stat w) + word_of_int (e_send e)\<rparr>"
  if "0 \<le> e_socket e" "0 \<le> e_connect e (inet_address (opt_port p) (host p))" "0 \<le> e_send e"
  using that by (simp add: open_one_def make_conn_def count_send_def Let_def)

section \<open>The command line written out\<close>

definition render_options :: "options \<Rightarrow> string list" where
  "render_options p = [''--host'', host p, ''--port'', dec (unat (opt_port p)), ''--threads'', dec_int (threads p),
     ''-c'', dec_int (connections p), ''-d'', dec_int (duration_s p), ''--warmup'', dec_int (warmup_s p),
     ''-m'', dec_int (msg_size p), ''--max-samples'', dec_int (opt_max_samples p)]"

lemma option_setter_simps [simp]:
  "option_setter ''--host'' = Some (\<lambda>v p. p\<lparr>host := v\<rparr>)"
  "option_setter ''--port'' = Some (\<lambda>v p. p\<lparr>opt_port := word_of_int (atoi v)\<rparr>)"
  "option_setter ''--threads'' = Some (\<lambda>v p. p\<lparr>threads := atoi v\<rparr>)"
  "option_setter ''-c'' = Some (\<lambda>v p. p\<lparr>connections := atoi v\<rparr>)"
  "option_setter ''-d'' = Some (\<lambda>v p. p\<lparr>duration_s := atoi v\<rparr>)"
  "option_setter ''--warmup'' = Some (\<lambda>v p. p\<lparr>warmup_s := atoi v\<rparr>)"
  "option_setter ''-m'' = Some (\<lambda>v p. p\<lparr>msg_size := atoi v\<rparr>)"
  "option_setter ''--max-samples'' = Some (\<lambda>v p. p\<lparr>opt_max_samples := atoi v\<rparr>)"
  by (simp_all add: option_setter_def)

lemma port_round_trip: "word_of_int (atoi (dec (unat w))) = w" for w :: "16 word"
proof -
  have "unat w < 2 ^ 16" using unsigned_less [of w, where ?'a = nat] by simp
  then have "unat w < 2 ^ 31" by simp
  then have "int (unat w) < 2 ^ 31" by (simp only: zless_nat_eq_int_zless flip: of_nat_less_iff [where 'a = int]) simp
  moreover have "- (2 ^ 31) \<le> int (unat w)" by (rule order_trans [of _ 0]) simp_all
  ultimately have "atoi (dec_int (int (unat w))) = int (unat w)" by (intro atoi_dec_int)
  then show ?thesis by (simp add: dec_int_def)
qed

section \<open>Properties\<close>

text \<open>
  A benchmark thread keeps correct books.  Whatever the peers send, in whatever pieces, it never
  writes outside a receive buffer and always finishes; every descriptor it obtained is closed exactly
  once; the received bytes are whole messages plus what is pending on each connection; and the
  measured messages, at most those received, are as many as the recorder has seen.
\<close>

theorem worker_keeps_books:
  assumes "0 < msg_size p" and "thread_stat_new cap = Inr st" and "cap < 2 ^ 31" and "0 \<le> epfd"
    and "list_all (registered (length envs)) bs" and "answers_of bs < 2 ^ 64"
  shows "\<exists>w. run_worker p epfd envs bs st = Inr w \<and> mset (wk_closed w) = mset (wk_opened w)
    \<and> bytes_in (wk_stat w) = of_nat (nat (msg_size p) * wk_rounds w + sum_list (map pending (wk_conns w)))
    \<and> list_all (\<lambda>c. 0 \<le> read_off c \<and> read_off c < msg_size p) (wk_conns w)
    \<and> (\<exists>k \<le> wk_rounds w. messages (wk_stat w) = of_nat k \<and> total_seen (lat (wk_stat w)) = of_nat k
         \<and> length (samples_us (lat (wk_stat w))) = min k (nat cap))"
proof -
  let ?w0 = "(worker_init st (length envs))\<lparr>wk_opened := [epfd]\<rparr>"
  let ?w1 = "open_loop p 0 envs ?w0"
  have "worker_ok p cap epfd ?w1 \<and> length (wk_conns ?w1) = length envs \<and> wk_rounds ?w1 = 0"
    using open_loop_ok [OF worker_init_ok [OF assms(2,3,1)], of 0 envs epfd] assms(1) by (simp add: worker_init_def)
  then obtain w where w: "worker_loop p bs ?w1 = Inr w" "worker_ok p cap epfd w"
    using worker_loop_ok [of p cap epfd ?w1 bs] assms(5,6) by (auto simp: goes_on_def)
  note D = worker_okD [OF w(2)]
  have "run_worker p epfd envs bs st = Inr (close_all epfd w)"
    using assms(1,4) w(1) by (simp add: run_worker_def Let_def)
  moreover have "mset (wk_closed (close_all epfd w)) = mset (wk_opened (close_all epfd w))"
    using D(2) by (simp add: close_all_def fds_of_conns [symmetric])
  moreover have "list_all (\<lambda>c. 0 \<le> read_off c \<and> read_off c < msg_size p) (wk_conns w)"
    using D(1) by (auto simp: list_all_iff conn_ok_def)
  ultimately show ?thesis using D(3,4) by (auto simp: close_all_def recorder_ok_def)
qed

theorem worker_keeps_books_witness:
  "\<exists>w. run_worker (options_new\<lparr>msg_size := 2\<rparr>) 3 [\<lparr>e_socket = 4, e_connect = (\<lambda>a. 0), e_now = 0, e_send = 2\<rparr>]
       [Ready False [\<lparr>ev_error = False, ev_in = True, ev_idx = 0, ev_answers = [Got ''A'' 1 1 2, Got ''B'' 5 6 2]\<rparr>]]
       \<lparr>messages = 0, bytes_in = 0, bytes_out = 0, err_connect = 0, err_read = 0, err_write = 0,
        lat = \<lparr>samples_us = [], max_samples = 10, total_seen = 0\<rparr>\<rparr> = Inr w
     \<and> mset (wk_closed w) = mset (wk_opened w)"
proof -
  let ?st = "\<lparr>messages = 0, bytes_in = 0, bytes_out = 0, err_connect = 0, err_read = 0, err_write = 0,
        lat = \<lparr>samples_us = [], max_samples = 10, total_seen = 0\<rparr>\<rparr>"
  have "thread_stat_new 10 = Inr ?st" by (simp add: thread_stat_new_def recorder_new_def)
  from worker_keeps_books [OF _ this, of "options_new\<lparr>msg_size := 2\<rparr>" 3 "[\<lparr>e_socket = 4, e_connect = (\<lambda>a. 0), e_now = 0, e_send = 2\<rparr>]"
      "[Ready False [\<lparr>ev_error = False, ev_in = True, ev_idx = 0, ev_answers = [Got ''A'' 1 1 2, Got ''B'' 5 6 2]\<rparr>]]"]
  show ?thesis by (auto simp: options_new_def)
qed

text \<open>
  Connections are shared out completely.  With a positive number of threads every connection goes
  to exactly one thread, no thread has more than the rounded-up quotient, and a thread that is started
  has at least one.
\<close>

theorem connections_shared_out:
  assumes "0 < threads p" and "0 \<le> connections p" and "connections p + threads p < 2 ^ 31"
  shows "\<exists>ns. start_threads p = Inr ns \<and> sum_list ns = connections p \<and> length ns \<le> nat (threads p)
    \<and> list_all (\<lambda>n. 0 < n \<and> n \<le> (connections p + threads p - 1) div threads p) ns"
proof -
  let ?per = "(connections p + threads p - 1) div threads p"
  have "connections p + threads p - 1 = threads p * ?per + (connections p + threads p - 1) mod threads p" by simp
  moreover have "(connections p + threads p - 1) mod threads p < threads p" using assms(1) by simp
  ultimately have "connections p \<le> threads p * ?per" by linarith
  then have le: "connections p \<le> ?per * int (0 + nat (threads p))" using assms(1) by (simp add: mult.commute)
  have "0 \<le> ?per" using assms by (simp add: pos_imp_zdiv_nonneg_iff)
  from thread_counts_ok [OF this le] assms show ?thesis by (simp add: start_threads_def per_thread_ok)
qed

theorem connections_shared_out_witness:
  "\<exists>ns. start_threads (options_new\<lparr>threads := 4, connections := 10\<rparr>) = Inr ns \<and> sum_list ns = 10"
  using connections_shared_out [of "options_new\<lparr>threads := 4, connections := 10\<rparr>"] by (auto simp: options_new_def)

text \<open>
  The command line.  Writing any options out as arguments and parsing them gives the same options
  back, whatever the host text is.
\<close>

theorem parse_args_round_trip:
  assumes "list_all (\<lambda>v. - (2 ^ 31) \<le> v \<and> v < 2 ^ 31)
    [threads p, connections p, duration_s p, warmup_s p, msg_size p, opt_max_samples p]"
  shows "parse_args (prog # render_options p) = Inr p"
  using assms by (simp add: parse_args_def render_options_def port_round_trip atoi_dec_int)

theorem parse_args_round_trip_witness: "parse_args (''echo_client'' # render_options options_new) = Inr options_new"
  by (rule parse_args_round_trip) (simp add: options_new_def)

end
