(* ===== verification/Spec2Isabelle.thy ===== *)
theory Spec2Isabelle
  imports Byte_Buffer Circular_Buffer Idle_Wheel Timer_Queue Buffer_Pool Io_Uring Scheduler Scheduler_Life Scheduler_Stop Scheduler_Pool
    Log_Stream Log_File Logger Async_Logger Log_Path Thread_Pool Io_Ops Tcp_Connection Tcp_Server Server_Shutdown Conn_Life
    Coroutines Task_Owners Runtime Suspension C_Strings Inet_Address Echo_Server Echo_Stats Echo_Client
begin

text \<open>
  A model of \<open>coro_net\<close>, a C++20 network library of coroutines over \<open>io_uring\<close>, and the
  properties that make it correct.

  \<^bold>\<open>The program.\<close>  A \<open>TcpServer\<close> owns a \<open>SchedulerPool\<close>: one thread, one \<open>Scheduler\<close> and one
  ring per worker, one listening socket each.  A scheduler resumes coroutines from its ready queue,
  submits the requests their awaiters have queued, waits, and lets each completion make its
  coroutine ready again.  Other threads reach it through a locked cross queue and an eventfd.  A
  worker also has a timer queue behind a timerfd, an idle wheel that closes silent connections, and
  a pool of buffers registered with the ring, of which each \<open>TcpConnection\<close> borrows one slot.  A
  separate \<open>CoroThreadPool\<close> runs blocking work and posts the coroutine back.  Logging is a front
  end that formats a line into a fixed buffer and a back end thread that swaps buffers and writes
  rolling files.

  \<^bold>\<open>The theories.\<close>
    \<^item> \<open>Coro_Prelude\<close>: results with errors, \<open>size_t\<close> and 64-bit arithmetic, raw memory.
    \<^item> \<open>Byte_Buffer\<close> (\<open>buffer.hpp\<close>): the growing buffer with two indices; it refines a byte queue
      (locale \<open>byte_fifo\<close>).
    \<^item> \<open>Circular_Buffer\<close> (\<open>src/util/circular_buffer.h\<close>): the ring and its iterator (locale
      \<open>overwriting_ring\<close>, used by the wheel).
    \<^item> \<open>Idle_Wheel\<close> (\<open>idle_connection_wheel\<close>, \<open>idle_entry\<close>): buckets of shared pointers to entries
      over the ring, with the use count of each entry; from the constructor on, every sequence of
      registrations, renewals and ticks shows exactly what a table of the ages of the entries shows,
      which die after exactly \<open>N\<close> ticks.
    \<^item> \<open>Timer_Queue\<close> (\<open>timer/\<close>): timers on an explicit heap, the sorted set, the running batch whose
      callbacks re-enter the queue, each run in its own way; memory safety, order, cancellation, re-arming, the timerfd.
    \<^item> \<open>Buffer_Pool\<close> (\<open>registered_buffer_pool.hpp\<close>): slots and free list; the locale \<open>slot_pool\<close> is
      the contract on which connections rely.
    \<^item> \<open>Io_Uring\<close> (\<open>io/io_uring.h\<close>): set-up flags as 32-bit words and the fallback list.
    \<^item> \<open>Scheduler\<close> (\<open>scheduler.hpp\<close>, \<open>scheduler.cc\<close>, \<open>io_operation\<close>): state, operations, and the
      event loop as a step relation interleaved with application code on its thread, with other
      threads and with the kernel; no wake-up is lost, posted handles keep their order, and every
      completion finds the awaiter it names (a missing one is an error value).
    \<^item> \<open>Scheduler_Life\<close>: construction and destruction of a scheduler as the resources taken and
      given back, exceptions included; the completion queue read in batches.
    \<^item> \<open>Scheduler_Stop\<close> (\<open>Scheduler::run\<close>, \<open>stop\<close>): the steps a loop still makes once it has been told to
      stop, in every interleaving, by a rank that falls with each of them and rises only by two when a
      coroutine is made ready; a coroutine that always posts itself keeps a stopping loop running.
    \<^item> \<open>Coroutines\<close> (\<open>task.hpp\<close>, \<open>fire_and_forget\<close>, \<open>Scheduler::spawn\<close>): frames on a heap with
      continuation, result and local task objects, a machine that runs their bodies with symmetric
      transfer; no frame is used after its destruction, and a spawned task behaves like the direct
      sequential reading of its body.
    \<^item> \<open>Task_Owners\<close> (\<open>task.hpp\<close>): programs over \<open>Task\<close> objects that construct, move, assign, release
      and destroy them; every frame has one owner, none is lost.  The frames are those of tasks that
      wait for no other task; a waiting frame holds its task itself, which is the subject of \<open>Coroutines\<close>.
    \<^item> \<open>Runtime\<close>, \<open>Suspension\<close>: the event loop and the coroutine machine run together; what each
      suspended coroutine waits for, its single wake-up, the delivery of results, and the loop that
      does not sleep on a coroutine it could resume.
    \<^item> \<open>Scheduler_Pool\<close> (\<open>scheduler_pool\<close>): grouping of rings, start, stop, round robin.
    \<^item> \<open>Io_Ops\<close> (\<open>ops/\<close>): the awaiters of single operations and the receive into a buffer.
    \<^item> \<open>Tcp_Connection\<close> (\<open>tcp_connection\<close>): slots, receive, the send loops, renewal; all connections
      of a worker together, through an interpretation of \<open>slot_pool\<close>.
    \<^item> \<open>Tcp_Server\<close> (\<open>tcp_server\<close>): listeners, start, accept loop, stop on any thread, wait,
      destruction; the pool remembers which tasks were queued when its threads were created.
    \<^item> \<open>Server_Shutdown\<close> (\<open>TcpServer::stop\<close>): the stop task on its way through the loop of a worker, as
      far as the stop flag, from where \<open>Scheduler_Stop\<close> goes on.
    \<^item> \<open>Conn_Life\<close>: accept loop, handlers, idle wheel and closing coroutines of a worker as a labelled
      step relation over the shared connections: who holds a connection, which descriptors the
      operations in flight name, and what happens to silent connections.
    \<^item> \<open>Thread_Pool\<close> (\<open>thread_pool\<close>, \<open>submit_awaiter.hpp\<close>): workers, mutex, condition variable and
      the stop flag as a step relation; a stop runs what was submitted before it, later tasks may be
      lost; the awaiter that carries a result or an exception back.
    \<^item> \<open>Log_Stream\<close>, \<open>Log_File\<close>, \<open>Logger\<close>, \<open>Async_Logger\<close> (\<open>log/\<close>): formatting into fixed buffers
      (locale \<open>truncating_buffer\<close>), rolling files (locale \<open>log_sink\<close>), the line of a statement of
      each kind, and the double-buffered back end, with any number of starts and stops, as a step
      relation over any sink, interpreted on the rolling file.  The back end's test of \<open>running_\<close>, its
      timed wait and its exchange of buffers are steps of their own.
    \<^item> \<open>Log_Path\<close> (\<open>Logger::~Logger\<close>): the thread that ends a statement beside all others, as far as
      \<open>abort\<close> for a fatal one; where its line is then, and that the backend ends after a stop.
    \<^item> \<open>C_Strings\<close>, \<open>Inet_Address\<close> (\<open>inet_address.hpp\<close>): decimal conversions and dotted addresses
      of the C library, \<open>InetAddress\<close> and its texts.
    \<^item> \<open>Echo_Server\<close> (\<open>example/echo_server.cc\<close>): settings from the environment, the server it
      builds, the echo handler over a connection, and \<open>main\<close> up to its exit status.
    \<^item> \<open>Echo_Stats\<close>, \<open>Echo_Client\<close> (\<open>benchmark/legacy/echo_client.cc\<close>): the latency recorder and
      report; options, connections, epoll loop and counters of a benchmark thread.

  \<^bold>\<open>Correspondence.\<close>  Classes are records with the members of the class, operations carry the names
  of the methods.  Exceptions and undefined behaviour (null pointers, freed timers, indices outside
  a vector) are values of error types, so that \<open>Inr\<close> in a conclusion says that they do not occur.
  Sizes and sequence numbers wrap at 64 bits where the code lets them; lengths passed as \<open>unsigned\<close>
  are reduced to 32 bits.  A coroutine is cut at its suspension points.  Fields marked as history
  record what happened and are read by no operation.

  \<^bold>\<open>Arguments and assumptions.\<close>  Results of the kernel and of the C library (allocation, sockets,
  ring set-up, file writes, clocks, host name) are arguments.  Where a property needs them to behave
  as documented the hypothesis is named: \<open>kernel_ok\<close> (a send accepts at most what it is given),
  \<open>accepting\<close> (a send of something takes at least one byte),
  \<open>env_ok\<close> (allocation returns an address that is not in use),
  \<open>files_work\<close> and \<open>fwrite_ok\<close> (opening and writing files), \<open>clock_monotone\<close> and \<open>stamps_ok\<close> (file
  names), \<open>abi_ok\<close> (set-up flags are different bits).  In \<open>Runtime\<close> a request has one completion, a
  live awaiter is overlapped by no other, and the application posts no handle of its own.  In
  \<open>Conn_Life\<close> a handler has one operation in flight at a time.  Shared variables are sequentially consistent.
  What a timer callback does to its queue is a list of queue operations; the field \<open>does\<close> of the
  environment gives it for each callback and each moment (the number of callbacks run before), so a
  callback may keep state and act differently each time.

  \<^bold>\<open>Loops.\<close>  Loops over lists are structural recursion; the number conversions have a measure; the
  write loop of a file and the send loop are partial functions whose value \<open>None\<close> means that they do
  not return, and the properties about them state a value.  Destroying a frame destroys the tasks
  it owns, recursively, with the number of frames ever created as fuel; the safety
  property of \<open>Coroutines\<close> shows that it does not run out, as running out is an error value.

  \<^bold>\<open>Not modelled.\<close>  Memory orders weaker than sequential consistency, allocation failures in the
  standard library, the text of the program's own log messages, the
  instruction at which a signal interrupts a thread, and the tests.
  The umbrella headers \<open>tcp.hpp\<close> and \<open>ops.hpp\<close> contain no code.  The bodies of application
  coroutines are arguments.
\<close>

end
